(* ===== verification/Prelude.thy ===== *)
theory Prelude
  imports Main "HOL-Library.Word" "HOL-Library.AList" "HOL-Library.Char_ord"
    "HOL-Library.List_Lexorder"
begin

text \<open>
  Shared vocabulary of the development: C++ exceptions as values, the state-and-exception
  effects every stateful operation is written in, 32-bit \<open>int\<close>, the parts of the C++ standard
  library the server calls (\<open>std::stoi\<close>, \<open>std::to_string\<close>, \<open>std::getline\<close>), and generic facts
  on association lists, which stand for \<open>std::unordered_map\<close> (the list order is the iteration
  order, which the standard leaves open).
\<close>

named_theorems eff_simps "unfolding of the effect combinators"
named_theorems assoc_simps "lookups in updated association lists"

section \<open>Exceptions and effects\<close>

text \<open>The \<open>std::exception\<close> subclasses the program throws or catches, with their \<open>what()\<close>.\<close>

datatype exn =
    InvalidArgument string
  | OutOfRange string
  | LengthError string
  | RuntimeError string
  | BadVariantAccess
  | JsonException string
  | SqlFailure string
  | UsageError string

fun what :: "exn \<Rightarrow> string" where
  "what (InvalidArgument m) = m"
| "what (OutOfRange m) = m"
| "what (LengthError m) = m"
| "what (RuntimeError m) = m"
| "what BadVariantAccess = ''bad_variant_access''"
| "what (JsonException m) = m"
| "what (SqlFailure m) = m"
| "what (UsageError m) = m"

text \<open>
  An effect over a state: it returns a value or throws, and leaves a state in both cases, as a
  C++ function does.
\<close>

type_synonym ('s, 'a) eff = "'s \<Rightarrow> (exn + 'a) \<times> 's"

definition ret :: "'a \<Rightarrow> ('s, 'a) eff" where
  "ret x = (\<lambda>s. (Inr x, s))"

definition throw :: "exn \<Rightarrow> ('s, 'a) eff" where
  "throw e = (\<lambda>s. (Inl e, s))"

definition lift_res :: "exn + 'a \<Rightarrow> ('s, 'a) eff" where
  "lift_res r = (\<lambda>s. (r, s))"

definition andThen :: "('s, 'a) eff \<Rightarrow> ('a \<Rightarrow> ('s, 'b) eff) \<Rightarrow> ('s, 'b) eff" where
  "andThen m f = (\<lambda>s. case m s of (Inl e, t) \<Rightarrow> (Inl e, t) | (Inr x, t) \<Rightarrow> f x t)"

text \<open>\<open>try { m } catch (const std::exception &e) { h(e) }\<close>.\<close>

definition tryCatch :: "('s, 'a) eff \<Rightarrow> (exn \<Rightarrow> ('s, 'a) eff) \<Rightarrow> ('s, 'a) eff" where
  "tryCatch m h = (\<lambda>s. case m s of (Inl e, t) \<Rightarrow> h e t | (Inr x, t) \<Rightarrow> (Inr x, t))"

definition readS :: "('s \<Rightarrow> 'a) \<Rightarrow> ('s, 'a) eff" where
  "readS f = (\<lambda>s. (Inr (f s), s))"

definition updS :: "('s \<Rightarrow> 's) \<Rightarrow> ('s, unit) eff" where
  "updS f = (\<lambda>s. (Inr (), f s))"

fun forEach :: "'a list \<Rightarrow> ('a \<Rightarrow> ('s, unit) eff) \<Rightarrow> ('s, unit) eff" where
  "forEach [] f = ret ()"
| "forEach (x # xs) f = andThen (f x) (\<lambda>_. forEach xs f)"

text \<open>Sequencing of pure computations that may throw.\<close>

definition bindR :: "exn + 'a \<Rightarrow> ('a \<Rightarrow> exn + 'b) \<Rightarrow> exn + 'b" where
  "bindR r f = (case r of Inl e \<Rightarrow> Inl e | Inr x \<Rightarrow> f x)"

lemma bindR_simps [simp]: "bindR (Inl e) f = Inl e" "bindR (Inr x) f = f x"
  by (simp_all add: bindR_def)

lemma bindR_Inr: "bindR r f = Inr y \<longleftrightarrow> (\<exists>x. r = Inr x \<and> f x = Inr y)"
  by (cases r) auto

lemma ret_app [simp, eff_simps]: "ret x s = (Inr x, s)"
  by (simp add: ret_def)

lemma throw_app [simp, eff_simps]: "throw e s = (Inl e, s)"
  by (simp add: throw_def)

lemma lift_res_app [simp, eff_simps]: "lift_res r s = (r, s)"
  by (simp add: lift_res_def)

lemma readS_app [simp, eff_simps]: "readS f s = (Inr (f s), s)"
  by (simp add: readS_def)

lemma updS_app [simp, eff_simps]: "updS f s = (Inr (), f s)"
  by (simp add: updS_def)

lemma andThen_Inr [simp, eff_simps]: "m s = (Inr x, t) \<Longrightarrow> andThen m f s = f x t"
  by (simp add: andThen_def)

lemma andThen_Inl [simp, eff_simps]: "m s = (Inl e, t) \<Longrightarrow> andThen m f s = (Inl e, t)"
  by (simp add: andThen_def)

lemma tryCatch_Inr [simp, eff_simps]: "m s = (Inr x, t) \<Longrightarrow> tryCatch m h s = (Inr x, t)"
  by (simp add: tryCatch_def)

lemma tryCatch_Inl [simp, eff_simps]: "m s = (Inl e, t) \<Longrightarrow> tryCatch m h s = h e t"
  by (simp add: tryCatch_def)

lemma andThen_ret [simp]: "andThen (ret x) f = f x"
  by (rule ext) simp

lemma andThen_throw [simp]: "andThen (throw e) f = throw e"
  by (rule ext) simp

lemma andThen_assoc: "andThen (andThen m f) g = andThen m (\<lambda>x. andThen (f x) g)"
  by (rule ext) (simp add: andThen_def split: prod.splits sum.splits)

text \<open>A handler that never throws makes the whole block never throw.\<close>

lemma tryCatch_total:
  assumes "\<And>e t. \<exists>y u. h e t = (Inr y, u)"
  shows "\<exists>y u. tryCatch m h s = (Inr y, u)"
proof (cases "m s")
  case (Pair r t)
  then show ?thesis
    using assms by (cases r) (simp_all add: tryCatch_def)
qed

text \<open>Invariants of the state pass through the combinators.\<close>

definition keeps :: "('s \<Rightarrow> bool) \<Rightarrow> ('s, 'a) eff \<Rightarrow> bool" where
  "keeps I m \<longleftrightarrow> (\<forall>s. I s \<longrightarrow> I (snd (m s)))"

lemma keepsI: "(\<And>s. I s \<Longrightarrow> I (snd (m s))) \<Longrightarrow> keeps I m"
  by (simp add: keeps_def)

lemma keepsD: "keeps I m \<Longrightarrow> I s \<Longrightarrow> I (snd (m s))"
  by (simp add: keeps_def)

lemma keeps_ret [intro, simp]: "keeps I (ret x)"
  by (simp add: keeps_def)

lemma keeps_throw [intro, simp]: "keeps I (throw e)"
  by (simp add: keeps_def)

lemma keeps_lift_res [intro, simp]: "keeps I (lift_res r)"
  by (simp add: keeps_def)

lemma keeps_readS [intro, simp]: "keeps I (readS f)"
  by (simp add: keeps_def)

lemma keeps_updS: "(\<And>s. I s \<Longrightarrow> I (f s)) \<Longrightarrow> keeps I (updS f)"
  by (simp add: keeps_def)

lemma keeps_andThen [intro]:
  assumes "keeps I m" and "\<And>x. keeps I (f x)"
  shows "keeps I (andThen m f)"
proof (rule keepsI)
  fix s assume "I s"
  obtain r t where m: "m s = (r, t)" by fastforce
  have t: "I t" using keepsD [OF assms(1) \<open>I s\<close>] by (simp add: m)
  then show "I (snd (andThen m f s))"
    using m keepsD [OF assms(2) t] by (cases r) simp_all
qed

lemma keeps_tryCatch [intro]:
  assumes "keeps I m" and "\<And>e. keeps I (h e)"
  shows "keeps I (tryCatch m h)"
proof (rule keepsI)
  fix s assume "I s"
  obtain r t where m: "m s = (r, t)" by fastforce
  have t: "I t" using keepsD [OF assms(1) \<open>I s\<close>] by (simp add: m)
  then show "I (snd (tryCatch m h s))"
    using m keepsD [OF assms(2) t] by (cases r) simp_all
qed

lemma keeps_forEach [intro]: "(\<And>x. keeps I (f x)) \<Longrightarrow> keeps I (forEach xs f)"
  by (induction xs) auto

lemma keeps_if [intro]: "keeps I m \<Longrightarrow> keeps I n \<Longrightarrow> keeps I (if b then m else n)"
  by simp

text \<open>A destructor at the end of a scope: it runs whether the body returned or threw.\<close>

definition scopeExit :: "('s, 'a) eff \<Rightarrow> ('s \<Rightarrow> 's) \<Rightarrow> ('s, 'a) eff" where
  "scopeExit m d = (\<lambda>s. case m s of (r, t) \<Rightarrow> (r, d t))"

lemma keeps_scopeExit: "keeps I m \<Longrightarrow> (\<And>s. I s \<Longrightarrow> I (d s)) \<Longrightarrow> keeps I (scopeExit m d)"
  by (auto simp: keeps_def scopeExit_def split: prod.split)

text \<open>\<open>wp m R s\<close>: run from \<open>s\<close>, the effect ends in a result and a state that satisfy \<open>R\<close>.\<close>

definition wp :: "('s, 'a) eff \<Rightarrow> (exn + 'a \<Rightarrow> 's \<Rightarrow> bool) \<Rightarrow> 's \<Rightarrow> bool" where
  "wp m R s = (case m s of (r, t) \<Rightarrow> R r t)"

named_theorems wp_simps "the weakest precondition of the combinators"

lemma wp_combinators [wp_simps]:
  "wp (ret x) R s = R (Inr x) s"
  "wp (throw e) R s = R (Inl e) s"
  "wp (lift_res q) R s = R q s"
  "wp (readS f) R s = R (Inr (f s)) s"
  "wp (updS g) R' s = R' (Inr ()) (g s)"
  by (simp_all add: wp_def)

lemma wp_andThen [wp_simps]:
  "wp (andThen m f) R s =
     wp m (\<lambda>r t. case r of Inl e \<Rightarrow> R (Inl e) t | Inr x \<Rightarrow> wp (f x) R t) s"
  by (simp add: wp_def andThen_def split: prod.split sum.split)

lemma wp_tryCatch [wp_simps]:
  "wp (tryCatch m h) R s =
     wp m (\<lambda>r t. case r of Inl e \<Rightarrow> wp (h e) R t | Inr x \<Rightarrow> R (Inr x) t) s"
  by (simp add: wp_def tryCatch_def split: prod.split sum.split)

lemma wp_scopeExit [wp_simps]: "wp (scopeExit m d) R s = wp m (\<lambda>r t. R r (d t)) s"
  by (simp add: wp_def scopeExit_def split: prod.split)

lemma wp_if [wp_simps]: "wp (if b then m else n) R s = (if b then wp m R s else wp n R s)"
  by simp

lemma wp_mono: "wp m R s \<Longrightarrow> (\<And>r t. R r t \<Longrightarrow> R' r t) \<Longrightarrow> wp m R' s"
  by (auto simp: wp_def)

lemma wp_conj: "wp m R s \<Longrightarrow> wp m R' s \<Longrightarrow> wp m (\<lambda>r t. R r t \<and> R' r t) s"
  by (auto simp: wp_def)

lemma wpI: "(\<And>r t. m s = (r, t) \<Longrightarrow> R r t) \<Longrightarrow> wp m R s"
  by (auto simp: wp_def)

lemma wpD: "wp m R s \<Longrightarrow> m s = (r, t) \<Longrightarrow> R r t"
  by (simp add: wp_def)

lemma keeps_wp: "keeps I m \<longleftrightarrow> (\<forall>s. I s \<longrightarrow> wp m (\<lambda>r. I) s)"
  by (simp add: keeps_def wp_def case_prod_beta)

section \<open>The C++ \<open>int\<close>\<close>

text \<open>
  A 32-bit two's complement value, kept as \<open>int\<close>: the conversion from a wider integer keeps the
  low 32 bits.
\<close>

definition INT_MIN :: int where "INT_MIN = -2147483648"
definition INT_MAX :: int where "INT_MAX = 2147483647"

definition int32 :: "int \<Rightarrow> int" where
  "int32 x = (x + 2147483648) mod 4294967296 - 2147483648"

definition in_int :: "int \<Rightarrow> bool" where
  "in_int x \<longleftrightarrow> INT_MIN \<le> x \<and> x \<le> INT_MAX"

lemma int32_sint: "int32 x = sint (word_of_int x :: 32 word)"
proof -
  have "sint (word_of_int x :: 32 word) = signed_take_bit 31 x"
    by (simp add: signed_of_int)
  also have "\<dots> = (x + 2147483648) mod 4294967296 - 2147483648"
    by (simp add: signed_take_bit_eq_take_bit_shift take_bit_eq_mod)
  finally show ?thesis by (simp add: int32_def)
qed

lemma int32_bounds: "INT_MIN \<le> int32 x \<and> int32 x \<le> INT_MAX"
  unfolding int32_def INT_MIN_def INT_MAX_def
  using pos_mod_bound [of 4294967296 "x + 2147483648"]
    pos_mod_sign [of 4294967296 "x + 2147483648"] by linarith

lemma in_int_int32 [simp]: "in_int (int32 x)"
  using int32_bounds by (simp add: in_int_def)

lemma int32_id [simp]: "in_int x \<Longrightarrow> int32 x = x"
  by (simp add: in_int_def int32_def INT_MIN_def INT_MAX_def)

section \<open>Decimal text\<close>

definition is_digit :: "char \<Rightarrow> bool" where
  "is_digit c \<longleftrightarrow> 48 \<le> (of_char c :: nat) \<and> (of_char c :: nat) \<le> 57"

definition digit_val :: "char \<Rightarrow> nat" where
  "digit_val c = of_char c - 48"

definition digit_char :: "nat \<Rightarrow> char" where
  "digit_char d = char_of (48 + d)"

text \<open>\<open>isspace\<close> in the C locale.\<close>

definition is_space :: "char \<Rightarrow> bool" where
  "is_space c \<longleftrightarrow> (of_char c :: nat) = 32 \<or> 9 \<le> (of_char c :: nat) \<and> (of_char c :: nat) \<le> 13"

definition dec_val :: "string \<Rightarrow> nat" where
  "dec_val ds = foldl (\<lambda>n c. n * 10 + digit_val c) 0 ds"

fun show_nat :: "nat \<Rightarrow> string" where
  "show_nat n = (if n < 10 then [digit_char n] else show_nat (n div 10) @ [digit_char (n mod 10)])"

declare show_nat.simps [simp del]

text \<open>\<open>std::to_string\<close> on a signed integer.\<close>

definition to_string :: "int \<Rightarrow> string" where
  "to_string x = (if x < 0 then CHR ''-'' # show_nat (nat (- x)) else show_nat (nat x))"

text \<open>
  \<open>std::stoi\<close>: leading white space, an optional sign, then the longest run of digits; what
  follows is ignored. No digit is \<open>invalid_argument\<close>, a value outside \<open>int\<close> is
  \<open>out_of_range\<close>.
\<close>

definition stoi :: "string \<Rightarrow> exn + int" where
  "stoi s =
     (let s1 = dropWhile is_space s;
          neg = (s1 \<noteq> [] \<and> hd s1 = CHR ''-'');
          s2 = (if s1 \<noteq> [] \<and> (hd s1 = CHR ''-'' \<or> hd s1 = CHR ''+'') then tl s1 else s1);
          ds = takeWhile is_digit s2;
          v = (if neg then - int (dec_val ds) else int (dec_val ds))
      in if ds = [] then Inl (InvalidArgument ''stoi'')
         else if in_int v then Inr v else Inl (OutOfRange ''stoi''))"

text \<open>\<open>std::getline(ss, segment, d)\<close>: \<open>None\<close> once the stream is exhausted.\<close>

definition getline :: "char \<Rightarrow> string \<Rightarrow> (string \<times> string) option" where
  "getline d s =
     (if s = [] then None
      else Some (takeWhile (\<lambda>c. c \<noteq> d) s, drop 1 (dropWhile (\<lambda>c. c \<noteq> d) s)))"

lemma of_char_digit_char [simp]: "d < 10 \<Longrightarrow> (of_char (digit_char d) :: nat) = 48 + d"
  by (simp add: digit_char_def)

lemma is_digit_digit_char [simp]: "d < 10 \<Longrightarrow> is_digit (digit_char d)"
  by (simp add: is_digit_def)

lemma digit_val_digit_char [simp]: "d < 10 \<Longrightarrow> digit_val (digit_char d) = d"
  by (simp add: digit_val_def)

lemma dec_val_Nil [simp]: "dec_val [] = 0"
  by (simp add: dec_val_def)

lemma dec_val_snoc [simp]: "dec_val (ds @ [c]) = dec_val ds * 10 + digit_val c"
  by (simp add: dec_val_def)

lemma show_nat_digits: "\<forall>c \<in> set (show_nat n). is_digit c"
proof (induction n rule: show_nat.induct)
  case (1 n)
  then show ?case by (subst show_nat.simps) auto
qed

lemma show_nat_nonempty [simp]: "show_nat n \<noteq> []"
  by (subst show_nat.simps) simp

lemma dec_val_show_nat [simp]: "dec_val (show_nat n) = n"
proof (induction n rule: show_nat.induct)
  case (1 n)
  show ?case
  proof (cases "n < 10")
    case True
    then show ?thesis by (subst show_nat.simps) (simp add: dec_val_def)
  next
    case False
    then show ?thesis using 1 by (subst show_nat.simps) simp
  qed
qed

lemma takeWhile_show_nat [simp]:
  "(\<forall>c \<in> set r. \<not> is_digit c) \<Longrightarrow> takeWhile is_digit (show_nat n @ r) = show_nat n"
  using show_nat_digits by (cases r) (auto simp: takeWhile_append)

lemma hd_show_nat_digit: "is_digit (hd (show_nat n))"
  using show_nat_digits [of n] by (cases "show_nat n") auto

lemma digit_not_space: "is_digit c \<Longrightarrow> \<not> is_space c"
  by (auto simp: is_digit_def is_space_def)

lemma digit_not_sign: "is_digit c \<Longrightarrow> c \<noteq> CHR ''-'' \<and> c \<noteq> CHR ''+'' \<and> c \<noteq> CHR ''.''"
  by (auto simp: is_digit_def)

text \<open>Parsing what was printed gives the number back, whatever non-digits follow.\<close>

lemma stoi_show_nat:
  assumes "int n \<le> INT_MAX" and "\<forall>c \<in> set r. \<not> is_digit c"
  shows "stoi (show_nat n @ r) = Inr (int n)"
proof -
  obtain c cs where s: "show_nat n = c # cs" by (cases "show_nat n") auto
  have c: "is_digit c" using show_nat_digits [of n] by (simp add: s)
  have tw: "takeWhile is_digit (show_nat n @ r) = show_nat n"
    using assms(2) by simp
  have dw: "dropWhile is_space (show_nat n @ r) = show_nat n @ r"
    using digit_not_space [OF c] by (simp add: s)
  have "in_int (int n)" using assms(1) by (simp add: in_int_def INT_MIN_def)
  then show ?thesis
    using digit_not_sign [OF c] digit_not_space [OF c] tw assms(1)
    unfolding stoi_def dw by (simp add: s Let_def) (simp add: s [symmetric])
qed

lemma stoi_to_string:
  assumes "in_int x"
  shows "stoi (to_string x) = Inr x"
proof (cases "x < 0")
  case True
  have dw: "dropWhile is_space (CHR ''-'' # show_nat (nat (- x))) = CHR ''-'' # show_nat (nat (- x))"
    by (simp add: is_space_def)
  have tw: "takeWhile is_digit (show_nat (nat (- x))) = show_nat (nat (- x))"
    using takeWhile_show_nat [of "[]"] by simp
  show ?thesis
    using True assms unfolding stoi_def to_string_def by (simp add: Let_def dw tw is_space_def)
next
  case False
  then have "int (nat x) \<le> INT_MAX" using assms by (simp add: in_int_def)
  then show ?thesis
    using False stoi_show_nat [of "nat x" "[]"] by (simp add: to_string_def)
qed

lemma stoi_in_int: "stoi s = Inr v \<Longrightarrow> in_int v"
  by (auto simp: stoi_def Let_def split: if_splits)

lemma stoi_errors:
  "stoi s = Inl e \<Longrightarrow> e = InvalidArgument ''stoi'' \<or> e = OutOfRange ''stoi''"
  by (auto simp: stoi_def Let_def split: if_splits)

lemmas stoi_eval = stoi_def is_digit_def is_space_def Let_def dec_val_def digit_val_def
  in_int_def INT_MIN_def INT_MAX_def

section \<open>Association lists as \<open>std::unordered_map\<close>\<close>

abbreviation dkeys :: "('k \<times> 'v) list \<Rightarrow> bool" where
  "dkeys m \<equiv> distinct (map fst m)"

lemma map_of_update [simp, assoc_simps]:
  "map_of (AList.update k v m) = (map_of m)(k \<mapsto> v)"
  by (rule update_conv')

lemma map_of_delete [simp, assoc_simps]: "map_of (AList.delete k m) = (map_of m)(k := None)"
  by (rule delete_conv')

lemma dkeys_update [simp]: "dkeys m \<Longrightarrow> dkeys (AList.update k v m)"
  by (rule distinct_update)

lemma dkeys_delete [simp]: "dkeys m \<Longrightarrow> dkeys (AList.delete k m)"
  by (simp add: distinct_delete)

lemma dkeys_filter [simp]: "dkeys m \<Longrightarrow> dkeys (filter P m)"
  by (induction m) auto

lemma map_of_filter_val:
  "dkeys m \<Longrightarrow>
    map_of (filter (\<lambda>kv. P (snd kv)) m) k =
      (case map_of m k of None \<Rightarrow> None | Some v \<Rightarrow> if P v then Some v else None)"
  by (induction m) (auto simp: map_of_eq_None_iff split: option.splits)

lemma length_delete_hit:
  "dkeys m \<Longrightarrow> map_of m k = Some v \<Longrightarrow> length m = Suc (length (AList.delete k m))"
proof (induction m)
  case Nil
  then show ?case by simp
next
  case (Cons a m)
  show ?case
  proof (cases "fst a = k")
    case True
    then have "k \<notin> fst ` set m" using Cons.prems(1) by auto
    then have "AList.delete k m = m" by (rule delete_id)
    then show ?thesis using True by (cases a) (simp add: AList.delete_eq)
  next
    case False
    then have "length m = Suc (length (AList.delete k m))"
      using Cons by (cases a) auto
    then show ?thesis using False by (cases a) (simp add: AList.delete_eq)
  qed
qed

lemma set_update_cases:
  "(a, b) \<in> set (AList.update k v m) \<Longrightarrow> a = k \<and> b = v \<or> (a, b) \<in> set m"
  by (induction m) (auto split: if_splits)

lemma set_delete_sub: "set (AList.delete k m) \<subseteq> set m"
  by (auto simp: AList.delete_eq)

lemma map_of_Some_keys: "map_of m k = Some v \<Longrightarrow> k \<in> fst ` set m"
  by (metis map_of_eq_None_iff option.distinct(1))

end
