(* ===== verification/Json.thy ===== *)
theory Json
  imports Prelude
begin

text \<open>
  JSON values as \<open>nlohmann::json\<close> (\<open>include/nlohmann/json.hpp\<close>) gives them to the server: an object
  is a \<open>std::map\<close> ordered by key, kept here as a sorted association list; integers are the
  library's 64-bit integers, floats the bits of the C++ \<open>double\<close>. Text parsing, printing and the
  floating-point conversions are parameters (\<open>json_lib\<close>): \<open>json_parse\<close> is \<open>json::parse\<close> on a whole
  string, \<open>json_read\<close> is \<open>operator>>\<close> on a stream with that content.
\<close>

datatype json =
    JNull
  | JBool bool
  | JInt int
  | JFloat "64 word"
  | JStr string
  | JArr "json list"
  | JObj "(string \<times> json) list"

record json_lib =
  json_parse :: "string \<Rightarrow> exn + json"
  json_read :: "string \<Rightarrow> exn + json"
  json_dump :: "json \<Rightarrow> exn + string"
  f64_to_f32 :: "64 word \<Rightarrow> 32 word"
  int_to_f32 :: "int \<Rightarrow> 32 word"
  f64_to_ll :: "64 word \<Rightarrow> int"

section \<open>Queries\<close>

fun is_object :: "json \<Rightarrow> bool" where
  "is_object (JObj _) = True"
| "is_object _ = False"

fun is_array :: "json \<Rightarrow> bool" where
  "is_array (JArr _) = True"
| "is_array _ = False"

fun is_string :: "json \<Rightarrow> bool" where
  "is_string (JStr _) = True"
| "is_string _ = False"

fun is_number_integer :: "json \<Rightarrow> bool" where
  "is_number_integer (JInt _) = True"
| "is_number_integer _ = False"

fun is_number_float :: "json \<Rightarrow> bool" where
  "is_number_float (JFloat _) = True"
| "is_number_float _ = False"

fun jcontains :: "json \<Rightarrow> string \<Rightarrow> bool" where
  "jcontains (JObj kvs) k = (map_of kvs k \<noteq> None)"
| "jcontains _ k = False"

text \<open>
  The const \<open>operator[]\<close>. The library asserts that the key is there; every use in the program is
  guarded by \<open>contains\<close>, so the value at a missing key is never read.
\<close>

fun jidx :: "json \<Rightarrow> string \<Rightarrow> json" where
  "jidx (JObj kvs) k = (case map_of kvs k of None \<Rightarrow> JNull | Some v \<Rightarrow> v)"
| "jidx _ k = JNull"

text \<open>
  \<open>get<int>\<close> and \<open>get<long long>\<close> cast the stored 64-bit number; \<open>get<std::string>\<close> throws on any
  other type.
\<close>

definition int64 :: "int \<Rightarrow> int" where
  "int64 x = (x + 2 ^ 63) mod 2 ^ 64 - 2 ^ 63"

fun get_int :: "json \<Rightarrow> int" where
  "get_int (JInt n) = int32 n"
| "get_int _ = 0"

fun get_string :: "json \<Rightarrow> exn + string" where
  "get_string (JStr s) = Inr s"
| "get_string _ = Inl (JsonException ''type must be string'')"

fun get_longlong :: "json_lib \<Rightarrow> json \<Rightarrow> exn + int" where
  "get_longlong L (JInt n) = Inr (int64 n)"
| "get_longlong L (JFloat d) = Inr (f64_to_ll L d)"
| "get_longlong L (JBool b) = Inr (if b then 1 else 0)"
| "get_longlong L _ = Inl (JsonException ''type must be number'')"

fun get_float :: "json_lib \<Rightarrow> json \<Rightarrow> 32 word" where
  "get_float L (JInt n) = int_to_f32 L n"
| "get_float L (JFloat d) = f64_to_f32 L d"
| "get_float L _ = 0"

text \<open>A string known to be one (after \<open>is_string\<close>).\<close>

fun str_of :: "json \<Rightarrow> string" where
  "str_of (JStr s) = s"
| "str_of _ = []"

section \<open>Updates\<close>

fun obj_put :: "string \<Rightarrow> json \<Rightarrow> (string \<times> json) list \<Rightarrow> (string \<times> json) list" where
  "obj_put k v [] = [(k, v)]"
| "obj_put k v ((a, b) # ps) =
     (if k < a then (k, v) # (a, b) # ps
      else if k = a then (k, v) # ps
      else (a, b) # obj_put k v ps)"

text \<open>\<open>j[k] = v\<close>: a null becomes an object, anything else that is no object throws.\<close>

fun jput :: "string \<Rightarrow> json \<Rightarrow> json \<Rightarrow> exn + json" where
  "jput k v JNull = Inr (JObj [(k, v)])"
| "jput k v (JObj kvs) = Inr (JObj (obj_put k v kvs))"
| "jput k v _ = Inl (JsonException ''cannot use operator[] with a string argument'')"

definition json_object :: json where "json_object = JObj []"

lemma map_of_obj_put [simp, assoc_simps]: "map_of (obj_put k v ps) = (map_of ps)(k \<mapsto> v)"
  by (induction ps) (auto simp: fun_eq_iff)

lemma set_keys_obj_put: "fst ` set (obj_put k v ps) = insert k (fst ` set ps)"
  by (induction k v ps rule: obj_put.induct) (auto simp: insert_commute simp del: set_map)

lemma obj_put_sorted: "sorted_wrt (<) (map fst ps) \<Longrightarrow> sorted_wrt (<) (map fst (obj_put k v ps))"
proof (induction ps)
  case Nil
  then show ?case by simp
next
  case (Cons p ps)
  obtain a b where p: "p = (a, b)" by (cases p)
  show ?case
    using Cons set_keys_obj_put [of k v ps] unfolding p
    by (auto simp: not_less le_less dest: less_trans)
qed

lemma jidx_obj_put [simp]:
  "jidx (JObj (obj_put k v ps)) a = (if a = k then v else jidx (JObj ps) a)"
  by simp

lemma jcontains_obj_put [simp]:
  "jcontains (JObj (obj_put k v ps)) a \<longleftrightarrow> a = k \<or> jcontains (JObj ps) a"
  by simp

lemma jcontains_is_object: "jcontains j k \<Longrightarrow> is_object j"
  by (cases j) auto

lemma is_string_str_of: "is_string j \<Longrightarrow> j = JStr (str_of j)"
  by (cases j) auto

lemma get_int_in_int [simp]: "in_int (get_int j)"
  by (cases j) (simp_all, simp_all add: in_int_def INT_MIN_def INT_MAX_def)

end
