(* ===== verification/Data.thy ===== *)
theory Data
  imports Json
begin

text \<open>
  The plain data of \<open>include/data/DataStructs.hpp\<close>. A socket is the identity of the
  \<open>tcp::socket\<close> object a \<open>shared_ptr\<close> points to, \<open>None\<close> the null pointer. Field names carry a
  prefix naming the struct.
\<close>

type_synonym sock = nat

record TimestampStruct =
  ts_serverRecvMs :: int
  ts_serverSendMs :: int
  ts_clientSendMsEcho :: int
  ts_requestId :: string

record PositionStruct =
  pos_positionX :: "32 word"
  pos_positionY :: "32 word"
  pos_positionZ :: "32 word"
  pos_needDBUpdate :: bool

record EquipmentPreviewItemStruct =
  eq_slotId :: int
  eq_itemSlug :: string

record CharacterDataStruct =
  ch_characterId :: int
  ch_characterLevel :: int
  ch_characterExperiencePoints :: int
  ch_characterCurrentHealth :: int
  ch_characterCurrentMana :: int
  ch_characterName :: string
  ch_characterClass :: string
  ch_characterRace :: string
  ch_characterGender :: string
  ch_characterPosition :: PositionStruct
  ch_needDBUpdate :: bool
  ch_isOnline :: bool
  ch_equipment :: "EquipmentPreviewItemStruct list"

record ClientDataStruct =
  cd_clientId :: int
  cd_login :: string
  cd_password :: string
  cd_hash :: string
  cd_role :: int
  cd_clientVersion :: string
  cd_socket :: "sock option"
  cd_characterData :: CharacterDataStruct
  cd_needDBUpdate :: bool
  cd_lastSeenMs :: int

record MessageStruct =
  msg_status :: string
  msg_message :: string

record RegistrationDataStruct =
  reg_login :: string
  reg_password :: string
  reg_email :: string
  reg_registrationIp :: string
  reg_clientVersion :: string
  reg_socket :: "sock option"

text \<open>An entry of the character-creation lists; the handlers build the JSON objects directly.\<close>

record CreationOptionStruct =
  co_id :: int
  co_name :: string
  co_slug :: string
  co_label :: string
  co_description :: string

text \<open>The default member initialisers.\<close>

definition newTimestamp :: TimestampStruct where
  "newTimestamp = \<lparr>ts_serverRecvMs = 0, ts_serverSendMs = 0, ts_clientSendMsEcho = 0,
     ts_requestId = []\<rparr>"

definition newPosition :: PositionStruct where
  "newPosition = \<lparr>pos_positionX = 0, pos_positionY = 0, pos_positionZ = 0,
     pos_needDBUpdate = False\<rparr>"

definition newCharacter :: CharacterDataStruct where
  "newCharacter = \<lparr>ch_characterId = 0, ch_characterLevel = 0, ch_characterExperiencePoints = 0,
     ch_characterCurrentHealth = 0, ch_characterCurrentMana = 0, ch_characterName = [],
     ch_characterClass = [], ch_characterRace = [], ch_characterGender = [],
     ch_characterPosition = newPosition, ch_needDBUpdate = False, ch_isOnline = False,
     ch_equipment = []\<rparr>"

definition newClient :: ClientDataStruct where
  "newClient = \<lparr>cd_clientId = 0, cd_login = [], cd_password = [], cd_hash = [], cd_role = 0,
     cd_clientVersion = [], cd_socket = None, cd_characterData = newCharacter,
     cd_needDBUpdate = False, cd_lastSeenMs = 0\<rparr>"

definition newMessage :: MessageStruct where
  "newMessage = \<lparr>msg_status = [], msg_message = []\<rparr>"

definition newRegistration :: RegistrationDataStruct where
  "newRegistration = \<lparr>reg_login = [], reg_password = [], reg_email = [],
     reg_registrationIp = [], reg_clientVersion = [], reg_socket = None\<rparr>"

definition newCreationOption :: CreationOptionStruct where
  "newCreationOption = \<lparr>co_id = 0, co_name = [], co_slug = [], co_label = [], co_description = []\<rparr>"

lemmas struct_defaults = newTimestamp_def newPosition_def newCharacter_def newClient_def
  newMessage_def newRegistration_def newCreationOption_def

end
