(* ===== verification/Framing.thy ===== *)
theory Framing
  imports Prelude
begin

text \<open>
  The v2 wire format (\<open>include/utils/ProtocolLimits.hpp\<close>, \<open>include/utils/WireFraming.hpp\<close>) and the
  extraction loop of \<open>NetworkManager::extractV2Messages\<close>: frames are \<open>[u32 LE length][JSON bytes]\<close>.
  The lemmas show that packing and extraction are inverse, that the loop conserves bytes whatever
  the chunking, and how many frames one call can deliver.
\<close>

unbundle bit_operations_syntax

type_synonym u32 = "32 word"

section \<open>Protocol limits\<close>

definition kMaxMessageBytes :: nat where "kMaxMessageBytes = 8 * 1024"
definition kMaxAccumulatedBytes :: nat where "kMaxAccumulatedBytes = 64 * 1024"
definition kMaxFrameBytes :: nat where "kMaxFrameBytes = 4 * 1024 * 1024"
definition kMaxAccumulatedBytesV2 :: nat where "kMaxAccumulatedBytesV2 = kMaxFrameBytes + 64 * 1024"
definition kFramingV2 :: int where "kFramingV2 = 2"
definition kReadChunkBytes :: nat where "kReadChunkBytes = 8 * 1024"
definition kErrOversize :: string where "kErrOversize = ''ERR_OVERSIZE''"
definition kErrMalformed :: string where "kErrMalformed = ''ERR_MALFORMED''"
definition kProtocolVersion :: string where "kProtocolVersion = ''1.0''"
definition MAX_MESSAGES_PER_READ :: nat where "MAX_MESSAGES_PER_READ = 10"

section \<open>Packing and the length prefix\<close>

definition lenBytes :: "u32 \<Rightarrow> string" where
  "lenBytes n =
     [char_of (unat (n AND 0xFF)),
      char_of (unat (drop_bit 8 n AND 0xFF)),
      char_of (unat (drop_bit 16 n AND 0xFF)),
      char_of (unat (drop_bit 24 n AND 0xFF))]"

definition packFramedMessage :: "string \<Rightarrow> string" where
  "packFramedMessage message =
     (if length message > kMaxFrameBytes then []
      else lenBytes (word_of_nat (length message)) @ message)"

definition byteWord :: "char \<Rightarrow> u32" where
  "byteWord c = word_of_nat (of_char c)"

text \<open>The prefix as the reader computes it from the first four bytes.\<close>

definition frameLen :: "string \<Rightarrow> u32" where
  "frameLen b =
     byteWord (b ! 0) OR push_bit 8 (byteWord (b ! 1)) OR push_bit 16 (byteWord (b ! 2))
       OR push_bit 24 (byteWord (b ! 3))"

section \<open>The extraction loop\<close>

text \<open>
  \<open>proc\<close> is \<open>processMessage\<close> on the rest of the state. The result is the offending length when the
  prefix is over the cap, the bytes left, and the state.
\<close>

function (sequential) extractLoop ::
  "(string \<Rightarrow> 's \<Rightarrow> 's) \<Rightarrow> nat \<Rightarrow> string \<Rightarrow> 's \<Rightarrow> u32 option \<times> string \<times> 's" where
  "extractLoop proc processed acc s =
     (if 4 \<le> length acc \<and> processed < MAX_MESSAGES_PER_READ then
        (let n = frameLen acc in
         if unat n > kMaxFrameBytes then (Some n, acc, s)
         else if length acc < unat (4 + n) then (None, acc, s)
         else extractLoop proc (Suc processed) (drop (unat (4 + n)) acc)
                (proc (take (unat n) (drop 4 acc)) s))
      else (None, acc, s))"
  by pat_completeness auto
termination
  by (relation "measure (\<lambda>(proc, processed, acc, s). MAX_MESSAGES_PER_READ - processed)") auto

declare extractLoop.simps [simp del]

section \<open>Round trip of one frame\<close>

lemma and_FF: "(x :: u32) AND 0xFF = take_bit 8 x"
proof -
  have "(0xFF :: u32) = mask 8" by (simp add: mask_eq_exp_minus_1)
  then show ?thesis by (simp add: take_bit_eq_mask)
qed

lemma byteWord_char_of: "byteWord (char_of (unat (take_bit 8 (x :: u32)))) = take_bit 8 x"
proof -
  have "unat (take_bit 8 x) < 256"
    using take_bit_nat_less_exp [of 8 "unat x"] by (simp add: unsigned_take_bit_eq)
  then show ?thesis
    by (simp add: byteWord_def)
qed

lemma join_bytes:
  "take_bit 8 (x :: u32) OR push_bit 8 (take_bit 8 (drop_bit 8 x))
     OR push_bit 16 (take_bit 8 (drop_bit 16 x)) OR push_bit 24 (take_bit 8 (drop_bit 24 x)) = x"
proof (rule bit_eqI)
  fix i assume "possible_bit TYPE(32 word) i"
  then have "i < 32" by simp
  then consider "i < 8" | "8 \<le> i" "i < 16" | "16 \<le> i" "i < 24" | "24 \<le> i" "i < 32"
    by fastforce
  then show "bit (take_bit 8 x OR push_bit 8 (take_bit 8 (drop_bit 8 x))
     OR push_bit 16 (take_bit 8 (drop_bit 16 x)) OR push_bit 24 (take_bit 8 (drop_bit 24 x))) i
     = bit x i"
    by cases (auto simp: bit_simps)
qed

lemma length_lenBytes [simp]: "length (lenBytes n) = 4"
  by (simp add: lenBytes_def)

lemma frameLen_lenBytes [simp]: "frameLen (lenBytes n @ r) = n"
  by (simp add: frameLen_def lenBytes_def and_FF byteWord_char_of numeral_2_eq_2
      numeral_3_eq_3 join_bytes)

lemma unat_frame_size:
  assumes "k \<le> kMaxFrameBytes"
  shows "unat (word_of_nat k :: u32) = k" and "unat (4 + word_of_nat k :: u32) = 4 + k"
proof -
  have k: "k \<le> 4194304" using assms by (simp add: kMaxFrameBytes_def)
  then show *: "unat (word_of_nat k :: u32) = k"
    by (simp add: unat_of_nat take_bit_nat_eq_self)
  have "unat (4 + word_of_nat k :: u32) = unat (4 :: u32) + unat (word_of_nat k :: u32)"
    using k * by (subst unat_add_lem [THEN iffD1]) (simp_all add: * )
  then show "unat (4 + word_of_nat k :: u32) = 4 + k" by (simp add: * )
qed

lemma unat_frame_add: "unat (n :: u32) \<le> kMaxFrameBytes \<Longrightarrow> unat (4 + n) = 4 + unat n"
  using unat_frame_size(2) [of "unat n"] by simp

lemma pack_length:
  "length m \<le> kMaxFrameBytes \<Longrightarrow> length (packFramedMessage m) = 4 + length m"
  by (simp add: packFramedMessage_def)

lemma pack_empty_iff: "packFramedMessage m = [] \<longleftrightarrow> kMaxFrameBytes < length m"
  by (auto simp: packFramedMessage_def lenBytes_def)

lemma frameLen_pack:
  "length m \<le> kMaxFrameBytes \<Longrightarrow> frameLen (packFramedMessage m @ r) = word_of_nat (length m)"
  by (simp add: packFramedMessage_def)

text \<open>What any complete frame at the head of a buffer looks like: it is a packed message.\<close>

lemma unat_byteWord: "unat (byteWord c) = of_char c"
proof -
  have "(of_char c :: nat) < 256" by (rule nat_of_char_less_256)
  then have "(of_char c :: nat) < 4294967296" by linarith
  then show ?thesis by (simp add: byteWord_def unat_of_nat take_bit_nat_eq_self)
qed

lemma byteWord_bound: "unat (byteWord c) < 256"
  by (simp add: unat_byteWord nat_of_char_less_256)

lemma bit_byteWord: "bit (byteWord c) i \<Longrightarrow> i < 8"
proof -
  assume b: "bit (byteWord c) i"
  have "take_bit 8 (byteWord c) = byteWord c"
  proof (rule word_unat_eq_iff [THEN iffD2])
    show "unat (take_bit 8 (byteWord c)) = unat (byteWord c)"
      using byteWord_bound [of c] by (simp add: unsigned_take_bit_eq take_bit_nat_eq_self)
  qed
  then show ?thesis using b by (metis bit_take_bit_iff)
qed

lemma char_of_byteWord [simp]: "char_of (unat (byteWord c)) = c"
  by (simp add: unat_byteWord)

lemma lenBytes_frameLen: "lenBytes (frameLen [a, b, c, d]) = [a, b, c, d]"
proof -
  let ?n = "frameLen [a, b, c, d]"
  have n: "?n = byteWord a OR push_bit 8 (byteWord b) OR push_bit 16 (byteWord c)
      OR push_bit 24 (byteWord d)"
    by (simp add: frameLen_def numeral_2_eq_2 numeral_3_eq_3)
  have "take_bit 8 ?n = byteWord a" "take_bit 8 (drop_bit 8 ?n) = byteWord b"
    "take_bit 8 (drop_bit 16 ?n) = byteWord c" "take_bit 8 (drop_bit 24 ?n) = byteWord d"
    unfolding n by (rule bit_eqI; auto simp: bit_simps dest: bit_byteWord bit_imp_le_length)+
  then show ?thesis by (simp add: lenBytes_def and_FF)
qed

lemma frame_at_head:
  assumes "4 \<le> length acc" and "unat (frameLen acc) \<le> kMaxFrameBytes"
    and "4 + unat (frameLen acc) \<le> length acc"
  shows "acc = packFramedMessage (take (unat (frameLen acc)) (drop 4 acc))
                 @ drop (4 + unat (frameLen acc)) acc"
proof -
  obtain a b c d r where acc: "acc = a # b # c # d # r"
    using assms(1) by (auto simp: numeral_eq_Suc Suc_le_length_iff)
  have fl: "frameLen acc = frameLen [a, b, c, d]"
    by (simp add: acc frameLen_def numeral_2_eq_2 numeral_3_eq_3)
  let ?m = "take (unat (frameLen acc)) (drop 4 acc)"
  have len: "length ?m = unat (frameLen acc)" using assms(3) by simp
  then have "packFramedMessage ?m = lenBytes (frameLen acc) @ ?m"
    using assms(2) by (simp add: packFramedMessage_def)
  also have "lenBytes (frameLen acc) = take 4 acc"
    by (simp add: fl lenBytes_frameLen) (simp add: acc)
  finally have p: "packFramedMessage ?m = take 4 acc @ ?m" .
  have "packFramedMessage ?m @ drop (4 + unat (frameLen acc)) acc
      = (take 4 acc @ ?m) @ drop (unat (frameLen acc)) (drop 4 acc)"
    unfolding p by (simp add: add.commute)
  also have "\<dots> = acc"
    unfolding append.assoc append_take_drop_id ..
  finally show ?thesis ..
qed

section \<open>The stream\<close>

abbreviation packAll :: "string list \<Rightarrow> string" where
  "packAll ms \<equiv> concat (map packFramedMessage ms)"

abbreviation sendable :: "string list \<Rightarrow> bool" where
  "sendable ms \<equiv> (\<forall>m \<in> set ms. length m \<le> kMaxFrameBytes)"

text \<open>A packed stream has one reading only.\<close>

lemma packAll_prefix_unique:
  assumes "sendable xs" and "sendable ys" and "packAll xs @ r = packAll ys"
  shows "\<exists>zs. ys = xs @ zs \<and> r = packAll zs"
  using assms
proof (induction xs arbitrary: ys)
  case Nil
  then show ?case by auto
next
  case (Cons x xs)
  then obtain y ys' where ys: "ys = y # ys'"
    by (cases ys) (auto simp: pack_empty_iff)
  have x: "length x \<le> kMaxFrameBytes" and y: "length y \<le> kMaxFrameBytes"
    using Cons.prems ys by auto
  have eq: "packFramedMessage x @ packAll xs @ r = packFramedMessage y @ packAll ys'"
    using Cons.prems(3) ys by simp
  have "word_of_nat (length x) = (word_of_nat (length y) :: u32)"
    using frameLen_pack [OF x] frameLen_pack [OF y] eq by metis
  then have "length x = length y"
    by (metis unat_frame_size(1) x y)
  then have "packFramedMessage x = packFramedMessage y" and "packAll xs @ r = packAll ys'"
    using eq by (simp_all add: pack_length x y append_eq_append_conv)
  moreover from this(1) have "x = y"
    using x y by (simp add: packFramedMessage_def append_eq_append_conv)
  ultimately show ?case
    using Cons.IH [of ys'] Cons.prems(1,2) ys by auto
qed

text \<open>
  Conservation: whatever the bytes, the loop processes some messages in order and leaves exactly
  the bytes that follow their frames.
\<close>

lemma extractLoop_conserves:
  "\<exists>ms. acc = packAll ms @ fst (snd (extractLoop proc k acc s)) \<and> sendable ms \<and>
        length ms \<le> MAX_MESSAGES_PER_READ - k \<and>
        snd (snd (extractLoop proc k acc s)) = fold proc ms s"
proof (induction proc k acc s rule: extractLoop.induct)
  case (1 proc k acc s)
  let ?n = "frameLen acc"
  show ?case
  proof (cases "4 \<le> length acc \<and> k < MAX_MESSAGES_PER_READ \<and> unat ?n \<le> kMaxFrameBytes
                \<and> 4 + unat ?n \<le> length acc")
    case False
    then have "snd (extractLoop proc k acc s) = (acc, s)"
      by (subst extractLoop.simps) (auto simp: Let_def unat_frame_add not_less not_le)
    then show ?thesis by (intro exI [of _ "[]"]) simp
  next
    case True
    let ?m = "take (unat ?n) (drop 4 acc)"
    have step: "extractLoop proc k acc s =
        extractLoop proc (Suc k) (drop (unat (4 + ?n)) acc) (proc ?m s)"
      using True by (subst extractLoop.simps) (simp add: Let_def unat_frame_add)
    obtain ms where ms: "drop (unat (4 + ?n)) acc = packAll ms @
          fst (snd (extractLoop proc (Suc k) (drop (unat (4 + ?n)) acc) (proc ?m s)))"
        "sendable ms" "length ms \<le> MAX_MESSAGES_PER_READ - Suc k"
        "snd (snd (extractLoop proc (Suc k) (drop (unat (4 + ?n)) acc) (proc ?m s)))
           = fold proc ms (proc ?m s)"
      using 1 [OF _ refl] True by (auto simp: unat_frame_add not_less)
    have "acc = packFramedMessage ?m @ drop (unat (4 + ?n)) acc"
      using frame_at_head [of acc] True by (simp add: unat_frame_add)
    then have "acc = packAll (?m # ms) @ fst (snd (extractLoop proc k acc s))"
      using ms(1) by (simp add: step)
    moreover have "sendable (?m # ms)"
      using ms(2) True by auto
    moreover have "length (?m # ms) \<le> MAX_MESSAGES_PER_READ - k"
      using ms(3) conjunct1 [OF conjunct2 [OF True]] unfolding list.size by linarith
    moreover have "snd (snd (extractLoop proc k acc s)) = fold proc (?m # ms) s"
      using ms(4) step by simp
    ultimately show ?thesis by blast
  qed
qed

text \<open>A buffer that starts with whole frames: they are all delivered while the count lasts.\<close>

lemma extractLoop_step:
  assumes "length m \<le> kMaxFrameBytes" and "k < MAX_MESSAGES_PER_READ"
  shows "extractLoop proc k (packFramedMessage m @ r) s = extractLoop proc (Suc k) r (proc m s)"
proof -
  let ?acc = "packFramedMessage m @ r"
  have n: "frameLen ?acc = word_of_nat (length m)"
    by (rule frameLen_pack) (rule assms(1))
  have u: "unat (frameLen ?acc) = length m" "unat (4 + frameLen ?acc) = 4 + length m"
    using unat_frame_size [OF assms(1)] by (simp_all add: n)
  have "take (length m) (drop 4 ?acc) = m" "drop (4 + length m) ?acc = r"
    using assms(1) by (simp_all add: packFramedMessage_def)
  then show ?thesis
    using assms u by (subst extractLoop.simps) (simp add: Let_def pack_length)
qed

lemma extractLoop_packAll:
  assumes "sendable ms" and "k + length ms \<le> MAX_MESSAGES_PER_READ"
  shows "extractLoop proc k (packAll ms @ r) s
           = extractLoop proc (k + length ms) r (fold proc ms s)"
  using assms
proof (induction ms arbitrary: k s)
  case Nil
  then show ?case by simp
next
  case (Cons m ms)
  have "extractLoop proc k (packFramedMessage m @ (packAll ms @ r)) s
      = extractLoop proc (Suc k) (packAll ms @ r) (proc m s)"
    by (rule extractLoop_step) (use Cons.prems in auto)
  then show ?case using Cons.IH [of "Suc k" "proc m s"] Cons.prems by simp
qed

lemma extractLoop_short: "length acc < 4 \<Longrightarrow> extractLoop proc k acc s = (None, acc, s)"
  by (subst extractLoop.simps) simp

lemma extractLoop_limit: "MAX_MESSAGES_PER_READ \<le> k \<Longrightarrow> extractLoop proc k acc s = (None, acc, s)"
  by (subst extractLoop.simps) simp

lemma extractLoop_length: "length (fst (snd (extractLoop proc k acc s))) \<le> length acc"
proof -
  obtain ms where "acc = packAll ms @ fst (snd (extractLoop proc k acc s))"
    using extractLoop_conserves [of acc proc k s] by blast
  then show ?thesis by (metis le_add2 length_append)
qed

text \<open>Why the loop stopped: too few bytes, a partial frame, the count, or an over-cap prefix.\<close>

lemma extractLoop_stops:
  "case extractLoop proc k acc s of
     (Some n, rest, _) \<Rightarrow> 4 \<le> length rest \<and> n = frameLen rest \<and> kMaxFrameBytes < unat n
   | (None, rest, _) \<Rightarrow>
       length rest < 4 \<or> length rest < 4 + unat (frameLen rest) \<or>
       length acc \<ge> length rest + 4 * (MAX_MESSAGES_PER_READ - k)"
proof (induction proc k acc s rule: extractLoop.induct)
  case (1 proc k acc s)
  let ?n = "frameLen acc"
  show ?case
  proof (cases "4 \<le> length acc \<and> k < MAX_MESSAGES_PER_READ \<and> unat ?n \<le> kMaxFrameBytes
                \<and> 4 + unat ?n \<le> length acc")
    case False
    then show ?thesis
      by (subst extractLoop.simps) (auto simp: Let_def unat_frame_add not_less not_le)
  next
    case True
    let ?m = "take (unat ?n) (drop 4 acc)"
    have step: "extractLoop proc k acc s =
        extractLoop proc (Suc k) (drop (4 + unat ?n) acc) (proc ?m s)"
      using True by (subst extractLoop.simps) (simp add: Let_def unat_frame_add)
    let ?L = "extractLoop proc (Suc k) (drop (4 + unat ?n) acc) (proc ?m s)"
    obtain r rest t where L: "?L = (r, rest, t)" by (cases ?L) auto
    have u: "unat (4 + ?n) = 4 + unat ?n" using True by (simp add: unat_frame_add)
    have IH: "case (r, rest, t) of
        (Some n, rest, _) \<Rightarrow> 4 \<le> length rest \<and> n = frameLen rest \<and> kMaxFrameBytes < unat n
      | (None, rest, _) \<Rightarrow> length rest < 4 \<or> length rest < 4 + unat (frameLen rest) \<or>
          length (drop (4 + unat ?n) acc) \<ge> length rest + 4 * (MAX_MESSAGES_PER_READ - Suc k)"
      using 1 [OF _ refl] True unfolding u L by (simp only: not_less)
    show ?thesis
    proof (cases r)
      case (Some n)
      then show ?thesis using IH unfolding step L by auto
    next
      case None
      have "length acc \<ge> length rest + 4 * (MAX_MESSAGES_PER_READ - k)"
        if "length (drop (4 + unat ?n) acc) \<ge> length rest + 4 * (MAX_MESSAGES_PER_READ - Suc k)"
        using that True unfolding length_drop by linarith
      then show ?thesis using IH None unfolding step L by auto
    qed
  qed
qed

end
