(* ===== verification/Parser.thy ===== *)
theory Parser
  imports Data Framing
begin

text \<open>
  \<open>JSONParser\<close> (\<open>src/utils/JSONParser.cpp\<close>): typed extraction of the fields of a request. Each field
  is taken only when its section is an object that contains it with the right type, and keeps its
  default otherwise, so the extractors are total on every JSON value. The overloads on a byte
  buffer parse the text first and may throw.
\<close>

section \<open>The guards\<close>

text \<open>
  \<open>jsonData.contains(sec) && jsonData[sec].is_object() && jsonData[sec].contains(key) &&
  jsonData[sec][key].is_\<dots>()\<close>.
\<close>

definition hasField :: "json \<Rightarrow> string \<Rightarrow> string \<Rightarrow> (json \<Rightarrow> bool) \<Rightarrow> bool" where
  "hasField jsonData sec key ty \<longleftrightarrow>
     jcontains jsonData sec \<and> is_object (jidx jsonData sec) \<and>
     jcontains (jidx jsonData sec) key \<and> ty (jidx (jidx jsonData sec) key)"

abbreviation fieldOf :: "json \<Rightarrow> string \<Rightarrow> string \<Rightarrow> json" where
  "fieldOf jsonData sec key \<equiv> jidx (jidx jsonData sec) key"

definition is_number :: "json \<Rightarrow> bool" where
  "is_number v \<longleftrightarrow> is_number_float v \<or> is_number_integer v"

section \<open>The extractors\<close>

definition parseCharacterData :: "json \<Rightarrow> CharacterDataStruct" where
  "parseCharacterData jsonData =
     (let c = newCharacter;
          c = (if hasField jsonData ''body'' ''characterId'' is_number_integer
               then c\<lparr>ch_characterId := get_int (fieldOf jsonData ''body'' ''characterId'')\<rparr> else c);
          c = (if hasField jsonData ''body'' ''characterLevel'' is_number_integer
               then c\<lparr>ch_characterLevel := get_int (fieldOf jsonData ''body'' ''characterLevel'')\<rparr>
               else c);
          c = (if hasField jsonData ''body'' ''characterExp'' is_number_integer
               then c\<lparr>ch_characterExperiencePoints :=
                        get_int (fieldOf jsonData ''body'' ''characterExp'')\<rparr> else c);
          c = (if hasField jsonData ''body'' ''characterCurrentHealth'' is_number_integer
               then c\<lparr>ch_characterCurrentHealth :=
                        get_int (fieldOf jsonData ''body'' ''characterCurrentHealth'')\<rparr> else c);
          c = (if hasField jsonData ''body'' ''characterCurrentMana'' is_number_integer
               then c\<lparr>ch_characterCurrentMana :=
                        get_int (fieldOf jsonData ''body'' ''characterCurrentMana'')\<rparr> else c);
          c = (if hasField jsonData ''body'' ''characterName'' is_string
               then c\<lparr>ch_characterName := str_of (fieldOf jsonData ''body'' ''characterName'')\<rparr>
               else c);
          c = (if hasField jsonData ''body'' ''characterClass'' is_string
               then c\<lparr>ch_characterClass := str_of (fieldOf jsonData ''body'' ''characterClass'')\<rparr>
               else c);
          c = (if hasField jsonData ''body'' ''characterRace'' is_string
               then c\<lparr>ch_characterRace := str_of (fieldOf jsonData ''body'' ''characterRace'')\<rparr>
               else c);
          c = (if hasField jsonData ''body'' ''characterGender'' is_string
               then c\<lparr>ch_characterGender := str_of (fieldOf jsonData ''body'' ''characterGender'')\<rparr>
               else c)
      in c)"

definition parsePositionData :: "json_lib \<Rightarrow> json \<Rightarrow> PositionStruct" where
  "parsePositionData L jsonData =
     (let p = newPosition;
          p = (if hasField jsonData ''body'' ''characterPosX'' is_number
               then p\<lparr>pos_positionX := get_float L (fieldOf jsonData ''body'' ''characterPosX'')\<rparr>
               else p);
          p = (if hasField jsonData ''body'' ''characterPosY'' is_number
               then p\<lparr>pos_positionY := get_float L (fieldOf jsonData ''body'' ''characterPosY'')\<rparr>
               else p);
          p = (if hasField jsonData ''body'' ''characterPosZ'' is_number
               then p\<lparr>pos_positionZ := get_float L (fieldOf jsonData ''body'' ''characterPosZ'')\<rparr>
               else p)
      in p)"

definition parseClientData :: "json \<Rightarrow> ClientDataStruct" where
  "parseClientData jsonData =
     (let c = newClient;
          c = (if hasField jsonData ''header'' ''clientId'' is_number_integer
               then c\<lparr>cd_clientId := get_int (fieldOf jsonData ''header'' ''clientId'')\<rparr> else c);
          c = (if hasField jsonData ''header'' ''hash'' is_string
               then c\<lparr>cd_hash := str_of (fieldOf jsonData ''header'' ''hash'')\<rparr> else c);
          c = (if hasField jsonData ''body'' ''login'' is_string
               then c\<lparr>cd_login := str_of (fieldOf jsonData ''body'' ''login'')\<rparr> else c);
          c = (if hasField jsonData ''body'' ''password'' is_string
               then c\<lparr>cd_password := str_of (fieldOf jsonData ''body'' ''password'')\<rparr> else c);
          c = (if hasField jsonData ''body'' ''clientVersion'' is_string
               then c\<lparr>cd_clientVersion := str_of (fieldOf jsonData ''body'' ''clientVersion'')\<rparr>
               else c)
      in c)"

definition parseCharactersList :: "json \<Rightarrow> json" where
  "parseCharactersList jsonData =
     (if hasField jsonData ''body'' ''charactersList'' is_array
      then fieldOf jsonData ''body'' ''charactersList'' else JNull)"

definition parseMessage :: "json \<Rightarrow> MessageStruct" where
  "parseMessage jsonData =
     (let m = newMessage;
          m = (if hasField jsonData ''header'' ''status'' is_string
               then m\<lparr>msg_status := str_of (fieldOf jsonData ''header'' ''status'')\<rparr> else m);
          m = (if hasField jsonData ''header'' ''message'' is_string
               then m\<lparr>msg_message := str_of (fieldOf jsonData ''header'' ''message'')\<rparr> else m)
      in m)"

definition parseEventType :: "json \<Rightarrow> string" where
  "parseEventType jsonData =
     (if hasField jsonData ''header'' ''eventType'' is_string
      then str_of (fieldOf jsonData ''header'' ''eventType'') else [])"

section \<open>The overloads on a receive buffer\<close>

definition parseBuffer :: "json_lib \<Rightarrow> (json \<Rightarrow> 'a) \<Rightarrow> string \<Rightarrow> nat \<Rightarrow> exn + 'a" where
  "parseBuffer L f dataBuffer bytes_transferred =
     map_sum id f (json_parse L (take bytes_transferred dataBuffer))"

definition parseCharacterDataBuf :: "json_lib \<Rightarrow> string \<Rightarrow> nat \<Rightarrow> exn + CharacterDataStruct" where
  "parseCharacterDataBuf L = parseBuffer L parseCharacterData"

definition parsePositionDataBuf :: "json_lib \<Rightarrow> string \<Rightarrow> nat \<Rightarrow> exn + PositionStruct" where
  "parsePositionDataBuf L = parseBuffer L (parsePositionData L)"

definition parseClientDataBuf :: "json_lib \<Rightarrow> string \<Rightarrow> nat \<Rightarrow> exn + ClientDataStruct" where
  "parseClientDataBuf L = parseBuffer L parseClientData"

definition parseCharactersListBuf :: "json_lib \<Rightarrow> string \<Rightarrow> nat \<Rightarrow> exn + json" where
  "parseCharactersListBuf L = parseBuffer L parseCharactersList"

definition parseMessageBuf :: "json_lib \<Rightarrow> string \<Rightarrow> nat \<Rightarrow> exn + MessageStruct" where
  "parseMessageBuf L = parseBuffer L parseMessage"

definition parseEventTypeBuf :: "json_lib \<Rightarrow> string \<Rightarrow> nat \<Rightarrow> exn + string" where
  "parseEventTypeBuf L = parseBuffer L parseEventType"

section \<open>What the extractors promise\<close>

text \<open>A field of the wrong type or in a section that is no object is as if absent.\<close>

lemma hasField_Some:
  "hasField j sec key ty \<longleftrightarrow>
     (\<exists>top sub v. j = JObj top \<and> map_of top sec = Some (JObj sub) \<and> map_of sub key = Some v \<and> ty v)"
proof (cases j)
  case (JObj top)
  show ?thesis
  proof (cases "map_of top sec")
    case (Some s)
    then show ?thesis using JObj by (cases s) (auto simp: hasField_def split: option.splits)
  qed (simp add: JObj hasField_def)
qed (simp_all add: hasField_def)

lemma parseClientData_fields:
  "cd_clientId (parseClientData j) =
     (if hasField j ''header'' ''clientId'' is_number_integer
      then get_int (fieldOf j ''header'' ''clientId'') else 0)"
  "cd_hash (parseClientData j) =
     (if hasField j ''header'' ''hash'' is_string then str_of (fieldOf j ''header'' ''hash'') else [])"
  "cd_login (parseClientData j) =
     (if hasField j ''body'' ''login'' is_string then str_of (fieldOf j ''body'' ''login'') else [])"
  "cd_password (parseClientData j) =
     (if hasField j ''body'' ''password'' is_string then str_of (fieldOf j ''body'' ''password'')
      else [])"
  "cd_clientVersion (parseClientData j) =
     (if hasField j ''body'' ''clientVersion'' is_string
      then str_of (fieldOf j ''body'' ''clientVersion'') else [])"
  "cd_socket (parseClientData j) = None"
  "cd_role (parseClientData j) = 0"
  "cd_characterData (parseClientData j) = newCharacter"
  by (simp_all add: parseClientData_def newClient_def Let_def)

lemma parseClientData_id_in_int [simp]: "in_int (cd_clientId (parseClientData j))"
  by (simp add: parseClientData_fields in_int_def INT_MIN_def INT_MAX_def)
     (use get_int_in_int in \<open>auto simp: in_int_def INT_MIN_def INT_MAX_def\<close>)

lemma parseCharacterData_id:
  "ch_characterId (parseCharacterData j) =
     (if hasField j ''body'' ''characterId'' is_number_integer
      then get_int (fieldOf j ''body'' ''characterId'') else 0)"
  by (simp add: parseCharacterData_def newCharacter_def Let_def)

lemma parseCharacterData_strings:
  "ch_characterName (parseCharacterData j) =
     (if hasField j ''body'' ''characterName'' is_string
      then str_of (fieldOf j ''body'' ''characterName'') else [])"
  "ch_characterClass (parseCharacterData j) =
     (if hasField j ''body'' ''characterClass'' is_string
      then str_of (fieldOf j ''body'' ''characterClass'') else [])"
  "ch_characterRace (parseCharacterData j) =
     (if hasField j ''body'' ''characterRace'' is_string
      then str_of (fieldOf j ''body'' ''characterRace'') else [])"
  "ch_characterGender (parseCharacterData j) =
     (if hasField j ''body'' ''characterGender'' is_string
      then str_of (fieldOf j ''body'' ''characterGender'') else [])"
  by (simp_all add: parseCharacterData_def newCharacter_def Let_def)

end
