(* ===== verification/Response.thy ===== *)
theory Response
  imports Data Framing
begin

text \<open>
  Responses: \<open>ResponseBuilder\<close> (\<open>include/utils/ResponseBuilder.hpp\<close>), \<open>TimestampUtils\<close>
  (\<open>src/utils/TimestampUtils.cpp\<close>) and \<open>NetworkManager::generateResponseMessage\<close>. Clock readings
  are arguments; the local-time formatting of \<open>put_time\<close> is a parameter.
\<close>

section \<open>ResponseBuilder\<close>

text \<open>
  The builder's JSON is always an object with the two object members \<open>header\<close> and \<open>body\<close>: the
  constructor makes them and every operation writes inside one of them.
\<close>

record builder =
  rb_header :: "(string \<times> json) list"
  rb_body :: "(string \<times> json) list"

definition newBuilder :: builder where
  "newBuilder = \<lparr>rb_header = [], rb_body = []\<rparr>"

definition setHeader :: "string \<Rightarrow> json \<Rightarrow> builder \<Rightarrow> builder" where
  "setHeader key v b = b\<lparr>rb_header := obj_put key v (rb_header b)\<rparr>"

definition setBody :: "string \<Rightarrow> json \<Rightarrow> builder \<Rightarrow> builder" where
  "setBody key v b = b\<lparr>rb_body := obj_put key v (rb_body b)\<rparr>"

definition setTimestamps :: "TimestampStruct \<Rightarrow> builder \<Rightarrow> builder" where
  "setTimestamps ts b =
     setHeader ''requestId'' (JStr (ts_requestId ts))
       (setHeader ''clientSendMsEcho'' (JInt (ts_clientSendMsEcho ts))
         (setHeader ''serverSendMs'' (JInt (ts_serverSendMs ts))
           (setHeader ''serverRecvMs'' (JInt (ts_serverRecvMs ts)) b)))"

definition build :: "builder \<Rightarrow> json" where
  "build b = JObj [(''body'', JObj (rb_body b)), (''header'', JObj (rb_header b))]"

section \<open>TimestampUtils\<close>

text \<open>\<open>std::setfill('0') << std::setw(3) << ms\<close>.\<close>

definition pad3 :: "int \<Rightarrow> string" where
  "pad3 ms = (let t = to_string ms in replicate (3 - length t) CHR ''0'' @ t)"

definition getCurrentTimestamp :: "(int \<Rightarrow> string) \<Rightarrow> int \<Rightarrow> string" where
  "getCurrentTimestamp put_time nowMs =
     put_time (nowMs div 1000) @ ''.'' @ pad3 (nowMs mod 1000)"

definition setServerReceiveTimestamp :: "int \<Rightarrow> TimestampStruct \<Rightarrow> TimestampStruct" where
  "setServerReceiveTimestamp nowMs ts = ts\<lparr>ts_serverRecvMs := nowMs\<rparr>"

definition setServerSendTimestamp :: "int \<Rightarrow> TimestampStruct \<Rightarrow> TimestampStruct" where
  "setServerSendTimestamp nowMs ts = ts\<lparr>ts_serverSendMs := nowMs\<rparr>"

text \<open>
  \<open>clientSendMs\<close> is read before \<open>requestId\<close>; an exception from either resets the whole struct. The
  receive time is set last, on every path.
\<close>

definition parseTimestampsFromHeader :: "json_lib \<Rightarrow> int \<Rightarrow> json \<Rightarrow> TimestampStruct" where
  "parseTimestampsFromHeader L nowMs j =
     (let header = jidx j ''header'';
          r1 = (if jcontains j ''header'' \<and> jcontains header ''clientSendMs''
                then map_sum id (\<lambda>ms. newTimestamp\<lparr>ts_clientSendMsEcho := ms\<rparr>)
                       (get_longlong L (jidx header ''clientSendMs''))
                else Inr newTimestamp);
          r2 = (case r1 of
                  Inl e \<Rightarrow> Inl e
                | Inr t \<Rightarrow>
                    if jcontains j ''header'' \<and> jcontains header ''requestId''
                    then map_sum id (\<lambda>rid. t\<lparr>ts_requestId := rid\<rparr>)
                           (get_string (jidx header ''requestId''))
                    else Inr t)
      in setServerReceiveTimestamp nowMs (case r2 of Inl e \<Rightarrow> newTimestamp | Inr t \<Rightarrow> t))"

definition addTimestampsToHeader :: "json \<Rightarrow> TimestampStruct \<Rightarrow> exn + json" where
  "addTimestampsToHeader j ts =
     (let base = (if jcontains j ''header'' then Inr j else jput ''header'' json_object j);
          put = (\<lambda>k v r. case r of Inl e \<Rightarrow> Inl e
                 | Inr h \<Rightarrow> jput k v h)
      in case base of
           Inl e \<Rightarrow> Inl e
         | Inr j1 \<Rightarrow>
             (case put ''requestId'' (JStr (ts_requestId ts))
                     (put ''clientSendMsEcho'' (JInt (ts_clientSendMsEcho ts))
                       (put ''serverSendMs'' (JInt (ts_serverSendMs ts))
                         (put ''serverRecvMs'' (JInt (ts_serverRecvMs ts))
                           (Inr (jidx j1 ''header''))))) of
                Inl e \<Rightarrow> Inl e
              | Inr h \<Rightarrow> jput ''header'' h j1))"

definition createTimestamp :: "int \<Rightarrow> TimestampStruct" where
  "createTimestamp nowMs = setServerReceiveTimestamp nowMs newTimestamp"

definition parseTimestampsFromBuffer ::
  "json_lib \<Rightarrow> int \<Rightarrow> string \<Rightarrow> nat \<Rightarrow> TimestampStruct" where
  "parseTimestampsFromBuffer L nowMs messageBuffer messageLength =
     (case json_parse L (take messageLength messageBuffer) of
        Inl e \<Rightarrow> createTimestamp nowMs
      | Inr j \<Rightarrow> parseTimestampsFromHeader L nowMs j)"

section \<open>generateResponseMessage\<close>

text \<open>
  The error mirror: an error response whose header carries a string \<open>message\<close> and whose body has no
  \<open>errorCode\<close> of its own gets \<open>body.errorCode = header.message\<close>; a body that is no object is
  replaced by one.
\<close>

definition mirrorErrorCode :: "string \<Rightarrow> json \<Rightarrow> json \<Rightarrow> exn + json" where
  "mirrorErrorCode status header body =
     (if status = ''error'' \<and> jcontains header ''message'' \<and>
         is_string (jidx header ''message'') \<and>
         (\<not> is_object body \<or> \<not> jcontains body ''errorCode'')
      then jput ''errorCode'' (jidx header ''message'')
             (if is_object body then body else json_object)
      else Inr body)"

definition responseHeader :: "string \<Rightarrow> string \<Rightarrow> json \<Rightarrow> exn + json" where
  "responseHeader status currentTimestamp header =
     (case jput ''status'' (JStr status) header of
        Inl e \<Rightarrow> Inl e
      | Inr h1 \<Rightarrow>
          (case jput ''timestamp'' (JStr currentTimestamp) h1 of
             Inl e \<Rightarrow> Inl e
           | Inr h2 \<Rightarrow> jput ''version'' (JStr kProtocolVersion) h2))"

definition responseJson :: "string \<Rightarrow> string \<Rightarrow> json \<Rightarrow> exn + json" where
  "responseJson status currentTimestamp message =
     (case responseHeader status currentTimestamp (jidx message ''header'') of
        Inl e \<Rightarrow> Inl e
      | Inr header \<Rightarrow>
          (case mirrorErrorCode status header (jidx message ''body'') of
             Inl e \<Rightarrow> Inl e
           | Inr body \<Rightarrow> Inr (JObj [(''body'', body), (''header'', header)])))"

definition responseJsonTs ::
  "string \<Rightarrow> string \<Rightarrow> int \<Rightarrow> json \<Rightarrow> TimestampStruct \<Rightarrow> exn + json" where
  "responseJsonTs status currentTimestamp nowMs message ts =
     (case responseHeader status currentTimestamp (jidx message ''header'') of
        Inl e \<Rightarrow> Inl e
      | Inr h \<Rightarrow>
          (case addTimestampsToHeader (JObj [(''header'', h)])
                  (setServerSendTimestamp nowMs ts) of
             Inl e \<Rightarrow> Inl e
           | Inr response \<Rightarrow>
               (case mirrorErrorCode status (jidx response ''header'') (jidx message ''body'') of
                  Inl e \<Rightarrow> Inl e
                | Inr body \<Rightarrow>
                    Inr (JObj [(''body'', body), (''header'', jidx response ''header'')]))))"

definition dumpLine :: "json_lib \<Rightarrow> exn + json \<Rightarrow> exn + string" where
  "dumpLine L r =
     (case r of Inl e \<Rightarrow> Inl e
      | Inr response \<Rightarrow> map_sum id (\<lambda>responseString. responseString @ [CHR 0x0A])
                          (json_dump L response))"

definition generateResponseMessage ::
  "json_lib \<Rightarrow> string \<Rightarrow> string \<Rightarrow> json \<Rightarrow> exn + string" where
  "generateResponseMessage L currentTimestamp status message =
     dumpLine L (responseJson status currentTimestamp message)"

definition generateResponseMessageTs ::
  "json_lib \<Rightarrow> string \<Rightarrow> int \<Rightarrow> string \<Rightarrow> json \<Rightarrow> TimestampStruct \<Rightarrow> exn + string" where
  "generateResponseMessageTs L currentTimestamp nowMs status message ts =
     dumpLine L (responseJsonTs status currentTimestamp nowMs message ts)"

section \<open>Sending: the logical message and its frame\<close>

text \<open>\<open>sendResponse\<close> strips one trailing newline before it frames the message.\<close>

definition stripNewline :: "string \<Rightarrow> string" where
  "stripNewline s = (if s \<noteq> [] \<and> last s = CHR 0x0A then butlast s else s)"

definition frameResponse :: "string \<Rightarrow> string option" where
  "frameResponse responseString =
     (let framed = packFramedMessage (stripNewline responseString)
      in if framed = [] then None else Some framed)"

section \<open>Lemmas\<close>

lemma build_header [simp]: "jidx (build b) ''header'' = JObj (rb_header b)"
  by (simp add: build_def)

lemma build_body [simp]: "jidx (build b) ''body'' = JObj (rb_body b)"
  by (simp add: build_def)

lemma setHeader_sel [simp]:
  "rb_header (setHeader k v b) = obj_put k v (rb_header b)"
  "rb_body (setHeader k v b) = rb_body b"
  by (simp_all add: setHeader_def)

lemma setBody_sel [simp]:
  "rb_body (setBody k v b) = obj_put k v (rb_body b)"
  "rb_header (setBody k v b) = rb_header b"
  by (simp_all add: setBody_def)

lemma newBuilder_sel [simp]: "rb_header newBuilder = []" "rb_body newBuilder = []"
  by (simp_all add: newBuilder_def)

text \<open>The header fields the response adds never clash with those a handler set.\<close>

lemma responseHeader_obj:
  "responseHeader status ts (JObj kvs) =
     Inr (JObj (obj_put ''version'' (JStr kProtocolVersion)
           (obj_put ''timestamp'' (JStr ts) (obj_put ''status'' (JStr status) kvs))))"
  by (simp add: responseHeader_def)

lemma responseJson_build:
  "\<exists>h b. responseJson status ts (build r) =
           Inr (JObj [(''body'', JObj b), (''header'', JObj h)]) \<and>
         map_of h = (map_of (rb_header r))(''status'' \<mapsto> JStr status, ''timestamp'' \<mapsto> JStr ts,
                      ''version'' \<mapsto> JStr kProtocolVersion) \<and>
         (b = rb_body r \<or>
          status = ''error'' \<and> map_of (rb_body r) ''errorCode'' = None \<and>
            (\<exists>m. map_of (rb_header r) ''message'' = Some m \<and> is_string m \<and>
                 b = obj_put ''errorCode'' m (rb_body r)))"
  by (auto simp: responseJson_def responseHeader_obj mirrorErrorCode_def fun_eq_iff
      split: option.splits)

lemma stripNewline_snoc [simp]: "stripNewline (s @ [CHR 0x0A]) = s"
  by (simp add: stripNewline_def)

lemma frameResponse_line:
  "frameResponse (s @ [CHR 0x0A]) =
     (if kMaxFrameBytes < length s then None else Some (packFramedMessage s))"
  by (simp add: frameResponse_def Let_def pack_empty_iff)

lemma show_nat_length_pos: "0 < length (show_nat n)"
  by simp

lemma show_nat_length_3: "n < 1000 \<Longrightarrow> length (show_nat n) \<le> 3"
proof -
  assume n: "n < 1000"
  have "length (show_nat k) \<le> 1" if "k < 10" for k
    using that by (subst show_nat.simps) simp
  moreover from this have "length (show_nat k) \<le> 2" if "k < 100" for k
    using that by (subst show_nat.simps) (use \<open>k < 100\<close> in \<open>auto simp: less_mult_imp_div_less\<close>)
  ultimately show ?thesis
    using n by (subst show_nat.simps) (auto simp: less_mult_imp_div_less)
qed

lemma pad3_length: "length (pad3 (nowMs mod 1000)) = 3"
proof -
  have b: "0 \<le> nowMs mod 1000" "nowMs mod 1000 < 1000" by simp_all
  then have "nat (nowMs mod 1000) < 1000" by linarith
  then have "length (show_nat (nat (nowMs mod 1000))) \<le> 3" by (rule show_nat_length_3)
  moreover have "\<not> nowMs mod 1000 < 0" using b by linarith
  ultimately show ?thesis by (simp add: pad3_def to_string_def Let_def)
qed

end
