(* ===== verification/Sessions.thy ===== *)
theory Sessions
  imports Data Framing
begin

text \<open>
  \<open>ClientData\<close> (\<open>src/data/ClientData.cpp\<close>): the in-memory session registry. Every method holds the
  mutex for its whole body, so each is one atomic function of the map; the clock reading it takes
  is an argument. The map is an association list whose order is the iteration order.
\<close>

type_synonym sessions = "(int \<times> ClientDataStruct) list"

section \<open>Operations\<close>

definition storeClientData :: "int \<Rightarrow> ClientDataStruct \<Rightarrow> sessions \<Rightarrow> sessions" where
  "storeClientData nowMs clientData m =
     (let copy = clientData\<lparr>cd_lastSeenMs := nowMs, cd_password := []\<rparr>
      in AList.update (cd_clientId copy) copy m)"

text \<open>The new character of \<open>updateClientData(id, field, value)\<close>, \<open>None\<close> for an unknown field.\<close>

definition updateField ::
  "string \<Rightarrow> string \<Rightarrow> CharacterDataStruct \<Rightarrow> (exn + CharacterDataStruct) option" where
  "updateField field val c =
     (if field = ''characterId'' then
        Some (map_sum id (\<lambda>v. c\<lparr>ch_characterId := v\<rparr>) (stoi val))
      else if field = ''characterLevel'' then
        Some (map_sum id (\<lambda>v. c\<lparr>ch_characterLevel := v\<rparr>) (stoi val))
      else if field = ''characterName'' then Some (Inr (c\<lparr>ch_characterName := val\<rparr>))
      else if field = ''characterClass'' then Some (Inr (c\<lparr>ch_characterClass := val\<rparr>))
      else None)"

definition updateClientDataField :: "int \<Rightarrow> int \<Rightarrow> string \<Rightarrow> string \<Rightarrow> sessions \<Rightarrow> sessions" where
  "updateClientDataField nowMs cid field val m =
     (case map_of m cid of
        None \<Rightarrow> m
      | Some d \<Rightarrow>
          (case updateField field val (cd_characterData d) of
             None \<Rightarrow> m
           | Some (Inl e) \<Rightarrow> m
           | Some (Inr c) \<Rightarrow>
               AList.update cid (d\<lparr>cd_characterData := c, cd_lastSeenMs := nowMs\<rparr>) m))"

definition updateClientDataCharacter ::
  "int \<Rightarrow> int \<Rightarrow> CharacterDataStruct \<Rightarrow> sessions \<Rightarrow> sessions" where
  "updateClientDataCharacter nowMs cid characterData m =
     (case map_of m cid of
        None \<Rightarrow> m
      | Some d \<Rightarrow>
          AList.update cid (d\<lparr>cd_characterData := characterData, cd_lastSeenMs := nowMs\<rparr>) m)"

definition getClientData :: "int \<Rightarrow> sessions \<Rightarrow> ClientDataStruct option" where
  "getClientData cid m = (if cid = 0 then None else map_of m cid)"

text \<open>
  \<open>safeEqual\<close>: a (signed) \<open>char\<close> is promoted to \<open>int\<close> before the XOR, and the differences are
  OR-ed into an \<open>unsigned\<close>.
\<close>

definition charWord :: "char \<Rightarrow> u32" where
  "charWord c = word_of_int (signed_take_bit 7 (of_char c))"

definition safeEqual :: "string \<Rightarrow> string \<Rightarrow> bool" where
  "safeEqual a b =
     (if length a \<noteq> length b then False
      else foldl (\<lambda>diff (x, y). diff OR (charWord x XOR charWord y)) 0 (zip a b) = 0)"

definition validateSession :: "int \<Rightarrow> string \<Rightarrow> sessions \<Rightarrow> bool" where
  "validateSession cid hash m =
     (if cid = 0 \<or> hash = [] then False
      else case map_of m cid of
             None \<Rightarrow> False
           | Some d \<Rightarrow> if cd_hash d = [] then False else safeEqual (cd_hash d) hash)"

text \<open>\<open>touchSession(id, now)\<close>: 0 for \<open>now\<close> means the current time \<open>nowMs\<close>.\<close>

definition touchSession :: "int \<Rightarrow> int \<Rightarrow> int \<Rightarrow> sessions \<Rightarrow> bool \<times> sessions" where
  "touchSession nowMs cid now m =
     (if cid = 0 then (False, m)
      else let now' = (if now = 0 then nowMs else now) in
           case map_of m cid of
             None \<Rightarrow> (False, m)
           | Some d \<Rightarrow> (True, AList.update cid (d\<lparr>cd_lastSeenMs := now'\<rparr>) m))"

definition removeClientData :: "int \<Rightarrow> sessions \<Rightarrow> bool \<times> sessions" where
  "removeClientData cid m =
     (case map_of m cid of
        None \<Rightarrow> (False, m)
      | Some d \<Rightarrow> (True, AList.delete cid m))"

text \<open>The iterator loop of \<open>sweepExpiredSessions\<close>.\<close>

fun sweepLoop :: "int \<Rightarrow> int \<Rightarrow> sessions \<Rightarrow> int list \<times> sessions" where
  "sweepLoop nowMs ttlMs [] = ([], [])"
| "sweepLoop nowMs ttlMs ((cid, d) # m) =
     (let (removed, kept) = sweepLoop nowMs ttlMs m
      in if nowMs - cd_lastSeenMs d > ttlMs then (cid # removed, kept)
         else (removed, (cid, d) # kept))"

definition sweepExpiredSessions :: "int \<Rightarrow> int \<Rightarrow> sessions \<Rightarrow> int list \<times> sessions" where
  "sweepExpiredSessions nowMs ttlMs m = sweepLoop nowMs ttlMs m"

definition getClientsDataMap :: "sessions \<Rightarrow> sessions" where
  "getClientsDataMap m = m"

definition sessionsSize :: "sessions \<Rightarrow> nat" where
  "sessionsSize m = length m"

section \<open>The constant-time comparison is equality\<close>

lemma charWord_inject: "charWord x XOR charWord y = 0 \<longleftrightarrow> x = y"
proof
  assume "charWord x XOR charWord y = 0"
  then have w: "charWord x = charWord y"
    by (metis xor.assoc xor.left_neutral xor.right_neutral xor_self_eq)
  have low: "take_bit 8 (charWord c) = byteWord c" for c
  proof (rule bit_eqI)
    fix i assume "possible_bit TYPE(32 word) i"
    then have i: "i < 32" by simp
    have b: "bit (byteWord c) i \<longleftrightarrow> i < 8 \<and> bit (of_char c :: int) i"
    proof -
      have e: "byteWord c = word_of_int (of_char c)"
        unfolding byteWord_def of_nat_of_char [symmetric, where 'a = int] of_int_of_nat_eq ..
      show ?thesis using bit_byteWord [of c i] i unfolding e by (auto simp: bit_simps)
    qed
    show "bit (take_bit 8 (charWord c)) i \<longleftrightarrow> bit (byteWord c) i"
      unfolding b using i le_antisym [of 7 i]
      by (cases "i = 7") (auto simp: charWord_def bit_simps min_def)
  qed
  have "byteWord x = byteWord y" using w low by metis
  then show "x = y" by (metis char_of_byteWord)
qed simp

lemma or_fold_zero:
  "foldl (\<lambda>diff (x, y). diff OR (charWord x XOR charWord y)) d ps = 0 \<longleftrightarrow>
     d = 0 \<and> (\<forall>(x, y) \<in> set ps. x = y)"
proof (induction ps arbitrary: d)
  case Nil
  then show ?case by simp
next
  case (Cons p ps)
  obtain x y where p: "p = (x, y)" by (cases p)
  show ?case
    using Cons [of "d OR (charWord x XOR charWord y)"] charWord_inject [of x y]
    by (auto simp: p or_eq_0_iff)
qed

lemma safeEqual_iff [simp]: "safeEqual a b \<longleftrightarrow> a = b"
proof (cases "length a = length b")
  case True
  then show ?thesis
    by (induction a b rule: list_induct2)
       (auto simp: safeEqual_def or_fold_zero charWord_inject)
qed (auto simp: safeEqual_def)

section \<open>The map view\<close>

lemma map_of_store [simp]:
  "map_of (storeClientData t d m) =
     (map_of m)(cd_clientId d \<mapsto> d\<lparr>cd_lastSeenMs := t, cd_password := []\<rparr>)"
  by (simp add: storeClientData_def)

lemma map_of_remove [simp]: "map_of (snd (removeClientData k m)) = (map_of m)(k := None)"
  by (auto simp: removeClientData_def fun_eq_iff split: option.splits)

lemma removeClientData_found: "fst (removeClientData k m) \<longleftrightarrow> map_of m k \<noteq> None"
  by (auto simp: removeClientData_def split: option.splits)

lemma map_of_touch:
  "map_of (snd (touchSession t k now m)) =
     (if k \<noteq> 0 \<and> map_of m k \<noteq> None
      then (map_of m)(k \<mapsto> (the (map_of m k))\<lparr>cd_lastSeenMs := (if now = 0 then t else now)\<rparr>)
      else map_of m)"
  by (auto simp: touchSession_def Let_def split: option.splits)

lemma sweepLoop_eq:
  "sweepLoop t ttl m =
     (map fst (filter (\<lambda>kd. t - cd_lastSeenMs (snd kd) > ttl) m),
      filter (\<lambda>kd. \<not> t - cd_lastSeenMs (snd kd) > ttl) m)"
  by (induction m) auto

lemma map_of_sweep:
  "dkeys m \<Longrightarrow> map_of (snd (sweepExpiredSessions t ttl m)) k =
     (case map_of m k of
        None \<Rightarrow> None
      | Some d \<Rightarrow> if t - cd_lastSeenMs d > ttl then None else Some d)"
  by (simp add: sweepExpiredSessions_def sweepLoop_eq map_of_filter_val
      [where P = "\<lambda>d. \<not> t - cd_lastSeenMs d > ttl"] split: option.splits)

lemma validateSession_iff:
  "validateSession cid hash m \<longleftrightarrow>
     cid \<noteq> 0 \<and> hash \<noteq> [] \<and> (\<exists>d. map_of m cid = Some d \<and> cd_hash d = hash)"
  by (auto simp: validateSession_def split: option.splits)

section \<open>The registry as an interface\<close>

text \<open>
  What the handlers rely on: a store of sessions by id, each with a token. \<open>tok\<close> is the token a
  caller must present.
\<close>

locale session_registry =
  fixes store :: "int \<Rightarrow> ClientDataStruct \<Rightarrow> 'm \<Rightarrow> 'm"
    and remove :: "int \<Rightarrow> 'm \<Rightarrow> 'm"
    and touch :: "int \<Rightarrow> int \<Rightarrow> 'm \<Rightarrow> 'm"
    and valid :: "int \<Rightarrow> string \<Rightarrow> 'm \<Rightarrow> bool"
    and tok :: "'m \<Rightarrow> int \<Rightarrow> string option"
  assumes tok_store: "tok (store t d m) = (tok m)(cd_clientId d \<mapsto> cd_hash d)"
    and tok_remove: "tok (remove k m) = (tok m)(k := None)"
    and tok_touch: "tok (touch t k m) = tok m"
    and valid_tok: "valid k h m \<longleftrightarrow> k \<noteq> 0 \<and> h \<noteq> [] \<and> tok m k = Some h"
begin

lemma fresh_login_validates:
  "cd_clientId d \<noteq> 0 \<Longrightarrow> cd_hash d \<noteq> [] \<Longrightarrow> valid (cd_clientId d) (cd_hash d) (store t d m)"
  by (simp add: valid_tok tok_store)

lemma relogin_invalidates_old_token:
  "valid (cd_clientId d) h (store t d m) \<Longrightarrow> h = cd_hash d"
  by (simp add: valid_tok tok_store)

lemma others_unaffected_by_login:
  "k \<noteq> cd_clientId d \<Longrightarrow> valid k h (store t d m) \<longleftrightarrow> valid k h m"
  by (simp add: valid_tok tok_store)

lemma removed_never_validates: "\<not> valid k h (remove k m)"
  by (simp add: valid_tok tok_remove)

lemma others_unaffected_by_removal: "j \<noteq> k \<Longrightarrow> valid j h (remove k m) \<longleftrightarrow> valid j h m"
  by (simp add: valid_tok tok_remove)

lemma touch_keeps_validity: "valid j h (touch t k m) \<longleftrightarrow> valid j h m"
  by (simp add: valid_tok tok_touch)

lemma one_token_per_id: "valid k h m \<Longrightarrow> valid k h' m \<Longrightarrow> h = h'"
  by (simp add: valid_tok)

end

definition tokenOf :: "sessions \<Rightarrow> int \<Rightarrow> string option" where
  "tokenOf m k = map_option cd_hash (map_of m k)"

lemma tokenOf_touch: "tokenOf (snd (touchSession t k now m)) = tokenOf m"
  by (auto simp: tokenOf_def map_of_touch fun_eq_iff)

interpretation registry: session_registry
  storeClientData "\<lambda>k m. snd (removeClientData k m)" "\<lambda>t k m. snd (touchSession t k 0 m)"
  validateSession tokenOf
  by unfold_locales
     (auto simp: tokenOf_def fun_eq_iff map_of_touch validateSession_iff split: if_splits)

section \<open>The invariant of the registry\<close>

text \<open>
  One entry per id, filed under its own client id, and no cleartext password in memory. The
  socket clause records that no caller ever stores a session with a socket; it is an invariant of
  the operations when what is stored has none.
\<close>

definition sessions_ok :: "sessions \<Rightarrow> bool" where
  "sessions_ok m \<longleftrightarrow>
     dkeys m \<and> (\<forall>(k, d) \<in> set m. cd_clientId d = k \<and> cd_password d = [])"

definition no_sockets :: "sessions \<Rightarrow> bool" where
  "no_sockets m \<longleftrightarrow> (\<forall>(k, d) \<in> set m. cd_socket d = None)"

datatype session_op =
    OpStore int ClientDataStruct
  | OpUpdateField int int string string
  | OpUpdateCharacter int int CharacterDataStruct
  | OpTouch int int int
  | OpRemove int
  | OpSweep int int

fun runOp :: "session_op \<Rightarrow> sessions \<Rightarrow> sessions" where
  "runOp (OpStore t d) m = storeClientData t d m"
| "runOp (OpUpdateField t k f v) m = updateClientDataField t k f v m"
| "runOp (OpUpdateCharacter t k c) m = updateClientDataCharacter t k c m"
| "runOp (OpTouch t k now) m = snd (touchSession t k now m)"
| "runOp (OpRemove k) m = snd (removeClientData k m)"
| "runOp (OpSweep t ttl) m = snd (sweepExpiredSessions t ttl m)"

lemma sessions_ok_entry:
  "sessions_ok m \<Longrightarrow> map_of m k = Some d \<Longrightarrow> cd_clientId d = k \<and> cd_password d = []"
  by (auto simp: sessions_ok_def dest: map_of_SomeD)

lemma sessions_ok_update:
  "sessions_ok m \<Longrightarrow> cd_clientId d = k \<Longrightarrow> cd_password d = [] \<Longrightarrow>
    sessions_ok (AList.update k d m)"
  by (auto simp: sessions_ok_def dest!: set_update_cases)

lemma sessions_ok_subset: "sessions_ok m \<Longrightarrow> set n \<subseteq> set m \<Longrightarrow> dkeys n \<Longrightarrow> sessions_ok n"
  by (auto simp: sessions_ok_def)

lemma runOp_sessions_ok: "sessions_ok m \<Longrightarrow> sessions_ok (runOp op m)"
proof (cases op)
  case (OpRemove k)
  assume ok: "sessions_ok m"
  have "sessions_ok (AList.delete k m)"
    using ok set_delete_sub [of k m] by (intro sessions_ok_subset [OF ok]) (auto simp: sessions_ok_def)
  then show ?thesis using ok OpRemove by (simp add: removeClientData_def split: option.splits)
next
  case (OpSweep t ttl)
  assume ok: "sessions_ok m"
  then have "dkeys m" by (simp add: sessions_ok_def)
  then show ?thesis
    using OpSweep by (auto simp: sweepExpiredSessions_def sweepLoop_eq intro: sessions_ok_subset [OF ok])
qed (auto simp: storeClientData_def updateClientDataField_def updateClientDataCharacter_def
      touchSession_def Let_def dest: sessions_ok_entry intro!: sessions_ok_update
      split: option.splits sum.splits)

lemma fold_runOp_sessions_ok: "sessions_ok m \<Longrightarrow> sessions_ok (fold runOp ops m)"
  by (induction ops arbitrary: m) (auto simp: runOp_sessions_ok)

lemma no_sockets_update:
  "no_sockets m \<Longrightarrow> cd_socket d = None \<Longrightarrow> no_sockets (AList.update k d m)"
  by (auto simp: no_sockets_def dest!: set_update_cases)

lemma no_sockets_subset: "no_sockets m \<Longrightarrow> set n \<subseteq> set m \<Longrightarrow> no_sockets n"
  by (auto simp: no_sockets_def)

lemma no_sockets_entry: "no_sockets m \<Longrightarrow> map_of m k = Some d \<Longrightarrow> cd_socket d = None"
  by (auto simp: no_sockets_def dest: map_of_SomeD)

lemma no_sockets_store:
  "no_sockets m \<Longrightarrow> cd_socket d = None \<Longrightarrow> no_sockets (storeClientData t d m)"
  by (simp add: storeClientData_def no_sockets_update)

lemma no_sockets_touch: "no_sockets m \<Longrightarrow> no_sockets (snd (touchSession t k now m))"
  by (auto simp: touchSession_def Let_def intro!: no_sockets_update dest: no_sockets_entry
      split: option.splits)

lemma no_sockets_remove: "no_sockets m \<Longrightarrow> no_sockets (snd (removeClientData k m))"
  using set_delete_sub [of k m]
  by (auto simp: removeClientData_def intro: no_sockets_subset split: option.splits)

section \<open>Properties\<close>

text \<open>Whatever sequence of operations runs on an empty registry, every entry is filed under its
  own client id, there is one entry per id, and no entry holds a cleartext password.\<close>

lemma sessions_never_hold_password:
  "dkeys (fold runOp ops []) \<and>
   (\<forall>(k, d) \<in> set (fold runOp ops []). cd_clientId d = k \<and> cd_password d = [])"
  using fold_runOp_sessions_ok [of "[]" ops] by (simp add: sessions_ok_def)

lemma sessions_never_hold_password_witness:
  "\<exists>d. (7, d) \<in> set (fold runOp [OpStore 5 (newClient\<lparr>cd_clientId := 7, cd_hash := ''tok'',
                      cd_password := ''secret''\<rparr>)] []) \<and>
       cd_hash d = ''tok'' \<and> cd_clientId d = 7 \<and> cd_password d = []"
proof -
  let ?ops = "[OpStore 5 (newClient\<lparr>cd_clientId := 7, cd_hash := ''tok'', cd_password := ''secret''\<rparr>)]"
  let ?d = "newClient\<lparr>cd_clientId := 7, cd_hash := ''tok'', cd_lastSeenMs := 5\<rparr>"
  have d: "(7, ?d) \<in> set (fold runOp ?ops [])"
    by (simp add: storeClientData_def newClient_def)
  then have "cd_clientId ?d = 7 \<and> cd_password ?d = []"
    using sessions_never_hold_password [of ?ops] by blast
  then show ?thesis using d by (intro exI [of _ ?d]) simp
qed

end
