(* ===== verification/Events.thy ===== *)
theory Events
  imports Data "HOL-Library.Multiset"
begin

text \<open>
  \<open>Event\<close> and \<open>EventQueue\<close> (\<open>src/events/Event.cpp\<close>, \<open>src/events/EventQueue.cpp\<close>): the queue between
  the socket threads and the event loop. Every operation runs under the queue's mutex and is one
  atomic function; a call that would wait on the condition variable is the value \<open>Blocks\<close>.
\<close>

section \<open>Event\<close>

datatype EventType =
    PING_CLIENT
  | AUTH_CLIENT
  | DISCONNECT_CLIENT
  | GET_CHARACTERS_LIST
  | CREATE_CHARACTER
  | DELETE_CHARACTER
  | REGISTER_ACCOUNT
  | GET_CHARACTER_CREATION_OPTIONS

datatype EventData =
    ED_int int
  | ED_float "32 word"
  | ED_string string
  | ED_json json
  | ED_position PositionStruct
  | ED_character CharacterDataStruct
  | ED_client ClientDataStruct
  | ED_registration RegistrationDataStruct

record Event =
  ev_clientID :: int
  ev_type :: EventType
  ev_data :: EventData
  ev_socket :: "sock option"
  ev_timestamps :: TimestampStruct
  ev_hasTimestamps :: bool

definition mkEvent :: "EventType \<Rightarrow> int \<Rightarrow> EventData \<Rightarrow> sock option \<Rightarrow> Event" where
  "mkEvent type clientID data clientSocket =
     \<lparr>ev_clientID = clientID, ev_type = type, ev_data = data, ev_socket = clientSocket,
      ev_timestamps = newTimestamp, ev_hasTimestamps = False\<rparr>"

definition getTimestamps :: "Event \<Rightarrow> exn + TimestampStruct" where
  "getTimestamps e =
     (if \<not> ev_hasTimestamps e then Inl (RuntimeError ''Event does not have timestamps'')
      else Inr (ev_timestamps e))"

definition setEventTimestamps :: "TimestampStruct \<Rightarrow> Event \<Rightarrow> Event" where
  "setEventTimestamps ts e = e\<lparr>ev_timestamps := ts, ev_hasTimestamps := True\<rparr>"

lemma mkEvent_sel [simp]:
  "ev_clientID (mkEvent t c d s) = c" "ev_type (mkEvent t c d s) = t"
  "ev_data (mkEvent t c d s) = d" "ev_socket (mkEvent t c d s) = s"
  "ev_hasTimestamps (mkEvent t c d s) = False"
  by (simp_all add: mkEvent_def)

lemma setEventTimestamps_sel [simp]:
  "ev_clientID (setEventTimestamps ts e) = ev_clientID e"
  "ev_type (setEventTimestamps ts e) = ev_type e"
  "ev_data (setEventTimestamps ts e) = ev_data e"
  "ev_socket (setEventTimestamps ts e) = ev_socket e"
  "ev_timestamps (setEventTimestamps ts e) = ts"
  "ev_hasTimestamps (setEventTimestamps ts e)"
  by (simp_all add: setEventTimestamps_def)

section \<open>EventQueue\<close>

record 'e event_queue =
  q_items :: "'e list"
  q_stopped :: bool

datatype 'a wait = Blocks | Done 'a

definition newQueue :: "'e event_queue" where
  "newQueue = \<lparr>q_items = [], q_stopped = False\<rparr>"

definition pushEvent :: "'e \<Rightarrow> 'e event_queue \<Rightarrow> 'e event_queue" where
  "pushEvent e q = q\<lparr>q_items := q_items q @ [e]\<rparr>"

definition pushBatch :: "'e list \<Rightarrow> 'e event_queue \<Rightarrow> 'e event_queue" where
  "pushBatch es q = foldl (\<lambda>q e. pushEvent e q) q es"

definition wouldWait :: "'e event_queue \<Rightarrow> bool" where
  "wouldWait q \<longleftrightarrow> \<not> (q_items q \<noteq> [] \<or> q_stopped q)"

text \<open>\<open>pop\<close>: \<open>None\<close> stands for the result \<open>false\<close> (stopped, nothing pending).\<close>

definition popEvent :: "'e event_queue \<Rightarrow> ('e option \<times> 'e event_queue) wait" where
  "popEvent q =
     (if wouldWait q then Blocks
      else case q_items q of
             [] \<Rightarrow> Done (None, q)
           | e # es \<Rightarrow> Done (Some e, q\<lparr>q_items := es\<rparr>))"

fun popLoop :: "'e list \<Rightarrow> int \<Rightarrow> 'e list \<Rightarrow> 'e list \<times> 'e list" where
  "popLoop [] batchSize events = ([], events)"
| "popLoop (e # es) batchSize events =
     (if batchSize > 0 then popLoop es (batchSize - 1) (events @ [e]) else (e # es, events))"

text \<open>
  \<open>events.reserve(events.size() + actualSize)\<close>: the sum is a 64-bit \<open>size_t\<close>, so a negative
  \<open>actualSize\<close> can wrap to a size no vector has and \<open>reserve\<close> throws \<open>length_error\<close>.
\<close>

definition reserveFails :: "nat \<Rightarrow> int \<Rightarrow> bool" where
  "reserveFails n actualSize \<longleftrightarrow> (int n + actualSize) mod 2 ^ 64 \<ge> 2 ^ 63"

definition takeBatch ::
  "'e list \<Rightarrow> int \<Rightarrow> 'e event_queue \<Rightarrow> exn + (bool \<times> 'e list \<times> 'e event_queue)" where
  "takeBatch events batchSize q =
     (if q_items q = [] then Inr (False, events, q)
      else let actualSize = min batchSize (int32 (int (length (q_items q)))) in
        if reserveFails (length events) actualSize then Inl (LengthError ''vector::reserve'')
        else let (rest, events') = popLoop (q_items q) batchSize events
             in Inr (events' \<noteq> [], events', q\<lparr>q_items := rest\<rparr>))"

definition popBatch ::
  "'e list \<Rightarrow> int \<Rightarrow> 'e event_queue \<Rightarrow> (exn + (bool \<times> 'e list \<times> 'e event_queue)) wait" where
  "popBatch events batchSize q =
     (if wouldWait q then Blocks else Done (takeBatch events batchSize q))"

text \<open>
  \<open>tryPopBatch\<close> never waits for ever: when nothing arrived before the timeout it returns \<open>false\<close>.
\<close>

definition tryPopBatch ::
  "'e list \<Rightarrow> int \<Rightarrow> 'e event_queue \<Rightarrow> exn + (bool \<times> 'e list \<times> 'e event_queue)" where
  "tryPopBatch events batchSize q =
     (if wouldWait q then Inr (False, events, q) else takeBatch events batchSize q)"

definition queueEmpty :: "'e event_queue \<Rightarrow> bool" where
  "queueEmpty q \<longleftrightarrow> q_items q = []"

definition stopQueue :: "'e event_queue \<Rightarrow> 'e event_queue" where
  "stopQueue q = q\<lparr>q_stopped := True\<rparr>"

lemma popLoop_eq: "popLoop xs b evs = (drop (nat b) xs, evs @ take (nat b) xs)"
proof (induction xs b evs rule: popLoop.induct)
  case (2 e es b evs)
  show ?case
  proof (cases "b > 0")
    case True
    then have "nat b = Suc (nat (b - 1))" by simp
    then show ?thesis using 2 True by simp
  qed simp
qed simp

lemma takeBatch_ok:
  "takeBatch evs b q = Inr (r, evs', q') \<Longrightarrow>
     evs' @ q_items q' = evs @ q_items q \<and> q_stopped q' = q_stopped q \<and>
     evs' = evs @ take (nat b) (q_items q)"
  by (auto simp: takeBatch_def popLoop_eq Let_def split: if_splits)

lemma reserve_small:
  "0 \<le> b \<Longrightarrow> in_int b \<Longrightarrow> 0 \<le> k \<Longrightarrow> in_int k \<Longrightarrow> \<not> reserveFails 0 (min b (int32 k))"
  by (auto simp: reserveFails_def in_int_def INT_MIN_def INT_MAX_def min_def)

text \<open>The queue lengths the \<open>int\<close> cast in the batch operations can express.\<close>

abbreviation intLength :: "'e event_queue \<Rightarrow> bool" where
  "intLength q \<equiv> int (length (q_items q)) \<le> INT_MAX"

text \<open>\<open>drain\<close>: take batches until \<open>popBatch\<close> returns \<open>false\<close>.\<close>

function drain :: "'e event_queue \<Rightarrow> (exn + 'e event_queue) wait" where
  "drain q =
     (case popBatch [] 1024 q of
        Blocks \<Rightarrow> Blocks
      | Done (Inl e) \<Rightarrow> Done (Inl e)
      | Done (Inr (r, tmp, q')) \<Rightarrow> if r then drain q' else Done (Inr q'))"
  by pat_completeness auto
termination
proof (relation "measure (\<lambda>q. length (q_items q))", goal_cases)
  case 1
  show ?case by simp
next
  case (2 q w s r p' tmp q')
  then have t: "takeBatch [] 1024 q = Inr (True, tmp, q')"
    by (auto simp: popBatch_def split: if_splits)
  then have "tmp = take 1024 (q_items q)" "tmp \<noteq> []" "tmp @ q_items q' = q_items q"
    by (auto simp: takeBatch_def popLoop_eq Let_def split: if_splits)
  then have "length (q_items q') < length (q_items q)"
    by (metis length_append length_greater_0_conv less_add_same_cancel2)
  then show ?case by simp
qed

declare drain.simps [simp del]

section \<open>The queue as an interface\<close>

locale fifo_queue =
  fixes push :: "'e \<Rightarrow> 'q \<Rightarrow> 'q"
    and take_one :: "'q \<Rightarrow> ('e option \<times> 'q) wait"
    and take_many :: "int \<Rightarrow> 'q \<Rightarrow> exn + (bool \<times> 'e list \<times> 'q)"
    and contents :: "'q \<Rightarrow> 'e list"
    and closed :: "'q \<Rightarrow> bool"
  assumes contents_push: "contents (push e q) = contents q @ [e]"
    and closed_push: "closed (push e q) = closed q"
    and take_Cons: "contents q = e # es \<Longrightarrow>
          \<exists>q'. take_one q = Done (Some e, q') \<and> contents q' = es \<and> closed q' = closed q"
    and take_closed: "contents q = [] \<Longrightarrow> closed q \<Longrightarrow> take_one q = Done (None, q)"
    and take_open: "contents q = [] \<Longrightarrow> \<not> closed q \<Longrightarrow> take_one q = Blocks"
    and take_many: "take_many b q = Inr (some, es, q') \<Longrightarrow>
          es @ contents q' = contents q \<and> closed q' = closed q \<and> (some \<longleftrightarrow> es \<noteq> [])"
begin

fun pushes :: "'e list \<Rightarrow> 'q \<Rightarrow> 'q" where
  "pushes [] q = q"
| "pushes (e # es) q = pushes es (push e q)"

fun takes :: "nat \<Rightarrow> 'q \<Rightarrow> 'e list \<times> 'q" where
  "takes 0 q = ([], q)"
| "takes (Suc n) q =
     (case take_one q of
        Done (Some e, q') \<Rightarrow> (let (es, q'') = takes n q' in (e # es, q''))
      | _ \<Rightarrow> ([], q))"

lemma contents_pushes: "contents (pushes es q) = contents q @ es"
  by (induction es arbitrary: q) (simp_all add: contents_push)

lemma takes_prefix: "fst (takes n q) = take n (contents q)"
proof (induction n arbitrary: q)
  case 0
  then show ?case by simp
next
  case (Suc n)
  show ?case
  proof (cases "contents q")
    case Nil
    then show ?thesis using take_closed [of q] take_open [of q] by (cases "closed q") simp_all
  next
    case (Cons e es)
    then obtain q' where "take_one q = Done (Some e, q')" "contents q' = es"
      using take_Cons by blast
    then show ?thesis using Suc [of q'] Cons by (simp add: case_prod_beta Let_def)
  qed
qed

text \<open>A consumer that takes batches of any sizes, giving up at the first exception.\<close>

fun consume :: "int list \<Rightarrow> 'q \<Rightarrow> 'e list \<times> 'q" where
  "consume [] q = ([], q)"
| "consume (b # bs) q =
     (case take_many b q of
        Inl e \<Rightarrow> ([], q)
      | Inr (some, es, q') \<Rightarrow> (let (fs, q'') = consume bs q' in (es @ fs, q'')))"

lemma consume_conserves: "fst (consume bs q) @ contents (snd (consume bs q)) = contents q"
proof (induction bs arbitrary: q)
  case (Cons b bs)
  show ?case
  proof (cases "take_many b q")
    case (Inr r)
    obtain some es q' where r: "r = (some, es, q')" by (cases r)
    show ?thesis using Cons.IH [of q'] take_many [OF Inr [unfolded r]] Inr r by (simp add: case_prod_beta Let_def)
  qed simp
qed simp

text \<open>First in, first out: what comes out is what went in, in that order.\<close>

lemma first_in_first_out: "contents q = [] \<Longrightarrow> fst (takes n (pushes es q)) = take n es"
  by (simp add: takes_prefix contents_pushes)

end

lemma tryPopBatch_ok:
  "tryPopBatch [] b q = Inr (some, es, q') \<Longrightarrow>
     es @ q_items q' = q_items q \<and> q_stopped q' = q_stopped q \<and> (some \<longleftrightarrow> es \<noteq> [])"
  by (auto simp: tryPopBatch_def takeBatch_def popLoop_eq Let_def split: if_splits)

interpretation evq: fifo_queue pushEvent popEvent "tryPopBatch []" q_items q_stopped
  by unfold_locales (auto simp: pushEvent_def popEvent_def wouldWait_def dest: tryPopBatch_ok)

section \<open>Runs of operations\<close>

datatype 'e queue_op =
    Push 'e
  | PushBatch "'e list"
  | Pop
  | PopBatch int
  | TryPopBatch int
  | Stop

definition batchResult ::
  "'e event_queue \<Rightarrow> exn + (bool \<times> 'e list \<times> 'e event_queue) \<Rightarrow> 'e list \<times> 'e event_queue" where
  "batchResult q r = (case r of Inl e \<Rightarrow> ([], q) | Inr (_, evs, q') \<Rightarrow> (evs, q'))"

text \<open>One operation: what it delivers and the queue after it. A blocked call has no effect yet.\<close>

fun queueStep :: "'e queue_op \<Rightarrow> 'e event_queue \<Rightarrow> 'e list \<times> 'e event_queue" where
  "queueStep (Push e) q = ([], pushEvent e q)"
| "queueStep (PushBatch es) q = ([], pushBatch es q)"
| "queueStep Pop q =
     (case popEvent q of
        Blocks \<Rightarrow> ([], q)
      | Done (None, q') \<Rightarrow> ([], q')
      | Done (Some e, q') \<Rightarrow> ([e], q'))"
| "queueStep (PopBatch n) q =
     (case popBatch [] n q of Blocks \<Rightarrow> ([], q) | Done r \<Rightarrow> batchResult q r)"
| "queueStep (TryPopBatch n) q = batchResult q (tryPopBatch [] n q)"
| "queueStep Stop q = ([], stopQueue q)"

fun queueRun :: "'e queue_op list \<Rightarrow> 'e event_queue \<Rightarrow> 'e list \<times> 'e event_queue" where
  "queueRun [] q = ([], q)"
| "queueRun (op # ops) q =
     (let (d, q') = queueStep op q; (ds, q'') = queueRun ops q' in (d @ ds, q''))"

fun pushedBy :: "'e queue_op \<Rightarrow> 'e list" where
  "pushedBy (Push e) = [e]"
| "pushedBy (PushBatch es) = es"
| "pushedBy _ = []"

lemma pushBatch_items: "q_items (pushBatch es q) = q_items q @ es"
  unfolding pushBatch_def
  by (induction es arbitrary: q) (simp_all add: pushEvent_def)

lemma batchResult_conserves:
  "fst (batchResult q (takeBatch [] n q)) @ q_items (snd (batchResult q (takeBatch [] n q)))
     = q_items q"
  by (auto simp: batchResult_def split: sum.splits dest: takeBatch_ok)

lemma queueStep_conserves:
  "fst (queueStep op q) @ q_items (snd (queueStep op q)) = q_items q @ pushedBy op"
proof (cases op)
  case Pop
  then show ?thesis by (auto simp: popEvent_def wouldWait_def split: list.splits)
next
  case (PopBatch n)
  then show ?thesis using batchResult_conserves [of q n] by (simp add: popBatch_def)
next
  case (TryPopBatch n)
  then show ?thesis using batchResult_conserves [of q n]
    by (auto simp: tryPopBatch_def wouldWait_def batchResult_def)
qed (simp_all add: pushEvent_def pushBatch_items stopQueue_def)

text \<open>One batch less at each round.\<close>

lemma drain_eq:
  assumes "intLength q"
  shows "drain q = (if q_stopped q then Done (Inr (q\<lparr>q_items := []\<rparr>)) else Blocks)"
  using assms
proof (induction q rule: drain.induct)
  case (1 q)
  show ?case
  proof (cases "q_items q")
    case Nil
    then show ?thesis
      by (subst drain.simps) (simp add: popBatch_def wouldWait_def takeBatch_def)
  next
    case (Cons e es)
    let ?q' = "q\<lparr>q_items := drop 1024 (q_items q)\<rparr>"
    have k: "in_int (int (length (q_items q)))" using 1(2) by (simp add: in_int_def INT_MIN_def)
    have pb: "popBatch [] 1024 q = Done (Inr (True, take 1024 (q_items q), ?q'))"
      using Cons reserve_small [of 1024, OF _ _ _ k]
      by (simp add: popBatch_def wouldWait_def takeBatch_def popLoop_eq Let_def in_int_def
          INT_MIN_def INT_MAX_def)
    have "drain ?q' = (if q_stopped ?q' then Done (Inr (?q'\<lparr>q_items := []\<rparr>)) else Blocks)"
      by (rule 1(1) [OF pb refl refl refl]) (use 1(2) in simp_all)
    then show ?thesis by (subst drain.simps) (simp add: pb)
  qed
qed

section \<open>Properties\<close>

text \<open>C27: over any run of queue operations, batched or single, blocking or timed, stopped or not,
  the delivered events followed by those still queued are exactly the initial ones followed by the
  pushed ones, in order: nothing is lost, duplicated or reordered.\<close>

theorem queue_conserves_order:
  "fst (queueRun ops q) @ q_items (snd (queueRun ops q)) = q_items q @ concat (map pushedBy ops)"
proof (induction ops arbitrary: q)
  case Nil
  then show ?case by simp
next
  case (Cons op ops)
  obtain d q' where s: "queueStep op q = (d, q')" by fastforce
  obtain ds q'' where r: "queueRun ops q' = (ds, q'')" by fastforce
  have "d @ q_items q' = q_items q @ pushedBy op" "ds @ q_items q'' = q_items q' @ concat (map pushedBy ops)"
    using queueStep_conserves [of op q] Cons.IH [of q'] by (simp_all add: s r)
  then show ?case by (simp add: s r)
qed

text \<open>After \<open>stop\<close>, \<open>drain\<close> returns and leaves the queue empty, whatever is still queued (up to
  the \<open>INT_MAX\<close> events the batch size computation can count); on a queue that is not stopped it
  ends up waiting for ever.\<close>

lemma drain_after_stop:
  assumes "intLength q"
  shows "drain q = (if q_stopped q then Done (Inr (q\<lparr>q_items := []\<rparr>)) else Blocks)"
  by (rule drain_eq [OF assms])

lemma drain_after_stop_witness:
  "drain (stopQueue (pushEvent (3::nat) (pushEvent 2 newQueue)))
     = Done (Inr \<lparr>q_items = [], q_stopped = True\<rparr>)"
  using drain_after_stop [of "stopQueue (pushEvent (3::nat) (pushEvent 2 newQueue))"]
  by (simp add: stopQueue_def pushEvent_def newQueue_def INT_MAX_def)

end
