(* ===== verification/Versions.thy ===== *)
theory Versions
  imports Framing "HOL-Library.Multiset"
begin

text \<open>
  The client version gate (\<open>parseVersion\<close>, \<open>compareVersions\<close> and the decision of
  \<open>NetworkManager::checkClientVersion\<close>) and the attempt counters of
  \<open>include/utils/VersionStats.hpp\<close>. The lemmas relate the gate to the lexicographic order of
  version triples and bound what a client can make the counters hold.
\<close>

section \<open>Parsing and comparing\<close>

record Version =
  major :: int
  minor :: int
  patch :: int

definition parseVersion :: "string \<Rightarrow> Version option" where
  "parseVersion s =
     (if s = [] then None
      else case getline CHR ''.'' s of None \<Rightarrow> None
       | Some (segment, ss) \<Rightarrow>
          (case stoi segment of Inl e \<Rightarrow> None | Inr v_major \<Rightarrow>
          (case getline CHR ''.'' ss of None \<Rightarrow> None
           | Some (segment, ss) \<Rightarrow>
              (case stoi segment of Inl e \<Rightarrow> None | Inr v_minor \<Rightarrow>
              (case getline CHR ''.'' ss of None \<Rightarrow> None
               | Some (segment, ss) \<Rightarrow>
                  (case stoi segment of Inl e \<Rightarrow> None | Inr v_patch \<Rightarrow>
                     Some \<lparr>major = v_major, minor = v_minor, patch = v_patch\<rparr>))))))"

text \<open>
  The differences are \<open>int\<close> subtractions. Signed overflow is undefined in C++; the model wraps as
  the compiled code does, and the lemmas say for which operands no overflow happens.
\<close>

definition compareVersions :: "Version \<Rightarrow> Version \<Rightarrow> int" where
  "compareVersions a b =
     (if major a \<noteq> major b then int32 (major a - major b)
      else if minor a \<noteq> minor b then int32 (minor a - minor b)
      else int32 (patch a - patch b))"

datatype gate = Accepted | VersionOutdated | VersionTooNew

definition versionGate :: "string \<Rightarrow> string \<Rightarrow> string \<Rightarrow> gate" where
  "versionGate minVer maxVer clientVersion =
     (case (parseVersion clientVersion, parseVersion minVer, parseVersion maxVer) of
        (Some client, Some vmin, Some vmax) \<Rightarrow>
          if compareVersions client vmin < 0 then VersionOutdated
          else if compareVersions client vmax > 0 then VersionTooNew
          else Accepted
      | _ \<Rightarrow> VersionOutdated)"

section \<open>The gate and the order of versions\<close>

text \<open>A version as its author writes it, and the order on versions as triples.\<close>

definition showVersion :: "nat \<Rightarrow> nat \<Rightarrow> nat \<Rightarrow> string" where
  "showVersion a b c = show_nat a @ ''.'' @ show_nat b @ ''.'' @ show_nat c"

definition versionLess :: "Version \<Rightarrow> Version \<Rightarrow> bool" where
  "versionLess a b \<longleftrightarrow>
     major a < major b \<or> major a = major b \<and>
       (minor a < minor b \<or> minor a = minor b \<and> patch a < patch b)"

definition natural :: "Version \<Rightarrow> bool" where
  "natural v \<longleftrightarrow> 0 \<le> major v \<and> 0 \<le> minor v \<and> 0 \<le> patch v \<and>
     major v \<le> INT_MAX \<and> minor v \<le> INT_MAX \<and> patch v \<le> INT_MAX"

lemma dot_not_digit [simp]: "\<not> is_digit CHR ''.''"
  by (simp add: is_digit_def)

lemma show_nat_no_dot: "\<forall>c \<in> set (show_nat n). c \<noteq> CHR ''.''"
  using show_nat_digits [of n] digit_not_sign by blast

lemma takeWhile_no_dot:
  "\<forall>c \<in> set a. c \<noteq> CHR ''.'' \<Longrightarrow> takeWhile (\<lambda>c. c \<noteq> CHR ''.'') (a @ CHR ''.'' # r) = a"
  "\<forall>c \<in> set a. c \<noteq> CHR ''.'' \<Longrightarrow> dropWhile (\<lambda>c. c \<noteq> CHR ''.'') (a @ CHR ''.'' # r) = CHR ''.'' # r"
  by (induction a) auto

lemma getline_segment:
  "getline CHR ''.'' (show_nat n @ CHR ''.'' # r) = Some (show_nat n, r)"
  using takeWhile_no_dot [OF show_nat_no_dot [of n], of r] by (simp add: getline_def)

lemma getline_last: "getline CHR ''.'' (show_nat n) = Some (show_nat n, [])"
proof -
  have "takeWhile (\<lambda>c. c \<noteq> CHR ''.'') (show_nat n) = show_nat n"
    using show_nat_no_dot [of n] by (simp add: takeWhile_eq_all_conv)
  moreover have "dropWhile (\<lambda>c. c \<noteq> CHR ''.'') (show_nat n) = []"
    using show_nat_no_dot [of n] by (simp add: dropWhile_eq_Nil_conv)
  ultimately show ?thesis unfolding getline_def by (metis drop_Nil show_nat_nonempty)
qed

lemma stoi_show: "int n \<le> INT_MAX \<Longrightarrow> stoi (show_nat n) = Inr (int n)"
  using stoi_show_nat [of n "[]"] by simp

lemma compare_no_overflow:
  assumes "0 \<le> a" "a \<le> INT_MAX" "0 \<le> b" "b \<le> INT_MAX"
  shows "int32 (a - b) = a - b"
  using assms by (simp add: in_int_def INT_MIN_def INT_MAX_def)

lemma compareVersions_order:
  assumes "natural a" and "natural b"
  shows "compareVersions a b < 0 \<longleftrightarrow> versionLess a b"
    and "compareVersions a b > 0 \<longleftrightarrow> versionLess b a"
  using assms
  by (auto simp: natural_def compareVersions_def compare_no_overflow versionLess_def)

lemma parseVersion_in_int:
  "parseVersion s = Some v \<Longrightarrow> in_int (major v) \<and> in_int (minor v) \<and> in_int (patch v)"
  unfolding parseVersion_def
  by (simp split: if_splits option.splits sum.splits prod.splits) (auto dest!: stoi_in_int)

lemma versionGate_cases:
  "versionGate lo hi s = Accepted \<longleftrightarrow>
     (\<exists>c l h. parseVersion s = Some c \<and> parseVersion lo = Some l \<and> parseVersion hi = Some h \<and>
              \<not> compareVersions c l < 0 \<and> \<not> compareVersions c h > 0)"
  by (auto simp: versionGate_def split: option.splits)

section \<open>VersionStats\<close>

record VersionStats =
  vs_counts :: "(string \<times> 64 word) list"
  vs_total :: "64 word"

definition kMaxKeyLen :: nat where "kMaxKeyLen = 32"
definition kMaxDistinct :: nat where "kMaxDistinct = 64"
definition kOtherBucket :: string where "kOtherBucket = ''_other''"
definition kEmptyBucket :: string where "kEmptyBucket = ''(empty)''"

definition newStats :: VersionStats where
  "newStats = \<lparr>vs_counts = [], vs_total = 0\<rparr>"

text \<open>\<open>++counts_[key]\<close>: a missing key starts at 0.\<close>

definition countUp :: "string \<Rightarrow> (string \<times> 64 word) list \<Rightarrow> (string \<times> 64 word) list" where
  "countUp key m =
     AList.update key ((case map_of m key of None \<Rightarrow> 0 | Some n \<Rightarrow> n) + 1) m"

definition statsKey :: "string \<Rightarrow> string" where
  "statsKey version =
     (let key = take kMaxKeyLen version in if key = [] then kEmptyBucket else key)"

definition recordVersion :: "string \<Rightarrow> VersionStats \<Rightarrow> VersionStats" where
  "recordVersion version vs =
     (let key = statsKey version;
          counts = (case map_of (vs_counts vs) key of
                      None \<Rightarrow> if length (vs_counts vs) \<ge> kMaxDistinct
                              then countUp kOtherBucket (vs_counts vs)
                              else countUp key (vs_counts vs)
                    | Some n \<Rightarrow> countUp key (vs_counts vs))
      in vs\<lparr>vs_counts := counts, vs_total := vs_total vs + 1\<rparr>)"

text \<open>
  \<open>std::sort\<close> by descending count leaves the order of equal counts open; the model takes the stable
  one.
\<close>

definition sortRows :: "(string \<times> 64 word) list \<Rightarrow> (string \<times> 64 word) list" where
  "sortRows rows = sort_key (\<lambda>row. - uint (snd row)) rows"

fun joinRows :: "string \<Rightarrow> (string \<times> 64 word) list \<Rightarrow> string" where
  "joinRows out [] = out"
| "joinRows out (row # rows) =
     joinRows ((if out \<noteq> [] then out @ '' '' else out) @ fst row @ ''='' @ show_nat (unat (snd row)))
       rows"

definition snapshot :: "VersionStats \<Rightarrow> string" where
  "snapshot vs =
     (if vs_counts vs = [] then []
      else joinRows [] (sortRows (vs_counts vs)) @ '' (n='' @ show_nat (unat (vs_total vs)) @ '')'')"

definition statsTotal :: "VersionStats \<Rightarrow> 64 word" where
  "statsTotal vs = vs_total vs"

definition clearStats :: "VersionStats \<Rightarrow> VersionStats" where
  "clearStats vs = newStats"

definition stats_ok :: "VersionStats \<Rightarrow> bool" where
  "stats_ok vs \<longleftrightarrow>
     dkeys (vs_counts vs) \<and>
     (length (vs_counts vs) \<le> kMaxDistinct \<or>
      length (vs_counts vs) = Suc kMaxDistinct \<and> map_of (vs_counts vs) kOtherBucket \<noteq> None) \<and>
     (\<forall>(k, n) \<in> set (vs_counts vs). k \<noteq> [] \<and> length k \<le> kMaxKeyLen) \<and>
     vs_total vs = sum_list (map snd (vs_counts vs))"

lemma length_update:
  "length (AList.update k v m) = (if map_of m k = None then Suc (length m) else length m)"
  by (induction m) auto

lemma sum_countUp: "dkeys m \<Longrightarrow> sum_list (map snd (countUp k m)) = sum_list (map snd m) + 1"
proof (induction m)
  case Nil
  then show ?case by (simp add: countUp_def)
next
  case (Cons p m)
  then show ?case by (cases p) (auto simp: countUp_def algebra_simps split: option.splits)
qed

lemma countUp_keys:
  "k \<noteq> [] \<Longrightarrow> length k \<le> n \<Longrightarrow> \<forall>(k, v) \<in> set m. k \<noteq> [] \<and> length k \<le> n \<Longrightarrow>
    \<forall>(k, v) \<in> set (countUp k m). k \<noteq> [] \<and> length k \<le> n"
  by (auto simp: countUp_def dest!: set_update_cases)

lemma dkeys_countUp: "dkeys m \<Longrightarrow> dkeys (countUp k m)"
  by (simp add: countUp_def)

lemma map_of_countUp: "map_of (countUp k m) j = None \<longleftrightarrow> j \<noteq> k \<and> map_of m j = None"
  by (auto simp: countUp_def)

lemma length_countUp:
  "length (countUp k m) = (if map_of m k = None then Suc (length m) else length m)"
  by (simp add: countUp_def length_update)

lemma statsKey_ok: "statsKey v \<noteq> [] \<and> length (statsKey v) \<le> kMaxKeyLen"
  by (auto simp: statsKey_def Let_def kMaxKeyLen_def kEmptyBucket_def)

lemma other_key_ok: "kOtherBucket \<noteq> [] \<and> length kOtherBucket \<le> kMaxKeyLen"
  by (simp add: kOtherBucket_def kMaxKeyLen_def)

lemma stats_ok_countUp:
  assumes ok: "stats_ok vs" and k: "k \<noteq> [] \<and> length k \<le> kMaxKeyLen"
    and room: "map_of (vs_counts vs) k \<noteq> None \<or> k = kOtherBucket \<or>
               length (vs_counts vs) < kMaxDistinct"
  shows "stats_ok (vs\<lparr>vs_counts := countUp k (vs_counts vs), vs_total := vs_total vs + 1\<rparr>)"
proof -
  have "length (countUp k (vs_counts vs)) \<le> kMaxDistinct \<or>
      length (countUp k (vs_counts vs)) = Suc kMaxDistinct \<and>
      map_of (countUp k (vs_counts vs)) kOtherBucket \<noteq> None"
    using ok room by (auto simp: stats_ok_def length_countUp map_of_countUp)
  then show ?thesis
    using ok k countUp_keys [of k kMaxKeyLen "vs_counts vs"]
    by (simp add: stats_ok_def dkeys_countUp sum_countUp)
qed

lemma recordVersion_ok: "stats_ok vs \<Longrightarrow> stats_ok (recordVersion v vs)"
  using statsKey_ok [of v] other_key_ok
  by (auto simp: recordVersion_def Let_def intro!: stats_ok_countUp split: option.splits)

lemma newStats_ok: "stats_ok newStats"
  by (simp add: stats_ok_def newStats_def)

lemma fold_recordVersion_ok: "stats_ok vs \<Longrightarrow> stats_ok (fold recordVersion versions vs)"
  by (induction versions arbitrary: vs) (auto simp: recordVersion_ok)

lemma fold_recordVersion_total:
  "vs_total (fold recordVersion versions vs) = vs_total vs + word_of_nat (length versions)"
  by (induction versions arbitrary: vs) (auto simp: recordVersion_def Let_def algebra_simps)

lemma sortRows_perm: "mset (sortRows rows) = mset rows"
  by (simp add: sortRows_def)

lemma sortRows_desc: "sorted_wrt (\<lambda>a b. snd b \<le> snd a) (sortRows rows)"
proof -
  have "sorted (map (\<lambda>row. - uint (snd row)) (sortRows rows))"
    unfolding sortRows_def by (rule sorted_sort_key)
  then show ?thesis by (simp add: sorted_map word_le_def)
qed

section \<open>Properties\<close>

text \<open>C31: for versions written as three decimal numbers that fit an \<open>int\<close>, the gate accepts exactly
  the interval from the minimum to the maximum in lexicographic order, reports everything below as
  outdated and everything above as too new.\<close>

theorem versionGate_interval:
  assumes "int a \<le> INT_MAX" "int b \<le> INT_MAX" "int c \<le> INT_MAX"
    and "parseVersion minVer = Some vmin" "natural vmin"
    and "parseVersion maxVer = Some vmax" "natural vmax"
  defines "v \<equiv> \<lparr>major = int a, minor = int b, patch = int c\<rparr>"
  shows "versionGate minVer maxVer (showVersion a b c) =
           (if versionLess v vmin then VersionOutdated
            else if versionLess vmax v then VersionTooNew else Accepted)"
proof -
  have "parseVersion (showVersion a b c) = Some v"
    using assms(1-3) stoi_show
    by (simp add: parseVersion_def showVersion_def getline_segment getline_last v_def)
  moreover have "natural v" using assms(1-3) by (simp add: natural_def v_def)
  ultimately show ?thesis
    using assms(4-7) by (simp add: versionGate_def compareVersions_order)
qed

theorem versionGate_interval_witness:
  "versionGate ''0.1.2'' ''0.1.4'' (showVersion 0 1 3) = Accepted \<and>
   versionGate ''0.1.2'' ''0.1.4'' (showVersion 0 1 1) = VersionOutdated \<and>
   versionGate ''0.1.2'' ''0.1.4'' (showVersion 1 0 0) = VersionTooNew"
proof -
  have p: "parseVersion ''0.1.2'' = Some \<lparr>major = 0, minor = 1, patch = 2\<rparr>"
    "parseVersion ''0.1.4'' = Some \<lparr>major = 0, minor = 1, patch = 4\<rparr>"
    by code_simp+
  note i = versionGate_interval [OF _ _ _ p(1) _ p(2)]
  show ?thesis
    using i [of 0 1 3] i [of 0 1 1] i [of 1 0 0]
    by (simp add: natural_def INT_MAX_def versionLess_def)
qed


text \<open>Whatever versions clients send, the counters hold at most 64 of them besides the overflow
  bucket, under keys of at most 32 characters, and the total is both the number of attempts and the
  sum of the counters (modulo \<open>2^64\<close>).\<close>

lemma versionStats_bounded:
  "length (vs_counts (fold recordVersion versions newStats)) \<le> Suc kMaxDistinct \<and>
   (\<forall>(k, n) \<in> set (vs_counts (fold recordVersion versions newStats)). length k \<le> 32) \<and>
   vs_total (fold recordVersion versions newStats) = word_of_nat (length versions) \<and>
   vs_total (fold recordVersion versions newStats) =
     sum_list (map snd (vs_counts (fold recordVersion versions newStats)))"
  using fold_recordVersion_ok [OF newStats_ok, of versions]
    fold_recordVersion_total [of versions newStats]
  by (auto simp: stats_ok_def newStats_def kMaxKeyLen_def)

lemma versionStats_bounded_witness:
  "vs_counts (fold recordVersion [''0.1.0'', '''', ''0.1.0''] newStats)
      = [(''0.1.0'', 2), (''(empty)'', 1)] \<and>
   vs_total (fold recordVersion [''0.1.0'', '''', ''0.1.0''] newStats) = 3 \<and>
   length (vs_counts (fold recordVersion [''0.1.0'', '''', ''0.1.0''] newStats)) \<le> Suc kMaxDistinct"
  using versionStats_bounded [of "[''0.1.0'', '''', ''0.1.0'']"]
  by (simp add: recordVersion_def newStats_def statsKey_def countUp_def kMaxKeyLen_def
      kMaxDistinct_def kEmptyBucket_def kOtherBucket_def)

end
