(* ===== verification/Configuration.thy ===== *)
theory Configuration
  imports Json
begin

text \<open>
  \<open>Config\<close> (\<open>src/utils/Config.cpp\<close>): compiled defaults, then an optional JSON file, then environment
  variables. The environment is a function, the file its content if it can be opened. The lemmas
  bound every numeric setting and describe the layering.
\<close>

type_synonym environment = "string \<Rightarrow> string option"

record DatabaseConfig =
  db_dbname :: string
  db_user :: string
  db_password :: string
  db_host :: string
  db_port :: int

record LoginServerConfig =
  ls_host :: string
  ls_port :: int
  ls_max_clients :: int
  ls_minClientVersion :: string
  ls_maxClientVersion :: string
  ls_sessionCleanupMs :: int

definition defaultLoginServerConfig :: LoginServerConfig where
  "defaultLoginServerConfig =
     \<lparr>ls_host = [], ls_port = 27014, ls_max_clients = 3000, ls_minClientVersion = ''0.1.0'',
      ls_maxClientVersion = ''0.1.0'', ls_sessionCleanupMs = 60000\<rparr>"

definition getEnvOrDefault :: "environment \<Rightarrow> string \<Rightarrow> string \<Rightarrow> string" where
  "getEnvOrDefault env name defaultVal =
     (case env name of None \<Rightarrow> defaultVal | Some v \<Rightarrow> if v \<noteq> [] then v else defaultVal)"

definition envPresent :: "environment \<Rightarrow> string \<Rightarrow> bool" where
  "envPresent env name \<longleftrightarrow> (case env name of None \<Rightarrow> False | Some v \<Rightarrow> v \<noteq> [])"

text \<open>\<open>std::stoi\<close>, the range check, and the two handlers that turn their exceptions into one that
  names the variable.\<close>

definition checkedInt ::
  "int \<Rightarrow> int \<Rightarrow> string \<Rightarrow> string \<Rightarrow> string \<Rightarrow> string \<Rightarrow> exn + int" where
  "checkedInt lo hi rangeMsg expected varName raw =
     (case (case stoi raw of
              Inl e \<Rightarrow> Inl e
            | Inr v \<Rightarrow> if v < lo \<or> v > hi then Inl (OutOfRange rangeMsg) else Inr v) of
        Inl (InvalidArgument m) \<Rightarrow>
          Inl (RuntimeError (''Config: invalid integer in '' @ varName @ ''='' @ [CHR 0x27] @ raw @ [CHR 0x27]))
      | Inl (OutOfRange m) \<Rightarrow>
          Inl (RuntimeError (''Config: value out of range in '' @ varName @ ''='' @ [CHR 0x27] @ raw
                             @ [CHR 0x27] @ expected))
      | r \<Rightarrow> r)"

definition parsePort :: "string \<Rightarrow> string \<Rightarrow> exn + int" where
  "parsePort varName raw = checkedInt 1 65535 ''port out of range 1..65535'' [] varName raw"

definition parsePositiveInt :: "string \<Rightarrow> string \<Rightarrow> int \<Rightarrow> int \<Rightarrow> exn + int" where
  "parsePositiveInt varName raw lo hi =
     checkedInt lo hi ''out of range''
       ('' (expected '' @ to_string lo @ ''..'' @ to_string hi @ '')'') varName raw"

text \<open>\<open>None\<close> is a file that cannot be opened.\<close>

definition loadJsonFile :: "json_lib \<Rightarrow> string \<Rightarrow> string option \<Rightarrow> exn + json" where
  "loadJsonFile L path file =
     (case file of
        None \<Rightarrow> Inr json_object
      | Some content \<Rightarrow>
          (case json_read L content of
             Inl (JsonException m) \<Rightarrow>
               Inl (RuntimeError (''Config: cannot parse '' @ [CHR 0x27] @ path @ [CHR 0x27] @ '': '' @ m))
           | Inl e \<Rightarrow> Inl e
           | Inr j \<Rightarrow>
               if is_object j then Inr j
               else Inl (RuntimeError (''Config: '' @ [CHR 0x27] @ path @ [CHR 0x27] @
                                       '' root must be a JSON object''))))"

definition jsonStr :: "json \<Rightarrow> string \<Rightarrow> string \<Rightarrow> string" where
  "jsonStr j key fallback =
     (if jcontains j key \<and> is_string (jidx j key) then str_of (jidx j key) else fallback)"

text \<open>An optional integer setting of the file: \<open>std::to_string(j[key].get<int>())\<close> is checked.\<close>

definition jsonChecked :: "json \<Rightarrow> string \<Rightarrow> (string \<Rightarrow> exn + int) \<Rightarrow> int \<Rightarrow> exn + int" where
  "jsonChecked j key check fallback =
     (if jcontains j key \<and> is_number_integer (jidx j key)
      then check (to_string (get_int (jidx j key))) else Inr fallback)"

definition envChecked ::
  "environment \<Rightarrow> string \<Rightarrow> string \<Rightarrow> (string \<Rightarrow> exn + int) \<Rightarrow> int \<Rightarrow> exn + int" where
  "envChecked env name defaultVal check fallback =
     (if envPresent env name then check (getEnvOrDefault env name defaultVal) else Inr fallback)"

definition envStr :: "environment \<Rightarrow> string \<Rightarrow> string \<Rightarrow> string \<Rightarrow> string" where
  "envStr env name defaultVal fallback =
     (if envPresent env name then getEnvOrDefault env name defaultVal else fallback)"

definition fileConfig :: "json \<Rightarrow> exn + DatabaseConfig \<times> LoginServerConfig" where
  "fileConfig j =
     bindR (jsonChecked j ''db_port'' (parsePort ''db_port(config.json)'') 5432) (\<lambda>dbPort.
     bindR (jsonChecked j ''session_cleanup_ms''
        (\<lambda>raw. parsePositiveInt ''session_cleanup_ms(config.json)'' raw 1000 3600000)
        (ls_sessionCleanupMs defaultLoginServerConfig)) (\<lambda>cleanup.
     bindR (jsonChecked j ''server_port'' (parsePort ''server_port(config.json)'') 27014) (\<lambda>port.
     bindR (jsonChecked j ''server_max_clients''
        (\<lambda>raw. parsePositiveInt ''server_max_clients(config.json)'' raw 1 100000) 3000) (\<lambda>maxClients.
     Inr (\<lparr>db_dbname = jsonStr j ''db_name'' ''mmo_prototype'',
           db_user = jsonStr j ''db_user'' ''postgres'',
           db_password = jsonStr j ''db_password'' [],
           db_host = jsonStr j ''db_host'' ''127.0.0.1'',
           db_port = dbPort\<rparr>,
          \<lparr>ls_host = jsonStr j ''server_host'' ''0.0.0.0'',
           ls_port = port,
           ls_max_clients = maxClients,
           ls_minClientVersion = jsonStr j ''min_client_version'' ''0.1.0'',
           ls_maxClientVersion = jsonStr j ''max_client_version'' ''0.1.0'',
           ls_sessionCleanupMs = cleanup\<rparr>)))))"

definition envConfig ::
  "environment \<Rightarrow> DatabaseConfig \<times> LoginServerConfig \<Rightarrow> exn + DatabaseConfig \<times> LoginServerConfig" where
  "envConfig env cfg =
     (let (db, ls) = cfg in
      bindR (envChecked env ''DB_PORT'' ''5432'' (parsePort ''DB_PORT'') (db_port db)) (\<lambda>dbPort.
      bindR (envChecked env ''SERVER_PORT'' ''27014'' (parsePort ''SERVER_PORT'') (ls_port ls)) (\<lambda>port.
      bindR (envChecked env ''SERVER_MAX_CLIENTS'' ''3000''
         (\<lambda>raw. parsePositiveInt ''SERVER_MAX_CLIENTS'' raw 1 100000) (ls_max_clients ls)) (\<lambda>maxClients.
      bindR (envChecked env ''SESSION_CLEANUP_MS'' ''60000''
         (\<lambda>raw. parsePositiveInt ''SESSION_CLEANUP_MS'' raw 1000 3600000)
         (ls_sessionCleanupMs ls)) (\<lambda>cleanup.
      Inr (\<lparr>db_dbname = envStr env ''DB_NAME'' ''mmo_prototype'' (db_dbname db),
            db_user = envStr env ''DB_USER'' ''postgres'' (db_user db),
            db_password = envStr env ''DB_PASSWORD'' [] (db_password db),
            db_host = envStr env ''DB_HOST'' ''127.0.0.1'' (db_host db),
            db_port = dbPort\<rparr>,
           \<lparr>ls_host = envStr env ''SERVER_HOST'' ''0.0.0.0'' (ls_host ls),
            ls_port = port,
            ls_max_clients = maxClients,
            ls_minClientVersion = envStr env ''MIN_CLIENT_VERSION'' ''0.1.0'' (ls_minClientVersion ls),
            ls_maxClientVersion = envStr env ''MAX_CLIENT_VERSION'' ''0.1.0'' (ls_maxClientVersion ls),
            ls_sessionCleanupMs = cleanup\<rparr>))))))"

definition parseConfig ::
  "json_lib \<Rightarrow> environment \<Rightarrow> string \<Rightarrow> string option \<Rightarrow> exn + DatabaseConfig \<times> LoginServerConfig" where
  "parseConfig L env jsonPath file =
     bindR (loadJsonFile L jsonPath file) (\<lambda>j. bindR (fileConfig j) (envConfig env))"

section \<open>Lemmas\<close>

lemma checkedInt_range:
  "checkedInt lo hi m x var raw = Inr v \<longleftrightarrow> stoi raw = Inr v \<and> lo \<le> v \<and> v \<le> hi"
  by (auto simp: checkedInt_def split: sum.splits exn.splits)

lemma checkedInt_error:
  "checkedInt lo hi m x var raw = Inl e \<Longrightarrow> \<exists>w. e = RuntimeError w"
  using stoi_errors [of raw] by (auto simp: checkedInt_def split: sum.splits exn.splits if_splits)

lemma parsePort_range: "parsePort var raw = Inr v \<longleftrightarrow> stoi raw = Inr v \<and> 1 \<le> v \<and> v \<le> 65535"
  by (simp add: parsePort_def checkedInt_range)

lemma parsePositiveInt_range:
  "parsePositiveInt var raw lo hi = Inr v \<longleftrightarrow> stoi raw = Inr v \<and> lo \<le> v \<and> v \<le> hi"
  by (simp add: parsePositiveInt_def checkedInt_range)

lemma jsonChecked_cases:
  "jsonChecked j key check d = Inr v \<Longrightarrow> v = d \<or> (\<exists>raw. check raw = Inr v)"
  by (auto simp: jsonChecked_def split: if_splits)

lemma envChecked_cases:
  "envChecked env name dv check d = Inr v \<Longrightarrow> v = d \<or> (\<exists>raw. check raw = Inr v)"
  by (auto simp: envChecked_def split: if_splits)

definition config_ok :: "DatabaseConfig \<times> LoginServerConfig \<Rightarrow> bool" where
  "config_ok cfg \<longleftrightarrow>
     1 \<le> db_port (fst cfg) \<and> db_port (fst cfg) \<le> 65535 \<and>
     1 \<le> ls_port (snd cfg) \<and> ls_port (snd cfg) \<le> 65535 \<and>
     1 \<le> ls_max_clients (snd cfg) \<and> ls_max_clients (snd cfg) \<le> 100000 \<and>
     1000 \<le> ls_sessionCleanupMs (snd cfg) \<and> ls_sessionCleanupMs (snd cfg) \<le> 3600000"

lemma fileConfig_ok: "fileConfig j = Inr cfg \<Longrightarrow> config_ok cfg"
  unfolding fileConfig_def bindR_Inr
  by (auto simp: config_ok_def parsePort_range parsePositiveInt_range defaultLoginServerConfig_def
      dest!: jsonChecked_cases)

lemma envConfig_ok: "envConfig env cfg = Inr cfg' \<Longrightarrow> config_ok cfg \<Longrightarrow> config_ok cfg'"
  by (cases cfg) (auto simp: envConfig_def bindR_Inr config_ok_def parsePort_range
      parsePositiveInt_range dest!: envChecked_cases)

lemma envConfig_sel:
  assumes "envConfig env cfg = Inr cfg'"
  shows "envChecked env ''SERVER_PORT'' ''27014'' (parsePort ''SERVER_PORT'') (ls_port (snd cfg))
           = Inr (ls_port (snd cfg'))"
    and "envChecked env ''DB_PORT'' ''5432'' (parsePort ''DB_PORT'') (db_port (fst cfg))
           = Inr (db_port (fst cfg'))"
    and "ls_host (snd cfg') = envStr env ''SERVER_HOST'' ''0.0.0.0'' (ls_host (snd cfg))"
    and "ls_minClientVersion (snd cfg') =
           envStr env ''MIN_CLIENT_VERSION'' ''0.1.0'' (ls_minClientVersion (snd cfg))"
    and "ls_maxClientVersion (snd cfg') =
           envStr env ''MAX_CLIENT_VERSION'' ''0.1.0'' (ls_maxClientVersion (snd cfg))"
  using assms by (cases cfg; auto simp: envConfig_def bindR_Inr)+

section \<open>Properties\<close>

text \<open>C32: whatever the file and the environment hold, a configuration that is returned has both ports
  in 1..65535, the client limit in 1..100000 and the cleanup period in 1000..3600000 ms, so the
  doubled period the session sweep uses fits an \<open>int\<close>.\<close>

theorem parseConfig_in_range:
  assumes "parseConfig L env path file = Inr cfg"
  shows "config_ok cfg \<and> in_int (2 * ls_sessionCleanupMs (snd cfg))"
proof -
  have "config_ok cfg"
    using assms unfolding parseConfig_def bindR_Inr by (blast intro: envConfig_ok fileConfig_ok)
  then show ?thesis by (simp add: config_ok_def in_int_def INT_MIN_def INT_MAX_def)
qed

definition noLib :: json_lib where
  "noLib = \<lparr>json_parse = (\<lambda>s. Inl (JsonException ''parse error'')),
            json_read = (\<lambda>s. Inl (JsonException ''parse error'')),
            json_dump = (\<lambda>j. Inr []), f64_to_f32 = (\<lambda>_. 0), int_to_f32 = (\<lambda>_. 0),
            f64_to_ll = (\<lambda>_. 0)\<rparr>"

theorem parseConfig_in_range_witness:
  "\<exists>cfg. parseConfig noLib (\<lambda>k. if k = ''SERVER_PORT'' then Some ''65535'' else None)
            ''config.json'' None = Inr cfg \<and>
         ls_port (snd cfg) = 65535 \<and> config_ok cfg \<and> in_int (2 * ls_sessionCleanupMs (snd cfg))"
proof -
  let ?env = "\<lambda>k. if k = ''SERVER_PORT'' then Some ''65535'' else None"
  have s: "stoi ''65535'' = Inr 65535" by (simp add: stoi_eval)
  have p: "parsePort ''SERVER_PORT'' ''65535'' = Inr 65535" by (simp add: parsePort_range s)
  obtain cfg where c: "parseConfig noLib ?env ''config.json'' None = Inr cfg"
    "ls_port (snd cfg) = 65535"
    by (simp add: parseConfig_def loadJsonFile_def json_object_def fileConfig_def jsonChecked_def
        envConfig_def envChecked_def envPresent_def getEnvOrDefault_def p)
  then show ?thesis using parseConfig_in_range [OF c(1)] by blast
qed

text \<open>The environment wins: with \<open>SERVER_PORT\<close> set to a port number, a configuration that is
  returned has that port whatever the file says, and an unset variable leaves the file's value.\<close>

lemma env_overrides_file:
  assumes "parseConfig L env path file = Inr cfg"
    and "1 \<le> p" "p \<le> 65535" and "env ''SERVER_PORT'' = Some (to_string p)"
    and "env ''SERVER_HOST'' = None"
  shows "ls_port (snd cfg) = p \<and>
         (\<exists>j cfg0. loadJsonFile L path file = Inr j \<and> fileConfig j = Inr cfg0 \<and>
                   ls_host (snd cfg) = ls_host (snd cfg0))"
proof -
  obtain j cfg0 where j: "loadJsonFile L path file = Inr j" "fileConfig j = Inr cfg0"
    "envConfig env cfg0 = Inr cfg"
    using assms(1) by (auto simp: parseConfig_def bindR_Inr)
  have ne: "to_string p \<noteq> []" by (simp add: to_string_def)
  have "in_int p" using assms(2,3) by (simp add: in_int_def INT_MIN_def INT_MAX_def)
  then have "parsePort ''SERVER_PORT'' (to_string p) = Inr p"
    using assms(2,3) by (simp add: parsePort_range stoi_to_string)
  then have "ls_port (snd cfg) = p"
    using envConfig_sel(1) [OF j(3)] ne assms(4)
    by (simp add: envChecked_def envPresent_def getEnvOrDefault_def)
  moreover have "ls_host (snd cfg) = ls_host (snd cfg0)"
    using envConfig_sel(3) [OF j(3)] assms(5) by (simp add: envStr_def envPresent_def)
  ultimately show ?thesis using j(1,2) by blast
qed

lemma env_overrides_file_witness:
  "\<exists>cfg. parseConfig (noLib\<lparr>json_read := (\<lambda>s. Inr (JObj [(''server_host'', JStr ''10.0.0.5''),
                                   (''server_port'', JInt 27100)]))\<rparr>)
            (\<lambda>k. if k = ''SERVER_PORT'' then Some (to_string 27200) else None)
            ''config.json'' (Some '''') = Inr cfg \<and>
         ls_port (snd cfg) = 27200 \<and> ls_host (snd cfg) = ''10.0.0.5''"
proof -
  let ?L = "noLib\<lparr>json_read := (\<lambda>s. Inr (JObj [(''server_host'', JStr ''10.0.0.5''),
                                   (''server_port'', JInt 27100)]))\<rparr>"
  let ?env = "\<lambda>k. if k = ''SERVER_PORT'' then Some (to_string 27200) else None"
  have i: "in_int 27200" "in_int 27100" by (simp_all add: in_int_def INT_MIN_def INT_MAX_def)
  have p: "parsePort v (to_string 27200) = Inr 27200" "parsePort v (to_string 27100) = Inr 27100" for v
    by (simp_all add: parsePort_range stoi_to_string i)
  have ne: "to_string 27200 \<noteq> []" by (simp add: to_string_def)
  obtain cfg where c: "parseConfig ?L ?env ''config.json'' (Some '''') = Inr cfg"
    by (simp add: parseConfig_def loadJsonFile_def fileConfig_def jsonChecked_def i
        envConfig_def envChecked_def envPresent_def getEnvOrDefault_def p ne)
  have "ls_port (snd cfg) = 27200 \<and>
         (\<exists>j cfg0. loadJsonFile ?L ''config.json'' (Some '''') = Inr j \<and> fileConfig j = Inr cfg0 \<and>
                   ls_host (snd cfg) = ls_host (snd cfg0))"
    by (rule env_overrides_file [OF c]) simp_all
  then show ?thesis
    using c by (auto simp: loadJsonFile_def fileConfig_def bindR_Inr jsonStr_def)
qed

text \<open>A malformed or empty configuration file is a fatal error and never silently replaced by
  defaults, whatever the environment says; an unreadable one means the defaults.\<close>

lemma bad_config_file_is_fatal:
  assumes "json_read L content = Inl (JsonException m)"
  shows "(\<exists>w. parseConfig L env path (Some content) = Inl (RuntimeError w)) \<and>
         parseConfig L (\<lambda>_. None) path None =
           Inr (\<lparr>db_dbname = ''mmo_prototype'', db_user = ''postgres'', db_password = [],
                 db_host = ''127.0.0.1'', db_port = 5432\<rparr>,
                \<lparr>ls_host = ''0.0.0.0'', ls_port = 27014, ls_max_clients = 3000,
                 ls_minClientVersion = ''0.1.0'', ls_maxClientVersion = ''0.1.0'',
                 ls_sessionCleanupMs = 60000\<rparr>)"
  using assms
  by (simp add: parseConfig_def loadJsonFile_def fileConfig_def json_object_def jsonChecked_def
      jsonStr_def envConfig_def envChecked_def envStr_def envPresent_def defaultLoginServerConfig_def)

lemma bad_config_file_is_fatal_witness:
  "json_read noLib [] = Inl (JsonException ''parse error'') \<and>
   (\<exists>w. parseConfig noLib (\<lambda>_. None) ''config.json'' (Some []) = Inl (RuntimeError w))"
proof -
  have h: "json_read noLib [] = Inl (JsonException ''parse error'')" by (simp add: noLib_def)
  show ?thesis using h bad_config_file_is_fatal [OF h, of "\<lambda>_. None" "''config.json''"] by blast
qed

end
