(* ===== verification/WriteQueue.thy ===== *)
theory WriteQueue
  imports Data Framing "HOL-Library.Sublist"
begin

text \<open>
  The per-socket write queues of \<open>NetworkManager\<close> (\<open>getOrCreateWriteQueue\<close>, \<open>removeWriteQueue\<close>,
  \<open>gcWriteQueues\<close>, \<open>enqueueWrite\<close>, \<open>doNextWrite\<close>). A socket is an object identity; \<open>addr\<close> gives the
  address its map key is (addresses are reused after an object dies, which is what the owner check
  is for). Queues are objects of their own, because posted handlers keep a replaced queue alive.
  The executor is the list of posted handlers, which a strand runs in posting order, and the set of
  writes in flight, which complete in any order. The step relation interleaves them freely.
\<close>

type_synonym qid = nat

record wqueue =
  wq_pending :: "string list"
  wq_writing :: bool
  wq_owner :: sock

record post =
  po_queue :: qid
  po_sock :: sock
  po_data :: string

record netio =
  io_map :: "(nat \<times> qid) list"
  io_heap :: "(qid \<times> wqueue) list"
  io_next :: qid
  io_posted :: "post list"
  io_flight :: "post list"
  io_wire :: "(sock \<times> string) list"
  io_open :: "sock list"
  io_live :: "sock list"
  io_born :: nat

definition newQueueObj :: "sock \<Rightarrow> wqueue" where
  "newQueueObj s = \<lparr>wq_pending = [], wq_writing = False, wq_owner = s\<rparr>"

definition queueAt :: "netio \<Rightarrow> qid \<Rightarrow> wqueue" where
  "queueAt n q = (case map_of (io_heap n) q of None \<Rightarrow> newQueueObj 0 | Some x \<Rightarrow> x)"

definition setQueue :: "qid \<Rightarrow> wqueue \<Rightarrow> netio \<Rightarrow> netio" where
  "setQueue q x n = n\<lparr>io_heap := AList.update q x (io_heap n)\<rparr>"

text \<open>\<open>owner.lock()\<close>: the owner while some \<open>shared_ptr\<close> keeps it alive.\<close>

definition lockOwner :: "netio \<Rightarrow> qid \<Rightarrow> sock option" where
  "lockOwner n q =
     (let s = wq_owner (queueAt n q) in if s \<in> set (io_live n) then Some s else None)"

text \<open>A fresh \<open>SocketWriteQueue\<close> owned by \<open>s\<close>, registered under its address.\<close>

definition registerQueue :: "(sock \<Rightarrow> nat) \<Rightarrow> sock \<Rightarrow> netio \<Rightarrow> qid \<times> netio" where
  "registerQueue addr s n =
     (let q = io_next n in
      (q, n\<lparr>io_map := AList.update (addr s) q (io_map n),
            io_heap := AList.update q (newQueueObj s) (io_heap n),
            io_next := Suc q\<rparr>))"

definition getOrCreateWriteQueue ::
  "(sock \<Rightarrow> nat) \<Rightarrow> sock option \<Rightarrow> netio \<Rightarrow> qid option \<times> netio" where
  "getOrCreateWriteQueue addr socket n =
     (case socket of
        None \<Rightarrow> (None, n)
      | Some s \<Rightarrow>
          (case map_of (io_map n) (addr s) of
             Some q \<Rightarrow>
               if lockOwner n q = Some s then (Some q, n)
               else (let (q', n') = registerQueue addr s n in (Some q', n'))
           | None \<Rightarrow> (let (q', n') = registerQueue addr s n in (Some q', n'))))"

text \<open>The key is a raw pointer, \<open>None\<close> the null one.\<close>

definition removeWriteQueue :: "nat option \<Rightarrow> sock option \<Rightarrow> netio \<Rightarrow> netio" where
  "removeWriteQueue key expectedOwner n =
     (case key of
        None \<Rightarrow> n
      | Some k \<Rightarrow>
          (case map_of (io_map n) k of
             None \<Rightarrow> n
           | Some q \<Rightarrow>
               if expectedOwner \<noteq> None \<and> lockOwner n q \<noteq> None then n
               else n\<lparr>io_map := AList.delete k (io_map n)\<rparr>))"

definition gcWriteQueues :: "netio \<Rightarrow> netio" where
  "gcWriteQueues n =
     n\<lparr>io_map := filter (\<lambda>(k, q). lockOwner n q \<noteq> None) (io_map n)\<rparr>"

definition enqueueWrite :: "(sock \<Rightarrow> nat) \<Rightarrow> sock option \<Rightarrow> string \<Rightarrow> netio \<Rightarrow> netio" where
  "enqueueWrite addr socket data n =
     (case getOrCreateWriteQueue addr socket n of
        (Some q, n') \<Rightarrow>
          n'\<lparr>io_posted := io_posted n' @ [\<lparr>po_queue = q, po_sock = the socket, po_data = data\<rparr>]\<rparr>
      | (None, n') \<Rightarrow> n')"

text \<open>\<open>doNextWrite\<close>, on the strand of queue \<open>q\<close>: \<open>async_write\<close> puts the message in flight.\<close>

definition doNextWrite :: "sock \<Rightarrow> qid \<Rightarrow> netio \<Rightarrow> netio" where
  "doNextWrite s q n =
     (let x = queueAt n q in
      case wq_pending x of
        [] \<Rightarrow> setQueue q (x\<lparr>wq_writing := False\<rparr>) n
      | data # rest \<Rightarrow>
          if s \<notin> set (io_open n)
          then setQueue q (x\<lparr>wq_pending := [], wq_writing := False\<rparr>) n
          else (setQueue q (x\<lparr>wq_pending := rest, wq_writing := True\<rparr>) n)
                 \<lparr>io_flight := io_flight n @ [\<lparr>po_queue = q, po_sock = s, po_data = data\<rparr>]\<rparr>)"

text \<open>The handler \<open>enqueueWrite\<close> posts.\<close>

definition runPosted :: "post \<Rightarrow> netio \<Rightarrow> netio" where
  "runPosted p n =
     (let x = queueAt n (po_queue p);
          n' = setQueue (po_queue p) (x\<lparr>wq_pending := wq_pending x @ [po_data p]\<rparr>) n
      in if wq_writing x then n' else doNextWrite (po_sock p) (po_queue p) n')"

definition closeSocket :: "sock \<Rightarrow> netio \<Rightarrow> netio" where
  "closeSocket s n = n\<lparr>io_open := removeAll s (io_open n)\<rparr>"

text \<open>The completion handler of \<open>async_write\<close>, on success and on error.\<close>

definition writeDone :: "post \<Rightarrow> netio \<Rightarrow> netio" where
  "writeDone p n =
     doNextWrite (po_sock p) (po_queue p)
       (n\<lparr>io_flight := remove1 p (io_flight n),
          io_wire := io_wire n @ [(po_sock p, po_data p)]\<rparr>)"

definition writeFailed :: "post \<Rightarrow> netio \<Rightarrow> netio" where
  "writeFailed p n =
     closeSocket (po_sock p)
       (setQueue (po_queue p)
          ((queueAt n (po_queue p))\<lparr>wq_pending := [], wq_writing := False\<rparr>)
          (n\<lparr>io_flight := remove1 p (io_flight n)\<rparr>))"

definition emptyIO :: netio where
  "emptyIO = \<lparr>io_map = [], io_heap = [], io_next = 0, io_posted = [], io_flight = [],
     io_wire = [], io_open = [], io_live = [], io_born = 0\<rparr>"

section \<open>Steps\<close>

text \<open>
  What can happen next: a connected socket object is made, with an identity of its own and an
  address no live object has; a message is enqueued for a live socket (the label); a strand runs its
  first posted handler; a write completes or fails; a socket is closed; an object without references
  (no posted handler, no write in flight) dies; a dead socket's queue is unregistered; the periodic
  collection runs.
\<close>

definition connectSocket :: "sock \<Rightarrow> netio \<Rightarrow> netio" where
  "connectSocket s n =
     n\<lparr>io_live := s # io_live n, io_open := s # io_open n, io_born := Suc s\<rparr>"

definition expireSocket :: "sock \<Rightarrow> netio \<Rightarrow> netio" where
  "expireSocket s n =
     n\<lparr>io_live := removeAll s (io_live n), io_open := removeAll s (io_open n)\<rparr>"

inductive io_step :: "(sock \<Rightarrow> nat) \<Rightarrow> netio \<Rightarrow> (sock \<times> string) list \<Rightarrow> netio \<Rightarrow> bool" for addr where
  Connect: "s = io_born n \<Longrightarrow> \<forall>t \<in> set (io_live n). addr t \<noteq> addr s \<Longrightarrow>
     io_step addr n [] (connectSocket s n)"
| Enqueue: "s \<in> set (io_live n) \<Longrightarrow>
     io_step addr n [(s, data)] (enqueueWrite addr (Some s) data n)"
| RunHandler: "io_posted n = ps @ p # qs \<Longrightarrow> \<forall>r \<in> set ps. po_queue r \<noteq> po_queue p \<Longrightarrow>
     io_step addr n [] (runPosted p (n\<lparr>io_posted := ps @ qs\<rparr>))"
| WriteOk: "p \<in> set (io_flight n) \<Longrightarrow> io_step addr n [] (writeDone p n)"
| WriteError: "p \<in> set (io_flight n) \<Longrightarrow> io_step addr n [] (writeFailed p n)"
| Close: "io_step addr n [] (closeSocket s n)"
| Expire: "\<forall>p \<in> set (io_posted n) \<union> set (io_flight n). po_sock p \<noteq> s \<Longrightarrow>
     io_step addr n [] (expireSocket s n)"
| Unregister: "io_step addr n [] (removeWriteQueue key (Some s) n)"
| Collect: "io_step addr n [] (gcWriteQueues n)"

inductive io_reach :: "(sock \<Rightarrow> nat) \<Rightarrow> (sock \<times> string) list \<Rightarrow> netio \<Rightarrow> bool" for addr where
  Start: "io_reach addr [] emptyIO"
| Step: "io_reach addr log n \<Longrightarrow> io_step addr n new n' \<Longrightarrow> io_reach addr (log @ new) n'"

inductive_cases io_stepE: "io_step addr n l n'"

section \<open>The invariant\<close>

definition dataOf :: "sock \<Rightarrow> (sock \<times> string) list \<Rightarrow> string list" where
  "dataOf s xs = map snd (filter (\<lambda>x. fst x = s) xs)"

definition postsOf :: "sock \<Rightarrow> post list \<Rightarrow> string list" where
  "postsOf s ps = map po_data (filter (\<lambda>p. po_sock p = s) ps)"

definition pendingOf :: "(sock \<Rightarrow> nat) \<Rightarrow> sock \<Rightarrow> netio \<Rightarrow> string list" where
  "pendingOf addr s n =
     (case map_of (io_map n) (addr s) of
        None \<Rightarrow> []
      | Some q \<Rightarrow> (if wq_owner (queueAt n q) = s then wq_pending (queueAt n q) else []))"

text \<open>The queue objects: who owns them and which of them is writing.\<close>

definition io_shape :: "(sock \<Rightarrow> nat) \<Rightarrow> netio \<Rightarrow> bool" where
  "io_shape addr n \<longleftrightarrow>
     dkeys (io_map n) \<and>
     (\<forall>q x. map_of (io_heap n) q = Some x \<longrightarrow> q < io_next n \<and> wq_owner x < io_born n) \<and>
     (\<forall>k q. map_of (io_map n) k = Some q \<longrightarrow>
        (\<exists>x. map_of (io_heap n) q = Some x \<and> addr (wq_owner x) = k)) \<and>
     (\<forall>p \<in> set (io_posted n) \<union> set (io_flight n). po_sock p \<in> set (io_live n) \<and>
        (\<exists>x. map_of (io_heap n) (po_queue p) = Some x \<and> wq_owner x = po_sock p)) \<and>
     (\<forall>q x. map_of (io_heap n) q = Some x \<longrightarrow> wq_owner x \<in> set (io_live n) \<longrightarrow>
        map_of (io_map n) (addr (wq_owner x)) = Some q) \<and>
     set (io_open n) \<subseteq> set (io_live n) \<and> (\<forall>s \<in> set (io_live n). s < io_born n) \<and>
     inj_on addr (set (io_live n))"

definition io_single :: "netio \<Rightarrow> bool" where
  "io_single n \<longleftrightarrow>
     distinct (map po_queue (io_flight n)) \<and>
     (\<forall>q x. map_of (io_heap n) q = Some x \<longrightarrow>
        (wq_writing x \<longleftrightarrow> q \<in> po_queue ` set (io_flight n)) \<and>
        (wq_pending x \<noteq> [] \<longrightarrow> wq_writing x))"

definition io_data :: "(sock \<Rightarrow> nat) \<Rightarrow> (sock \<times> string) list \<Rightarrow> netio \<Rightarrow> bool" where
  "io_data addr log n \<longleftrightarrow>
     (\<forall>s \<in> set (io_open n). dataOf s log =
        dataOf s (io_wire n) @ postsOf s (io_flight n) @ pendingOf addr s n @ postsOf s (io_posted n)) \<and>
     (\<forall>s. prefix (dataOf s (io_wire n) @ postsOf s (io_flight n)) (dataOf s log)) \<and>
     (\<forall>s. io_born n \<le> s \<longrightarrow> dataOf s log = [])"

definition io_ok :: "(sock \<Rightarrow> nat) \<Rightarrow> (sock \<times> string) list \<Rightarrow> netio \<Rightarrow> bool" where
  "io_ok addr log n \<longleftrightarrow> io_shape addr n \<and> io_single n \<and> io_data addr log n"

lemma dataOf_simps [simp]:
  "dataOf s [] = []" "dataOf s (x # xs) = (if fst x = s then [snd x] else []) @ dataOf s xs"
  "dataOf s (xs @ ys) = dataOf s xs @ dataOf s ys"
  by (simp_all add: dataOf_def)

lemma postsOf_simps [simp]:
  "postsOf s [] = []" "postsOf s (p # ps) = (if po_sock p = s then [po_data p] else []) @ postsOf s ps"
  "postsOf s (ps @ qs) = postsOf s ps @ postsOf s qs"
  by (simp_all add: postsOf_def)

lemma postsOf_empty: "(\<forall>p \<in> set ps. po_sock p \<noteq> s) \<Longrightarrow> postsOf s ps = []"
  by (auto simp: postsOf_def filter_empty_conv)

lemma queueAt_Some: "map_of (io_heap n) q = Some x \<Longrightarrow> queueAt n q = x"
  by (simp add: queueAt_def)

lemma setQueue_sel [simp]:
  "io_map (setQueue q x n) = io_map n" "io_next (setQueue q x n) = io_next n"
  "io_posted (setQueue q x n) = io_posted n" "io_flight (setQueue q x n) = io_flight n"
  "io_wire (setQueue q x n) = io_wire n" "io_open (setQueue q x n) = io_open n"
  "io_live (setQueue q x n) = io_live n" "io_born (setQueue q x n) = io_born n"
  "map_of (io_heap (setQueue q x n)) = (map_of (io_heap n))(q \<mapsto> x)"
  by (simp_all add: setQueue_def)

lemma queueAt_setQueue [simp]: "queueAt (setQueue q x n) r = (if r = q then x else queueAt n r)"
  by (simp add: queueAt_def)

lemma queueAt_upd [simp]:
  "queueAt (n\<lparr>io_map := m\<rparr>) q = queueAt n q" "queueAt (n\<lparr>io_next := k\<rparr>) q = queueAt n q"
  "queueAt (n\<lparr>io_posted := ps\<rparr>) q = queueAt n q" "queueAt (n\<lparr>io_flight := ps\<rparr>) q = queueAt n q"
  "queueAt (n\<lparr>io_wire := w\<rparr>) q = queueAt n q" "queueAt (n\<lparr>io_open := ss\<rparr>) q = queueAt n q"
  "queueAt (n\<lparr>io_live := ss\<rparr>) q = queueAt n q" "queueAt (n\<lparr>io_born := k\<rparr>) q = queueAt n q"
  by (simp_all add: queueAt_def)

lemma pendingOf_upd [simp]:
  "pendingOf addr s (n\<lparr>io_posted := ps\<rparr>) = pendingOf addr s n"
  "pendingOf addr s (n\<lparr>io_flight := ps\<rparr>) = pendingOf addr s n"
  "pendingOf addr s (n\<lparr>io_wire := w\<rparr>) = pendingOf addr s n"
  "pendingOf addr s (n\<lparr>io_open := ss\<rparr>) = pendingOf addr s n"
  "pendingOf addr s (n\<lparr>io_live := ss\<rparr>) = pendingOf addr s n"
  "pendingOf addr s (n\<lparr>io_born := k\<rparr>) = pendingOf addr s n"
  by (simp_all add: pendingOf_def split: option.split)

section \<open>Every step keeps the invariant\<close>

lemma shape_heap: "io_shape addr n \<Longrightarrow> map_of (io_heap n) q = Some x \<Longrightarrow>
    q < io_next n \<and> wq_owner x < io_born n"
  by (auto simp: io_shape_def)

lemma shape_map: "io_shape addr n \<Longrightarrow> map_of (io_map n) k = Some q \<Longrightarrow>
    \<exists>x. map_of (io_heap n) q = Some x \<and> addr (wq_owner x) = k"
  by (auto simp: io_shape_def)

lemma shape_post: "io_shape addr n \<Longrightarrow> p \<in> set (io_posted n) \<union> set (io_flight n) \<Longrightarrow>
    po_sock p \<in> set (io_live n) \<and>
    (\<exists>x. map_of (io_heap n) (po_queue p) = Some x \<and> wq_owner x = po_sock p)"
  by (auto simp: io_shape_def)

lemma shape_live: "io_shape addr n \<Longrightarrow> map_of (io_heap n) q = Some x \<Longrightarrow>
    wq_owner x \<in> set (io_live n) \<Longrightarrow> map_of (io_map n) (addr (wq_owner x)) = Some q"
  by (auto simp: io_shape_def)

lemma shape_same_queue:
  assumes "io_shape addr n" and "p \<in> set (io_posted n) \<union> set (io_flight n)"
    and "r \<in> set (io_posted n) \<union> set (io_flight n)"
  shows "po_queue p = po_queue r \<longleftrightarrow> po_sock p = po_sock r"
proof -
  obtain x where x: "map_of (io_heap n) (po_queue p) = Some x" "wq_owner x = po_sock p"
    and px: "po_sock p \<in> set (io_live n)"
    using shape_post [OF assms(1,2)] by blast
  obtain y where y: "map_of (io_heap n) (po_queue r) = Some y" "wq_owner y = po_sock r"
    and ry: "po_sock r \<in> set (io_live n)"
    using shape_post [OF assms(1,3)] by blast
  have "map_of (io_map n) (addr (po_sock p)) = Some (po_queue p)"
    "map_of (io_map n) (addr (po_sock r)) = Some (po_queue r)"
    using shape_live [OF assms(1) x(1)] shape_live [OF assms(1) y(1)] x y px ry by simp_all
  then show ?thesis using x y by auto
qed

lemma lockOwner_Some:
  "lockOwner n q = Some s \<longleftrightarrow> wq_owner (queueAt n q) = s \<and> s \<in> set (io_live n)"
  by (auto simp: lockOwner_def Let_def)

lemma connect_ok:
  assumes ok: "io_ok addr log n" and s: "s = io_born n"
    and fresh: "\<forall>t \<in> set (io_live n). addr t \<noteq> addr s"
  shows "io_ok addr log (connectSocket s n)"
proof -
  have sh: "io_shape addr n" and da: "io_data addr log n" using ok by (simp_all add: io_ok_def)
  have no: "wq_owner x \<noteq> s" if "map_of (io_heap n) q = Some x" for q x
    using shape_heap [OF sh that] s by simp
  have post: "po_sock p \<noteq> s" if "p \<in> set (io_posted n) \<union> set (io_flight n)" for p
    using shape_post [OF sh that] sh s by (auto simp: io_shape_def)
  have old: "t < io_born n" if "t \<in> set (io_open n)" for t
    using that sh by (auto simp: io_shape_def)
  have "dataOf s log = []" using da s by (simp add: io_data_def)
  moreover have "prefix (dataOf s (io_wire n) @ postsOf s (io_flight n)) (dataOf s log)"
    using da by (simp add: io_data_def)
  moreover have "pendingOf addr s n = []"
    using no shape_map [OF sh] by (fastforce simp: pendingOf_def queueAt_def split: option.splits)
  moreover have "postsOf s (io_posted n) = []" using post by (intro postsOf_empty) blast
  ultimately have "dataOf s log = dataOf s (io_wire n) @ postsOf s (io_flight n)
      @ pendingOf addr s n @ postsOf s (io_posted n)" by simp
  then have "io_data addr log (connectSocket s n)"
    using da s by (auto simp: io_data_def connectSocket_def)
  moreover have "io_shape addr (connectSocket s n)"
    using sh fresh s no
    by (auto simp: io_shape_def connectSocket_def less_Suc_eq inj_on_def)
  ultimately show ?thesis
    using ok by (auto simp: io_ok_def io_single_def connectSocket_def)
qed

lemma close_ok: "io_ok addr log n \<Longrightarrow> io_ok addr log (closeSocket s n)"
  by (auto simp: io_ok_def io_shape_def io_single_def io_data_def closeSocket_def)

lemma expire_ok:
  assumes ok: "io_ok addr log n"
    and idle: "\<forall>p \<in> set (io_posted n) \<union> set (io_flight n). po_sock p \<noteq> s"
  shows "io_ok addr log (expireSocket s n)"
proof -
  have sh: "io_shape addr n" using ok by (simp add: io_ok_def)
  have "io_shape addr (expireSocket s n)"
    using sh idle by (auto simp: io_shape_def expireSocket_def inj_on_def)
  then show ?thesis
    using ok by (auto simp: io_ok_def io_single_def io_data_def expireSocket_def)
qed

text \<open>Dropping map entries of queues whose owner is dead.\<close>

lemma unmap_ok:
  assumes ok: "io_ok addr log n" and m: "dkeys m"
    and sub: "\<And>k. map_of m k = map_of (io_map n) k \<or>
       map_of m k = None \<and> (\<forall>q. map_of (io_map n) k = Some q \<longrightarrow> lockOwner n q = None)"
  shows "io_ok addr log (n\<lparr>io_map := m\<rparr>)"
proof -
  have sh: "io_shape addr n" using ok by (simp add: io_ok_def)
  have dead: "\<not> wq_owner (queueAt n q) \<in> set (io_live n)" if "lockOwner n q = None" for q
    using that by (auto simp: lockOwner_def Let_def split: if_splits)
  have keep: "map_of m (addr (wq_owner x)) = Some q"
    if "map_of (io_heap n) q = Some x" "wq_owner x \<in> set (io_live n)" for q x
    using sub [of "addr (wq_owner x)"] shape_live [OF sh that] dead [of q] that
    by (auto simp: queueAt_Some)
  have pend: "pendingOf addr t (n\<lparr>io_map := m\<rparr>) = pendingOf addr t n" if "t \<in> set (io_open n)" for t
  proof -
    have t: "t \<in> set (io_live n)" using that sh by (auto simp: io_shape_def)
    show ?thesis
      using sub [of "addr t"] dead t
      by (fastforce simp: pendingOf_def split: option.splits)
  qed
  have old: "map_of (io_map n) k = Some q" if "map_of m k = Some q" for k q
    using sub [of k] that by auto
  have "io_shape addr (n\<lparr>io_map := m\<rparr>)"
    using sh m keep old by (auto simp: io_shape_def simp del: map_of_eq_Some_iff)
  then show ?thesis
    using ok pend by (auto simp: io_ok_def io_single_def io_data_def)
qed

lemma unregister_ok:
  assumes ok: "io_ok addr log n"
  shows "io_ok addr log (removeWriteQueue key (Some s) n)"
proof (cases key)
  case None
  then show ?thesis using ok by (simp add: removeWriteQueue_def)
next
  case (Some k)
  have d: "dkeys (io_map n)" using ok by (simp add: io_ok_def io_shape_def)
  show ?thesis
  proof (cases "\<exists>q. map_of (io_map n) k = Some q \<and> lockOwner n q = None")
    case False
    then show ?thesis
      using ok Some by (auto simp: removeWriteQueue_def simp del: map_of_eq_Some_iff split: option.splits)
  next
    case True
    then have r: "removeWriteQueue key (Some s) n = n\<lparr>io_map := AList.delete k (io_map n)\<rparr>"
      using Some by (auto simp: removeWriteQueue_def simp del: map_of_eq_Some_iff)
    show ?thesis
      unfolding r using d True by (intro unmap_ok [OF ok]) (auto simp del: map_of_eq_Some_iff)
  qed
qed

lemma collect_ok:
  assumes "io_ok addr log n"
  shows "io_ok addr log (gcWriteQueues n)"
proof -
  have d: "dkeys (io_map n)" using assms by (simp add: io_ok_def io_shape_def)
  have f: "(\<lambda>(k, q). lockOwner n q \<noteq> None) = (\<lambda>kv. lockOwner n (snd kv) \<noteq> None)" by auto
  show ?thesis
    unfolding gcWriteQueues_def f using d
    by (intro unmap_ok [OF assms])
      (auto simp: map_of_filter_val [where P = "\<lambda>q. \<exists>y. lockOwner n q = Some y"]
         simp del: map_of_eq_Some_iff split: option.splits)
qed

lemma register_ok:
  assumes ok: "io_ok addr log n" and s: "s \<in> set (io_live n)"
    and no: "\<And>q. map_of (io_map n) (addr s) = Some q \<Longrightarrow> lockOwner n q \<noteq> Some s"
    and r: "registerQueue addr s n = (q, n')"
  shows "io_ok addr log n'" and "map_of (io_heap n') q = Some (newQueueObj s)"
proof -
  have sh: "io_shape addr n" and si: "io_single n" and da: "io_data addr log n"
    using ok by (simp_all add: io_ok_def)
  have q: "q = io_next n" and n': "n' = n\<lparr>io_map := AList.update (addr s) q (io_map n),
      io_heap := AList.update q (newQueueObj s) (io_heap n), io_next := Suc q\<rparr>"
    using r by (auto simp: registerQueue_def Let_def)
  have new: "map_of (io_heap n) q = None"
    using shape_heap [OF sh] q by (cases "map_of (io_heap n) q") auto
  then have other: "queueAt n' r = queueAt n r" if "r \<noteq> q" for r
    using that by (simp add: n' queueAt_def)
  have none: "wq_owner x \<noteq> s" if "map_of (io_heap n) r = Some x" for r x
    using shape_live [OF sh that] no [of r] s that by (auto simp: lockOwner_Some queueAt_Some)
  have inj: "inj_on addr (set (io_live n))" using sh by (simp add: io_shape_def)
  have fl: "r \<noteq> q" if "r \<in> po_queue ` set (io_flight n)" for r
    using that shape_post [OF sh] new by fastforce
  have mapq: "r \<noteq> q" if "map_of (io_map n) k = Some r" for k r
    using shape_map [OF sh that] new by auto
  show h: "map_of (io_heap n') q = Some (newQueueObj s)" by (simp add: n')
  have "pendingOf addr t n' = pendingOf addr t n" if t: "t \<in> set (io_open n)" for t
  proof (cases "t = s")
    case True
    have "pendingOf addr s n = []"
      using none shape_map [OF sh]
      by (fastforce simp: pendingOf_def queueAt_def simp del: map_of_eq_Some_iff split: option.splits)
    moreover have "pendingOf addr s n' = []"
      using h by (simp add: pendingOf_def n' queueAt_def newQueueObj_def)
    ultimately show ?thesis using True by simp
  next
    case False
    have "t \<in> set (io_live n)" using t sh by (auto simp: io_shape_def)
    then have "addr t \<noteq> addr s" using inj s False by (auto simp: inj_on_def)
    then have "map_of (io_map n') (addr t) = map_of (io_map n) (addr t)" by (simp add: n')
    then show ?thesis using other mapq by (auto simp: pendingOf_def split: option.splits)
  qed
  then have "io_data addr log n'" using da by (simp add: io_data_def n')
  moreover have "io_single n'"
    using si fl by (auto simp: io_single_def n' newQueueObj_def)
  moreover have "io_shape addr n'"
    using sh s none inj new mapq q
    by (auto simp: io_shape_def n' newQueueObj_def less_Suc_eq inj_on_def
        simp del: map_of_eq_Some_iff) (metis UnI1 UnI2 option.distinct(1))+
  ultimately show "io_ok addr log n'" by (simp add: io_ok_def)
qed

lemma register_fields:
  "registerQueue addr s n = (q, n') \<Longrightarrow>
     io_posted n' = io_posted n \<and> io_flight n' = io_flight n \<and> io_wire n' = io_wire n \<and>
     io_open n' = io_open n \<and> io_live n' = io_live n \<and> io_born n' = io_born n"
  by (auto simp: registerQueue_def Let_def)

lemma getOrCreate_ok:
  assumes ok: "io_ok addr log n" and s: "s \<in> set (io_live n)"
  obtains q n' where "getOrCreateWriteQueue addr (Some s) n = (Some q, n')" and "io_ok addr log n'"
    and "\<exists>x. map_of (io_heap n') q = Some x \<and> wq_owner x = s"
    and "io_posted n' = io_posted n" "io_flight n' = io_flight n" "io_wire n' = io_wire n"
      "io_open n' = io_open n" "io_live n' = io_live n" "io_born n' = io_born n"
proof (cases "\<exists>q. map_of (io_map n) (addr s) = Some q \<and> lockOwner n q = Some s")
  case True
  then obtain q where q: "map_of (io_map n) (addr s) = Some q" "lockOwner n q = Some s" by blast
  then obtain x where x: "map_of (io_heap n) q = Some x"
    using shape_map [of addr n "addr s" q] ok by (auto simp: io_ok_def)
  then have "wq_owner x = s" using q(2) by (simp add: lockOwner_Some queueAt_Some)
  then show ?thesis
    using that [of q n] q x ok by (simp add: getOrCreateWriteQueue_def)
next
  case False
  obtain q n' where r: "registerQueue addr s n = (q, n')" by fastforce
  have g: "getOrCreateWriteQueue addr (Some s) n = (Some q, n')"
    using False r by (auto simp: getOrCreateWriteQueue_def split: option.split)
  have no: "\<And>q. map_of (io_map n) (addr s) = Some q \<Longrightarrow> lockOwner n q \<noteq> Some s"
    using False by blast
  show ?thesis
    using that [OF g] register_ok [OF ok s no r] register_fields [OF r]
    by (simp add: newQueueObj_def)
qed

lemma enqueue_ok:
  assumes ok: "io_ok addr log n" and s: "s \<in> set (io_live n)"
  shows "io_ok addr (log @ [(s, data)]) (enqueueWrite addr (Some s) data n)"
proof -
  obtain q n' where g: "getOrCreateWriteQueue addr (Some s) n = (Some q, n')"
    and ok': "io_ok addr log n'" and x: "\<exists>x. map_of (io_heap n') q = Some x \<and> wq_owner x = s"
    and f: "io_posted n' = io_posted n" "io_flight n' = io_flight n" "io_wire n' = io_wire n"
      "io_open n' = io_open n" "io_live n' = io_live n" "io_born n' = io_born n"
    by (rule getOrCreate_ok [OF ok s])
  let ?n = "n'\<lparr>io_posted := io_posted n' @ [\<lparr>po_queue = q, po_sock = s, po_data = data\<rparr>]\<rparr>"
  have e: "enqueueWrite addr (Some s) data n = ?n" by (simp add: enqueueWrite_def g)
  have b: "s < io_born n'" using ok' s f by (auto simp: io_ok_def io_shape_def)
  have "io_data addr (log @ [(s, data)]) ?n"
    using ok' b by (auto simp: io_ok_def io_data_def)
  moreover have "io_single ?n" using ok' by (auto simp: io_ok_def io_single_def)
  moreover have "io_shape addr ?n"
    using ok' x s f by (auto simp: io_ok_def io_shape_def simp del: map_of_eq_Some_iff)
  ultimately show ?thesis by (simp add: io_ok_def e)
qed

text \<open>The state in which \<open>doNextWrite\<close> runs on queue \<open>q\<close>: nothing of \<open>q\<close> is in flight.\<close>

definition io_idle :: "qid \<Rightarrow> netio \<Rightarrow> bool" where
  "io_idle q n \<longleftrightarrow>
     distinct (map po_queue (io_flight n)) \<and> q \<notin> po_queue ` set (io_flight n) \<and>
     (\<forall>r x. map_of (io_heap n) r = Some x \<longrightarrow> r \<noteq> q \<longrightarrow>
        (wq_writing x \<longleftrightarrow> r \<in> po_queue ` set (io_flight n)) \<and>
        (wq_pending x \<noteq> [] \<longrightarrow> wq_writing x))"

lemma shape_setQueue:
  "io_shape addr n \<Longrightarrow> map_of (io_heap n) q = Some x \<Longrightarrow> wq_owner y = wq_owner x \<Longrightarrow>
    io_shape addr (setQueue q y n)"
  unfolding io_shape_def setQueue_sel fun_upd_apply
  by (intro conjI allI impI ballI; (elim conjE)?; (simp split: if_splits; fail | metis option.inject))

lemma pendingOf_setQueue:
  assumes sh: "io_shape addr n" and x: "map_of (io_heap n) q = Some x"
    and y: "wq_owner y = wq_owner x" and t: "t \<in> set (io_live n)"
  shows "pendingOf addr t (setQueue q y n) = (if t = wq_owner x then wq_pending y else pendingOf addr t n)"
proof (cases "t = wq_owner x")
  case True
  then have "map_of (io_map n) (addr t) = Some q" using shape_live [OF sh x] t by simp
  then show ?thesis using True y by (simp add: pendingOf_def)
next
  case False
  then show ?thesis
    using x y by (auto simp: pendingOf_def queueAt_Some split: option.split)
qed

lemma pendingOf_queue:
  assumes sh: "io_shape addr n" and x: "map_of (io_heap n) q = Some x"
    and t: "wq_owner x \<in> set (io_live n)"
  shows "pendingOf addr (wq_owner x) n = wq_pending x"
  using shape_live [OF sh x t] x by (simp add: pendingOf_def queueAt_Some)

lemma doNextWrite_ok:
  assumes sh: "io_shape addr n" and idle: "io_idle q n" and da: "io_data addr log n"
    and x: "map_of (io_heap n) q = Some x" and s: "wq_owner x = s" "s \<in> set (io_live n)"
  shows "io_ok addr log (doNextWrite s q n)"
proof -
  have qx: "queueAt n q = x" by (rule queueAt_Some [OF x])
  have ol: "t \<in> set (io_live n)" if "t \<in> set (io_open n)" for t
    using that sh by (auto simp: io_shape_def)
  have px: "pendingOf addr s n = wq_pending x" using pendingOf_queue [OF sh x] s by simp
  consider (Nil) "wq_pending x = []" | (Closed) d r where "wq_pending x = d # r" "s \<notin> set (io_open n)"
    | (Open) d r where "wq_pending x = d # r" "s \<in> set (io_open n)"
    by (cases "wq_pending x") auto
  then show ?thesis
  proof cases
    case Nil
    let ?y = "x\<lparr>wq_writing := False\<rparr>"
    have "doNextWrite s q n = setQueue q ?y n" using Nil by (simp add: doNextWrite_def qx)
    moreover have "io_single (setQueue q ?y n)"
      using idle Nil by (auto simp: io_single_def io_idle_def)
    moreover have "io_data addr log (setQueue q ?y n)"
      using da px s by (auto simp: io_data_def pendingOf_setQueue [OF sh x] ol)
    ultimately show ?thesis using shape_setQueue [OF sh x, of ?y] by (simp add: io_ok_def)
  next
    case (Closed d r)
    let ?y = "x\<lparr>wq_pending := [], wq_writing := False\<rparr>"
    have "doNextWrite s q n = setQueue q ?y n" using Closed by (simp add: doNextWrite_def qx)
    moreover have "io_single (setQueue q ?y n)"
      using idle by (auto simp: io_single_def io_idle_def)
    moreover have "io_data addr log (setQueue q ?y n)"
      using da Closed s by (auto simp: io_data_def pendingOf_setQueue [OF sh x] ol)
    ultimately show ?thesis using shape_setQueue [OF sh x, of ?y] by (simp add: io_ok_def)
  next
    case (Open d r)
    let ?y = "x\<lparr>wq_pending := r, wq_writing := True\<rparr>"
    let ?p = "\<lparr>po_queue = q, po_sock = s, po_data = d\<rparr>"
    let ?n = "(setQueue q ?y n)\<lparr>io_flight := io_flight n @ [?p]\<rparr>"
    have e: "doNextWrite s q n = ?n" using Open by (simp add: doNextWrite_def qx)
    have "io_single ?n" using idle by (auto simp: io_single_def io_idle_def)
    moreover have "io_shape addr ?n"
      using shape_setQueue [OF sh x, of ?y] s sh by (auto simp: io_shape_def simp del: map_of_eq_Some_iff)
    moreover have "io_data addr log ?n"
    proof -
      have "dataOf s log = dataOf s (io_wire n) @ postsOf s (io_flight n) @ (d # r) @ postsOf s (io_posted n)"
        using da Open px by (simp add: io_data_def)
      then have "prefix (dataOf s (io_wire n) @ postsOf s (io_flight n @ [?p])) (dataOf s log)"
        by (simp add: prefix_def)
      then show ?thesis
        using da Open px s by (auto simp: io_data_def pendingOf_setQueue [OF sh x] ol)
    qed
    ultimately show ?thesis by (simp add: io_ok_def e)
  qed
qed

lemma run_ok:
  assumes ok: "io_ok addr log n" and po: "io_posted n = ps @ p # qs"
    and first: "\<forall>r \<in> set ps. po_queue r \<noteq> po_queue p"
  shows "io_ok addr log (runPosted p (n\<lparr>io_posted := ps @ qs\<rparr>))"
proof -
  let ?q = "po_queue p" let ?s = "po_sock p"
  let ?n = "n\<lparr>io_posted := ps @ qs\<rparr>"
  have sh: "io_shape addr n" and si: "io_single n" and da: "io_data addr log n"
    using ok by (simp_all add: io_ok_def)
  have pin: "p \<in> set (io_posted n) \<union> set (io_flight n)" using po by simp
  obtain x where x: "map_of (io_heap n) ?q = Some x" "wq_owner x = ?s" and s: "?s \<in> set (io_live n)"
    using shape_post [OF sh pin] by blast
  have ol: "t \<in> set (io_live n)" if "t \<in> set (io_open n)" for t
    using that sh by (auto simp: io_shape_def)
  have "po_sock r \<noteq> ?s" if r: "r \<in> set ps" for r
  proof -
    have "po_queue p = po_queue r \<longleftrightarrow> po_sock p = po_sock r"
      by (rule shape_same_queue [OF sh pin]) (use r po in auto)
    then show ?thesis using first r by metis
  qed
  then have "postsOf ?s ps = []" by (intro postsOf_empty) blast
  then have posts: "postsOf ?s (io_posted n) = po_data p # postsOf ?s (ps @ qs)" using po by simp
  have others: "postsOf t (io_posted n) = postsOf t (ps @ qs)" if "t \<noteq> ?s" for t
    using that po by simp
  let ?y = "x\<lparr>wq_pending := wq_pending x @ [po_data p]\<rparr>"
  let ?m = "setQueue ?q ?y ?n"
  have xn: "map_of (io_heap ?n) ?q = Some x" using x by simp
  have shn: "io_shape addr ?n" using sh po by (auto simp: io_shape_def simp del: map_of_eq_Some_iff)
  have shm: "io_shape addr ?m" by (rule shape_setQueue [OF shn xn]) simp
  have px: "pendingOf addr ?s n = wq_pending x" using pendingOf_queue [OF sh x(1)] x(2) s by simp
  have pend: "pendingOf addr t ?m = (if t = ?s then wq_pending x @ [po_data p] else pendingOf addr t n)"
    if "t \<in> set (io_open n)" for t
    using pendingOf_setQueue [OF shn xn, of ?y t] ol [OF that] x(2) by simp
  have dam: "io_data addr log ?m"
    using da posts others px by (auto simp: io_data_def pend)
  have qx: "queueAt ?n ?q = x" using queueAt_Some [OF x(1)] by simp
  show ?thesis
  proof (cases "wq_writing x")
    case True
    then have "io_single ?m" using si x(1) by (auto simp: io_single_def)
    moreover have "runPosted p ?n = ?m" using True qx by (simp add: runPosted_def)
    ultimately show ?thesis using shm dam by (simp add: io_ok_def)
  next
    case False
    then have "io_idle ?q ?m" using si x(1) by (auto simp: io_idle_def io_single_def)
    moreover have "runPosted p ?n = doNextWrite ?s ?q ?m" using False qx by (simp add: runPosted_def)
    ultimately show ?thesis using doNextWrite_ok [OF shm _ dam, of ?q ?y ?s] x s by simp
  qed
qed

lemma remove1_flight:
  assumes "distinct (map po_queue fs)" and "p \<in> set fs"
  shows "set (remove1 p fs) = set fs - {p}" and "distinct (map po_queue (remove1 p fs))"
    and "po_queue p \<notin> po_queue ` set (remove1 p fs)"
    and "r \<noteq> po_queue p \<Longrightarrow> r \<in> po_queue ` set (remove1 p fs) \<longleftrightarrow> r \<in> po_queue ` set fs"
proof -
  have d: "distinct fs" using assms(1) by (simp add: distinct_map)
  show s: "set (remove1 p fs) = set fs - {p}" using d by simp
  show "distinct (map po_queue (remove1 p fs))"
    using assms(1) d by (auto simp: distinct_map inj_on_def distinct_remove1)
  show "po_queue p \<notin> po_queue ` set (remove1 p fs)"
    using assms by (auto simp: distinct_map s inj_on_def)
  show "r \<noteq> po_queue p \<Longrightarrow> r \<in> po_queue ` set (remove1 p fs) \<longleftrightarrow> r \<in> po_queue ` set fs"
    by (auto simp: s)
qed

text \<open>A write in flight is the only one of its socket.\<close>

lemma flight_alone:
  assumes sh: "io_shape addr n" and si: "io_single n" and p: "p \<in> set (io_flight n)"
  shows "postsOf (po_sock p) (io_flight n) = [po_data p]"
    and "postsOf t (remove1 p (io_flight n)) = (if t = po_sock p then [] else postsOf t (io_flight n))"
proof -
  obtain as bs where fs: "io_flight n = as @ p # bs" using p by (meson split_list)
  have d: "distinct (map po_queue (io_flight n))" using si by (simp add: io_single_def)
  have ne: "po_sock r \<noteq> po_sock p" if "r \<in> set (as @ bs)" for r
  proof -
    have "po_queue r \<noteq> po_queue p" using that d fs by (auto simp: image_iff)
    moreover have "po_queue r = po_queue p \<longleftrightarrow> po_sock r = po_sock p"
      by (rule shape_same_queue [OF sh]) (use that fs in auto)
    ultimately show ?thesis by simp
  qed
  have "postsOf (po_sock p) as = []" "postsOf (po_sock p) bs = []"
    using ne by (auto intro!: postsOf_empty)
  moreover have "remove1 p (io_flight n) = as @ bs"
    using d fs by (auto simp: remove1_append)
  ultimately show "postsOf (po_sock p) (io_flight n) = [po_data p]"
    and "postsOf t (remove1 p (io_flight n)) = (if t = po_sock p then [] else postsOf t (io_flight n))"
    by (simp_all add: fs)
qed

lemma shape_unflight:
  "io_shape addr n \<Longrightarrow> io_shape addr (n\<lparr>io_flight := remove1 p (io_flight n)\<rparr>)"
  unfolding io_shape_def by (auto dest: notin_set_remove1 [THEN contrapos_nn] simp del: map_of_eq_Some_iff
      intro: in_set_remove1 [THEN iffD1] dest!: set_remove1_subset [THEN subsetD])

lemma writeDone_ok:
  assumes ok: "io_ok addr log n" and p: "p \<in> set (io_flight n)"
  shows "io_ok addr log (writeDone p n)"
proof -
  let ?q = "po_queue p" let ?s = "po_sock p"
  let ?m = "n\<lparr>io_flight := remove1 p (io_flight n), io_wire := io_wire n @ [(?s, po_data p)]\<rparr>"
  have sh: "io_shape addr n" and si: "io_single n" and da: "io_data addr log n"
    using ok by (simp_all add: io_ok_def)
  obtain x where x: "map_of (io_heap n) ?q = Some x" "wq_owner x = ?s" and s: "?s \<in> set (io_live n)"
    using shape_post [OF sh, of p] p by blast
  have d: "distinct (map po_queue (io_flight n))" using si by (simp add: io_single_def)
  note fl = remove1_flight [OF d p]
  have "io_shape addr ?m" using shape_unflight [OF sh, of p] by (simp add: io_shape_def)
  moreover have "io_idle ?q ?m" using si fl(2-4) by (auto simp: io_idle_def io_single_def)
  moreover have "io_data addr log ?m"
  proof -
    have "prefix (dataOf t (io_wire n) @ postsOf t (io_flight n)) (dataOf t log)" for t
      using da by (simp add: io_data_def)
    from this [of ?s] this show ?thesis
      using da flight_alone [OF sh si p] by (auto simp: io_data_def)
  qed
  ultimately show ?thesis
    unfolding writeDone_def using doNextWrite_ok [of addr ?m ?q log x ?s] x s by simp
qed

lemma writeFailed_ok:
  assumes ok: "io_ok addr log n" and p: "p \<in> set (io_flight n)"
  shows "io_ok addr log (writeFailed p n)"
proof -
  let ?q = "po_queue p" let ?s = "po_sock p"
  let ?f = "n\<lparr>io_flight := remove1 p (io_flight n)\<rparr>"
  have sh: "io_shape addr n" and si: "io_single n" and da: "io_data addr log n"
    using ok by (simp_all add: io_ok_def)
  obtain x where x: "map_of (io_heap n) ?q = Some x" "wq_owner x = ?s" and s: "?s \<in> set (io_live n)"
    using shape_post [OF sh, of p] p by blast
  let ?y = "x\<lparr>wq_pending := [], wq_writing := False\<rparr>"
  let ?m = "setQueue ?q ?y ?f"
  have d: "distinct (map po_queue (io_flight n))" using si by (simp add: io_single_def)
  note fl = remove1_flight [OF d p]
  have e: "writeFailed p n = closeSocket ?s ?m"
    using queueAt_Some [OF x(1)] by (simp add: writeFailed_def)
  have shf: "io_shape addr ?f" by (rule shape_unflight [OF sh])
  have xf: "map_of (io_heap ?f) ?q = Some x" using x by simp
  have shm: "io_shape addr ?m" by (rule shape_setQueue [OF shf xf]) simp
  have ol: "t \<in> set (io_live n)" if "t \<in> set (io_open n)" for t
    using that sh by (auto simp: io_shape_def)
  have pend: "pendingOf addr t ?m = pendingOf addr t n" if "t \<in> set (io_open n)" "t \<noteq> ?s" for t
    using pendingOf_setQueue [OF shf xf, of ?y t] ol [OF that(1)] that x(2) by simp
  have "io_shape addr (closeSocket ?s ?m)" using shm by (auto simp: io_shape_def closeSocket_def)
  moreover have "io_single (closeSocket ?s ?m)"
    using si fl(2-4) by (auto simp: io_single_def closeSocket_def)
  moreover have "io_data addr log (closeSocket ?s ?m)"
  proof -
    have "prefix (dataOf t (io_wire n) @ postsOf t (remove1 p (io_flight n))) (dataOf t log)" for t
      using da flight_alone(2) [OF sh si p, of t] prefix_order.trans [OF prefixI [OF refl]]
      by (auto simp: io_data_def intro: append_prefixD)
    then show ?thesis
      using da flight_alone [OF sh si p] pend by (auto simp: io_data_def closeSocket_def)
  qed
  ultimately show ?thesis by (simp add: e io_ok_def)
qed

lemma io_step_ok: "io_step addr n new n' \<Longrightarrow> io_ok addr log n \<Longrightarrow> io_ok addr (log @ new) n'"
  by (erule io_stepE)
    (simp_all add: connect_ok enqueue_ok run_ok writeDone_ok writeFailed_ok close_ok expire_ok
      unregister_ok collect_ok)

lemma io_reach_ok: "io_reach addr log n \<Longrightarrow> io_ok addr log n"
proof (induction rule: io_reach.induct)
  case Start
  show ?case by (simp add: io_ok_def io_shape_def io_single_def io_data_def emptyIO_def)
next
  case (Step log n new n')
  then show ?case by (simp add: io_step_ok)
qed

section \<open>Properties\<close>

lemma io_no_overlap: "io_ok addr log n \<Longrightarrow> distinct (map po_sock (io_flight n))"
proof -
  assume ok: "io_ok addr log n"
  then have sh: "io_shape addr n" and d: "distinct (map po_queue (io_flight n))"
    by (simp_all add: io_ok_def io_single_def)
  then show ?thesis
    using shape_same_queue [OF sh] by (fastforce simp: distinct_map inj_on_def)
qed

lemma io_drained:
  assumes ok: "io_ok addr log n" and s: "s \<in> set (io_open n)"
    and fl: "postsOf s (io_flight n) = []" and po: "postsOf s (io_posted n) = []"
  shows "dataOf s (io_wire n) = dataOf s log"
proof -
  have sh: "io_shape addr n" and si: "io_single n" and da: "io_data addr log n"
    using ok by (simp_all add: io_ok_def)
  have "pendingOf addr s n = []"
  proof (rule ccontr)
    assume "pendingOf addr s n \<noteq> []"
    then obtain q where q: "map_of (io_map n) (addr s) = Some q" "wq_owner (queueAt n q) = s"
      "wq_pending (queueAt n q) \<noteq> []"
      by (auto simp: pendingOf_def simp del: map_of_eq_Some_iff split: option.splits if_splits)
    obtain x where x: "map_of (io_heap n) q = Some x" using shape_map [OF sh q(1)] by blast
    then have "wq_pending x \<noteq> []" "wq_owner x = s" using q by (simp_all add: queueAt_Some)
    then have "q \<in> po_queue ` set (io_flight n)" using si x by (auto simp: io_single_def)
    then obtain p where p: "p \<in> set (io_flight n)" "po_queue p = q" by blast
    then have "po_sock p = s"
      using shape_post [OF sh, of p] x \<open>wq_owner x = s\<close> by auto
    then show False using flight_alone(1) [OF sh si p(1)] fl by simp
  qed
  then show ?thesis using da s fl po by (simp add: io_data_def)
qed

text \<open>C12: in every reachable state each socket has at most one \<open>async_write\<close> in flight, and the queue
  a live socket gets for its next message is its own, even when its address was that of a dead
  socket whose queue is still registered.\<close>

theorem writes_never_overlap:
  assumes "io_reach addr log n"
  shows "distinct (map po_sock (io_flight n)) \<and>
    (s \<in> set (io_live n) \<longrightarrow>
      (\<exists>q n'. getOrCreateWriteQueue addr (Some s) n = (Some q, n') \<and> wq_owner (queueAt n' q) = s))"
proof -
  have ok: "io_ok addr log n" by (rule io_reach_ok [OF assms])
  have "\<exists>q n'. getOrCreateWriteQueue addr (Some s) n = (Some q, n') \<and> wq_owner (queueAt n' q) = s"
    if s: "s \<in> set (io_live n)"
    by (rule getOrCreate_ok [OF ok s]) (auto simp: queueAt_Some)
  then show ?thesis using io_no_overlap [OF ok] by blast
qed

text \<open>One concrete run: two messages for one socket, the second enqueued while the first is written;
  then the socket dies and another object is made at its address.\<close>

definition demoAddr :: "sock \<Rightarrow> nat" where "demoAddr s = 4096"

definition demo1 :: netio where
  "demo1 = enqueueWrite demoAddr (Some 0) ''two''
     (enqueueWrite demoAddr (Some 0) ''one'' (connectSocket 0 emptyIO))"

definition runFirst :: "netio \<Rightarrow> netio" where
  "runFirst n = (case io_posted n of [] \<Rightarrow> n | p # ps \<Rightarrow> runPosted p (n\<lparr>io_posted := ps\<rparr>))"

definition finishFirst :: "netio \<Rightarrow> netio" where
  "finishFirst n = (case io_flight n of [] \<Rightarrow> n | p # ps \<Rightarrow> writeDone p n)"

definition demo2 :: netio where
  "demo2 = runFirst (runFirst demo1)"

definition demo3 :: netio where
  "demo3 = connectSocket 1 (expireSocket 0 (finishFirst (finishFirst demo2)))"

lemma runFirst_step: "io_reach addr log n \<Longrightarrow> io_reach addr log (runFirst n)"
  using Step [OF _ RunHandler, of addr log n "[]"]
  by (auto simp: runFirst_def split: list.splits)

lemma finishFirst_step: "io_reach addr log n \<Longrightarrow> io_reach addr log (finishFirst n)"
  using Step [OF _ WriteOk, of addr log n]
  by (auto simp: finishFirst_def split: list.splits)

lemma demo1_reach: "io_reach demoAddr [(0, ''one''), (0, ''two'')] demo1"
proof -
  have 0: "io_reach demoAddr [] (connectSocket 0 emptyIO)"
    using Step [OF Start Connect, of 0 demoAddr] by (simp add: emptyIO_def)
  have 1: "io_reach demoAddr [(0, ''one'')] (enqueueWrite demoAddr (Some 0) ''one'' (connectSocket 0 emptyIO))"
    using Step [OF 0 Enqueue, of 0 "''one''"] by (simp add: connectSocket_def)
  show ?thesis
    using Step [OF 1 Enqueue, of 0 "''two''"]
    by (simp add: demo1_def connectSocket_def enqueueWrite_def getOrCreateWriteQueue_def
        registerQueue_def emptyIO_def Let_def)
qed

lemma demo2_reach: "io_reach demoAddr [(0, ''one''), (0, ''two'')] demo2"
  unfolding demo2_def by (intro runFirst_step demo1_reach)

lemmas io_eval = demo1_def demo2_def demo3_def runFirst_def finishFirst_def runPosted_def
  doNextWrite_def writeDone_def connectSocket_def expireSocket_def enqueueWrite_def
  getOrCreateWriteQueue_def registerQueue_def lockOwner_def queueAt_def setQueue_def
  newQueueObj_def emptyIO_def demoAddr_def Let_def

lemma demo3_reach: "io_reach demoAddr [(0, ''one''), (0, ''two'')] demo3"
proof -
  let ?n = "finishFirst (finishFirst demo2)"
  have a: "io_reach demoAddr [(0, ''one''), (0, ''two'')] ?n"
    by (intro finishFirst_step demo2_reach)
  have b: "io_reach demoAddr [(0, ''one''), (0, ''two'')] (expireSocket 0 ?n)"
    using Step [OF a Expire, of 0] by (simp add: io_eval)
  show ?thesis
    using Step [OF b Connect, of 1] by (simp add: io_eval)
qed

theorem writes_never_overlap_witness:
  "length (io_flight demo2) = 1 \<and> distinct (map po_sock (io_flight demo2)) \<and>
   map_of (io_map demo3) (demoAddr 1) = Some 0 \<and> wq_owner (queueAt demo3 0) = 0 \<and>
   (\<exists>q n'. getOrCreateWriteQueue demoAddr (Some 1) demo3 = (Some q, n') \<and> wq_owner (queueAt n' q) = 1)"
proof -
  have "1 \<in> set (io_live demo3)" by (simp add: io_eval)
  then show ?thesis
    using writes_never_overlap [OF demo2_reach] writes_never_overlap [OF demo3_reach, of 1]
    by (simp add: io_eval)
qed

text \<open>C24: what has been written to a socket is always a prefix of what was enqueued for it, in that
  order; and on an open socket nothing is lost: once none of its messages is posted or in flight,
  all of them have been written.\<close>

theorem writes_in_order:
  assumes "io_reach addr log n"
  shows "prefix (dataOf s (io_wire n)) (dataOf s log) \<and>
    (s \<in> set (io_open n) \<longrightarrow> postsOf s (io_flight n) = [] \<longrightarrow> postsOf s (io_posted n) = [] \<longrightarrow>
       dataOf s (io_wire n) = dataOf s log)"
proof -
  have ok: "io_ok addr log n" by (rule io_reach_ok [OF assms])
  then have "prefix (dataOf s (io_wire n) @ postsOf s (io_flight n)) (dataOf s log)"
    by (simp add: io_ok_def io_data_def)
  then show ?thesis using io_drained [OF ok] by (blast intro: append_prefixD)
qed

theorem writes_in_order_witness:
  "dataOf 0 (io_wire (finishFirst (finishFirst demo2))) = [''one'', ''two''] \<and>
   dataOf 0 (io_wire (finishFirst demo2)) = [''one'']"
proof -
  have a: "io_reach demoAddr [(0, ''one''), (0, ''two'')] (finishFirst (finishFirst demo2))"
    by (intro finishFirst_step demo2_reach)
  show ?thesis
    using writes_in_order [OF a, of 0] by (simp add: io_eval postsOf_def dataOf_def)
qed

end
