(* ===== verification/Pool.thy ===== *)
theory Pool
  imports Configuration "HOL-Library.Multiset"
begin

text \<open>
  \<open>DatabasePool\<close> (\<open>src/utils/DatabasePool.cpp\<close>, \<open>include/utils/DatabasePool.hpp\<close>). Connections are
  libpqxx objects, so opening, probing and preparing them are parameters on an outside world \<open>'w\<close>
  (\<open>conn_lib\<close>), as are the clock and the sleep of the retry loop. Every method holds the mutex but for
  the wait in \<open>acquire\<close>, which is modelled at the moment the wait ends: with a free slot, or with the
  timeout over and none free. The lemmas show that slots are neither lost nor handed out twice.
\<close>

section \<open>State and operations\<close>

record ('w, 'c) conn_lib =
  cl_open :: "string \<Rightarrow> ('w, 'c) eff"
  cl_is_open :: "'c \<Rightarrow> 'w \<Rightarrow> bool"
  cl_prepare :: "'c \<Rightarrow> ('w, unit) eff"
  cl_probe :: "'c \<Rightarrow> ('w, unit) eff"
  cl_now :: "'w \<Rightarrow> int"
  cl_sleep :: "int \<Rightarrow> 'w \<Rightarrow> 'w"

record 'c pool =
  pl_connStr :: string
  pl_connections :: "'c option list"
  pl_available :: "nat list"
  pl_timeouts :: "64 word"
  pl_reconnects :: "64 word"

text \<open>The pool and the world it lives in.\<close>

type_synonym ('w, 'c) poolw = "'c pool \<times> 'w"

definition onWorld :: "('w, 'a) eff \<Rightarrow> ('c pool \<times> 'w, 'a) eff" where
  "onWorld m = (\<lambda>(p, w). case m w of (r, w') \<Rightarrow> (r, (p, w')))"

definition onPool :: "('c pool \<Rightarrow> 'c pool) \<Rightarrow> ('c pool \<times> 'w, unit) eff" where
  "onPool f = (\<lambda>(p, w). (Inr (), (f p, w)))"

definition connStrOf :: "DatabaseConfig \<Rightarrow> string" where
  "connStrOf cfg = ''dbname='' @ db_dbname cfg @ '' user='' @ db_user cfg @ '' password='' @
     db_password cfg @ '' host='' @ db_host cfg @ '' port='' @ to_string (db_port cfg)"

definition openSlot :: "('w, 'c) conn_lib \<Rightarrow> nat \<Rightarrow> ('c pool \<times> 'w, unit) eff" where
  "openSlot L slot =
     andThen (readS fst) (\<lambda>p.
     andThen (onWorld (cl_open L (pl_connStr p))) (\<lambda>c.
     andThen (readS (\<lambda>s. cl_is_open L c (snd s))) (\<lambda>opened.
       if \<not> opened then throw (RuntimeError (''Connection failed to open: '' @ pl_connStr p))
       else andThen (onWorld (cl_prepare L c)) (\<lambda>_.
            onPool (\<lambda>p. p\<lparr>pl_connections := (pl_connections p)[slot := Some c]\<rparr>)))))"

definition clampPool :: "int \<Rightarrow> int" where
  "clampPool poolSize =
     (let n = (if poolSize < 1 then 1 else poolSize) in if n > 20 then 20 else n)"

text \<open>The constructor: the slots are opened one by one; an exception leaves no pool.\<close>

definition openOne :: "('w, 'c) conn_lib \<Rightarrow> nat \<Rightarrow> ('c pool \<times> 'w, unit) eff" where
  "openOne L i =
     andThen (onPool (\<lambda>p. p\<lparr>pl_connections := pl_connections p @ [None]\<rparr>)) (\<lambda>_.
     andThen (openSlot L i) (\<lambda>_.
       onPool (\<lambda>p. p\<lparr>pl_available := pl_available p @ [i]\<rparr>)))"

definition openAll :: "('w, 'c) conn_lib \<Rightarrow> nat \<Rightarrow> ('c pool \<times> 'w, unit) eff" where
  "openAll L n = forEach [0..<n] (openOne L)"

definition emptyPool :: "string \<Rightarrow> 'c pool" where
  "emptyPool s = \<lparr>pl_connStr = s, pl_connections = [], pl_available = [], pl_timeouts = 0,
     pl_reconnects = 0\<rparr>"

definition newPool ::
  "('w, 'c) conn_lib \<Rightarrow> DatabaseConfig \<Rightarrow> int \<Rightarrow> 'w \<Rightarrow> (exn + 'c pool) \<times> 'w" where
  "newPool L cfg poolSize w =
     (case openAll L (nat (clampPool poolSize)) (emptyPool (connStrOf cfg), w) of
        (Inl e, (p, w')) \<Rightarrow> (Inl e, w')
      | (Inr _, (p, w')) \<Rightarrow> (Inr p, w'))"

text \<open>The health check of \<open>acquire\<close>; \<open>catch (...)\<close> makes every failure mean unhealthy.\<close>

definition healthy :: "('w, 'c) conn_lib \<Rightarrow> nat \<Rightarrow> ('c pool \<times> 'w, bool) eff" where
  "healthy L slot =
     andThen (readS (\<lambda>s. (pl_connections (fst s)) ! slot)) (\<lambda>c.
       case c of
         None \<Rightarrow> ret False
       | Some c \<Rightarrow>
           andThen (readS (\<lambda>s. cl_is_open L c (snd s))) (\<lambda>opened.
             if \<not> opened then ret False
             else tryCatch (andThen (onWorld (cl_probe L c)) (\<lambda>_. ret True)) (\<lambda>e. ret False)))"

definition releaseSlot :: "nat \<Rightarrow> 'c pool \<Rightarrow> 'c pool" where
  "releaseSlot slot p = p\<lparr>pl_available := pl_available p @ [slot]\<rparr>"

definition acquire :: "('w, 'c) conn_lib \<Rightarrow> int \<Rightarrow> ('c pool \<times> 'w, nat) eff" where
  "acquire L timeout =
     andThen (readS (\<lambda>s. pl_available (fst s))) (\<lambda>avail.
       case avail of
         [] \<Rightarrow>
           andThen (onPool (\<lambda>p. p\<lparr>pl_timeouts := pl_timeouts p + 1\<rparr>)) (\<lambda>_.
             throw (RuntimeError (''[DatabasePool] acquire() timed out: pool exhausted after '' @
               to_string timeout @ ''ms. Consider increasing pool size.'')))
       | slot # rest \<Rightarrow>
           andThen (onPool (\<lambda>p. p\<lparr>pl_available := rest\<rparr>)) (\<lambda>_.
           andThen (healthy L slot) (\<lambda>ok.
             if ok then ret slot
             else andThen (tryCatch
                    (andThen (openSlot L slot) (\<lambda>_.
                       onPool (\<lambda>p. p\<lparr>pl_reconnects := pl_reconnects p + 1\<rparr>)))
                    (\<lambda>e. andThen (onPool (releaseSlot slot)) (\<lambda>_.
                       throw (RuntimeError (''[DatabasePool] reconnect failed: '' @ what e)))))
                  (\<lambda>_. ret slot))))"

definition poolSize :: "'c pool \<Rightarrow> nat" where
  "poolSize p = length (pl_connections p)"

text \<open>\<open>connections_.size() - available_.size()\<close> on \<open>size_t\<close>.\<close>

definition inUse :: "'c pool \<Rightarrow> 64 word" where
  "inUse p = word_of_nat (length (pl_connections p)) - word_of_nat (length (pl_available p))"

definition connectionAt :: "nat \<Rightarrow> 'c pool \<Rightarrow> exn + 'c option" where
  "connectionAt slot p =
     (if slot < length (pl_connections p) then Inr (pl_connections p ! slot)
      else Inl (OutOfRange ''vector::_M_range_check''))"

section \<open>Guards\<close>

text \<open>A \<open>Guard\<close> is the slot it holds; \<open>None\<close> is a default-made or moved-from guard.\<close>

type_synonym guard = "nat option"

definition guardDestroy :: "guard \<Rightarrow> 'c pool \<Rightarrow> 'c pool" where
  "guardDestroy g p = (case g of None \<Rightarrow> p | Some slot \<Rightarrow> releaseSlot slot p)"

definition guardMove :: "guard \<Rightarrow> guard \<times> guard" where
  "guardMove src = (src, None)"

text \<open>\<open>dst = std::move(src)\<close> for two distinct objects: the slot of \<open>dst\<close> goes back first.\<close>

definition guardMoveAssign :: "guard \<Rightarrow> guard \<Rightarrow> 'c pool \<Rightarrow> (guard \<times> guard) \<times> 'c pool" where
  "guardMoveAssign dst src p = ((src, None), guardDestroy dst p)"

section \<open>Waiting for the database at start\<close>

definition connectTimeoutFromEnv :: "environment \<Rightarrow> int" where
  "connectTimeoutFromEnv env =
     (let n = (case env ''DB_CONNECT_TIMEOUT_SEC'' of
                 None \<Rightarrow> 90
               | Some raw \<Rightarrow> (case stoi raw of Inl e \<Rightarrow> 90 | Inr v \<Rightarrow> v));
          n = (if n < 0 then 0 else n)
      in if n > 600 then 600 else n)"

text \<open>The retry loop, with fuel for the attempts; \<open>None\<close> is a loop that has not ended yet.\<close>

fun retryLoop ::
  "nat \<Rightarrow> ('w, 'c) conn_lib \<Rightarrow> DatabaseConfig \<Rightarrow> int \<Rightarrow> int \<Rightarrow> int \<Rightarrow> 'w
     \<Rightarrow> ((exn + 'c pool) \<times> 'w) option" where
  "retryLoop 0 L cfg slots deadline attempt w = None"
| "retryLoop (Suc fuel) L cfg slots deadline attempt w =
     (case newPool L cfg slots w of
        (Inr p, w') \<Rightarrow> Some (Inr p, w')
      | (Inl e, w') \<Rightarrow>
          if cl_now L w' \<ge> deadline
          then Some (Inl (RuntimeError (''[DatabasePool] could not open pool after '' @
                 to_string (attempt + 1) @ '' attempt(s): '' @ what e)), w')
          else retryLoop fuel L cfg slots deadline (attempt + 1) (cl_sleep L 2000 w'))"

definition createWithRetry ::
  "nat \<Rightarrow> ('w, 'c) conn_lib \<Rightarrow> DatabaseConfig \<Rightarrow> int \<Rightarrow> int \<Rightarrow> 'w
     \<Rightarrow> ((exn + 'c pool) \<times> 'w) option" where
  "createWithRetry fuel L cfg slots timeoutSec w =
     retryLoop fuel L cfg slots (cl_now L w + timeoutSec * 1000) 0 w"

section \<open>The pool as an interface\<close>

text \<open>What users of a slot pool rely on; a slot is used between \<open>take_slot\<close> and \<open>give\<close>.\<close>

locale slot_pool =
  fixes take_slot :: "('p, 'k) eff"
    and give :: "'k \<Rightarrow> 'p \<Rightarrow> 'p"
    and free :: "'p \<Rightarrow> 'k multiset"
  assumes take_ok: "take_slot p = (Inr k, p') \<Longrightarrow> free p = add_mset k (free p')"
    and take_fail: "take_slot p = (Inl e, p') \<Longrightarrow> free p' = free p"
    and free_give: "free (give k p) = add_mset k (free p)"
begin

text \<open>Use under a guard: whatever the body does, the destructor gives the slot back.\<close>

definition scoped :: "('k \<Rightarrow> ('p, 'a) eff) \<Rightarrow> ('p, 'a) eff" where
  "scoped body = andThen take_slot (\<lambda>k p. case body k p of (r, p') \<Rightarrow> (r, give k p'))"

lemma scoped_balanced:
  assumes "\<And>k p. free (snd (body k p)) = free p"
  shows "free (snd (scoped body p)) = free p"
proof -
  obtain r q where t: "take_slot p = (r, q)" by fastforce
  show ?thesis
  proof (cases r)
    case (Inl e)
    then show ?thesis using t take_fail by (simp add: scoped_def)
  next
    case (Inr k)
    obtain r' q' where b: "body k q = (r', q')" by fastforce
    have "free q' = free q" using assms [of k q] b by simp
    then show ?thesis using take_ok [of p k q] t Inr b by (simp add: scoped_def free_give)
  qed
qed

lemma scoped_nested:
  "(\<And>k j p. free (snd (body k j p)) = free p) \<Longrightarrow>
    free (snd (scoped (\<lambda>k. scoped (body k)) p)) = free p"
  by (intro scoped_balanced) (simp add: scoped_balanced)

end

section \<open>Lemmas\<close>

abbreviation freeSlots :: "'c pool \<times> 'w \<Rightarrow> nat multiset" where
  "freeSlots s \<equiv> mset (pl_available (fst s))"

text \<open>Relating the state after an operation to the one before.\<close>

definition conserves :: "('s \<Rightarrow> 'b) \<Rightarrow> ('s, 'a) eff \<Rightarrow> bool" where
  "conserves f m \<longleftrightarrow> (\<forall>s. f (snd (m s)) = f s)"

lemma conserves_keeps: "conserves f m \<longleftrightarrow> (\<forall>v. keeps (\<lambda>s. f s = v) m)"
  by (auto simp: conserves_def keeps_def)

lemma conserves_andThen: "conserves f m \<Longrightarrow> (\<And>x. conserves f (g x)) \<Longrightarrow> conserves f (andThen m g)"
  by (auto simp: conserves_keeps)

lemma conserves_tryCatch: "conserves f m \<Longrightarrow> (\<And>e. conserves f (h e)) \<Longrightarrow> conserves f (tryCatch m h)"
  by (auto simp: conserves_keeps)

lemma conserves_pure [simp]: "conserves f (ret x)" "conserves f (throw e)" "conserves f (readS g)"
  by (simp_all add: conserves_def)

lemma conserves_onWorld: "(\<And>p w w'. f (p, w) = f (p, w')) \<Longrightarrow> conserves f (onWorld m)"
  by (auto simp: conserves_def onWorld_def split: prod.split)

lemma conserves_onPool: "(\<And>p w. f (g p, w) = f (p, w)) \<Longrightarrow> conserves f (onPool g)"
  by (auto simp: conserves_def onPool_def)

lemma openSlot_conserves:
  assumes "\<And>p w w'. f (p, w) = f (p, w')"
    and "\<And>p w c. f (p\<lparr>pl_connections := (pl_connections p)[slot := c]\<rparr>, w) = f (p, w)"
  shows "conserves f (openSlot L slot)"
  using assms unfolding openSlot_def
  by (auto intro!: conserves_andThen conserves_onWorld conserves_onPool split: if_splits)

lemma healthy_conserves: "(\<And>p w w'. f (p, w) = f (p, w')) \<Longrightarrow> conserves f (healthy L slot)"
  unfolding healthy_def
  by (auto intro!: conserves_andThen conserves_tryCatch conserves_onWorld split: option.split)

lemma openSlot_result:
  "openSlot L slot (p, w) = (Inr u, (p', w')) \<Longrightarrow>
     \<exists>c. p' = p\<lparr>pl_connections := (pl_connections p)[slot := Some c]\<rparr>"
  by (auto simp: openSlot_def andThen_def onWorld_def onPool_def split: prod.splits sum.splits if_splits)

lemma openSlot_fails:
  "openSlot L slot (p, w) = (Inl e, (p', w')) \<Longrightarrow> p' = p"
  by (auto simp: openSlot_def andThen_def onWorld_def onPool_def split: prod.splits sum.splits if_splits)

lemma healthy_result:
  "\<exists>b w'. healthy L slot (p, w) = (Inr b, (p, w')) \<and> (b \<longrightarrow> pl_connections p ! slot \<noteq> None)"
  by (auto simp: healthy_def andThen_def tryCatch_def onWorld_def split: option.split prod.split sum.split)

lemma acquire_none:
  "pl_available p = [] \<Longrightarrow>
     \<exists>m. acquire L t (p, w) = (Inl (RuntimeError m), (p\<lparr>pl_timeouts := pl_timeouts p + 1\<rparr>, w))"
  by (simp add: acquire_def andThen_def onPool_def)

lemma acquire_some:
  assumes "pl_available p = slot # rest"
  shows "(\<exists>p' w'. acquire L t (p, w) = (Inr slot, (p', w')) \<and> pl_available p' = rest \<and>
            (pl_connections p' = pl_connections p \<and> pl_connections p ! slot \<noteq> None \<or>
             (\<exists>c. pl_connections p' = (pl_connections p)[slot := Some c]))) \<or>
         (\<exists>m p' w'. acquire L t (p, w) = (Inl (RuntimeError m), (p', w')) \<and>
            pl_available p' = rest @ [slot] \<and> pl_connections p' = pl_connections p)"
proof -
  let ?p = "p\<lparr>pl_available := rest\<rparr>"
  obtain b w1 where h: "healthy L slot (?p, w) = (Inr b, (?p, w1))"
    "b \<longrightarrow> pl_connections p ! slot \<noteq> None"
    using healthy_result [of L slot ?p w] by auto
  show ?thesis
  proof (cases b)
    case True
    then show ?thesis using h assms by (simp add: acquire_def andThen_def onPool_def)
  next
    case False
    obtain r p2 w2 where o: "openSlot L slot (?p, w1) = (r, (p2, w2))" by (metis surj_pair)
    show ?thesis
    proof (cases r)
      case (Inl e)
      then have "p2 = ?p" using openSlot_fails o by metis
      then show ?thesis
        using Inl o h False assms
        by (simp add: acquire_def andThen_def tryCatch_def onPool_def releaseSlot_def)
    next
      case (Inr u)
      then obtain c where "p2 = ?p\<lparr>pl_connections := (pl_connections p)[slot := Some c]\<rparr>"
        using openSlot_result [of L slot ?p w1 u p2 w2] o by auto
      then show ?thesis
        using Inr o h False assms by (auto simp: acquire_def andThen_def tryCatch_def onPool_def)
    qed
  qed
qed

lemma acquire_cases:
  "acquire L t (p, w) = (r, (p', w')) \<Longrightarrow>
     (case r of
        Inr slot \<Rightarrow> pl_available p = slot # pl_available p'
      | Inl e \<Rightarrow> mset (pl_available p') = mset (pl_available p)) \<and>
     length (pl_connections p') = length (pl_connections p)"
proof (cases "pl_available p")
  case Nil
  then show "acquire L t (p, w) = (r, (p', w')) \<Longrightarrow> ?thesis"
    using acquire_none [of p L t w] by auto
next
  case (Cons slot rest)
  show "acquire L t (p, w) = (r, (p', w')) \<Longrightarrow> ?thesis"
    using acquire_some [OF Cons, of L t w] Cons by auto
qed

interpretation slots: slot_pool "acquire L t" "\<lambda>k (p, w). (releaseSlot k p, w)" freeSlots
  for L :: "('w, 'c) conn_lib" and t
proof
  fix s :: "'c pool \<times> 'w" and k s'
  assume a: "acquire L t s = (Inr k, s')"
  show "freeSlots s = add_mset k (freeSlots s')"
    using a acquire_cases [of L t "fst s" "snd s" "Inr k" "fst s'" "snd s'"] by simp
next
  fix s :: "'c pool \<times> 'w" and e s'
  assume a: "acquire L t s = (Inl e, s')"
  show "freeSlots s' = freeSlots s"
    using a acquire_cases [of L t "fst s" "snd s" "Inl e" "fst s'" "snd s'"] by simp
next
  fix s :: "'c pool \<times> 'w" and k
  show "freeSlots (case s of (p, w) \<Rightarrow> (releaseSlot k p, w)) = add_mset k (freeSlots s)"
    by (simp add: releaseSlot_def split: prod.split)
qed

section \<open>Use of the pool by many clients\<close>

text \<open>A pool of \<open>n\<close> slots and the slots its live guards hold.\<close>

inductive pool_reach :: "('w, 'c) conn_lib \<Rightarrow> nat \<Rightarrow> 'c pool \<Rightarrow> nat list \<Rightarrow> bool" for L n where
  Opened: "newPool L cfg (int n) w = (Inr p, w') \<Longrightarrow> 1 \<le> n \<Longrightarrow> n \<le> 20 \<Longrightarrow> pool_reach L n p []"
| Acquired: "pool_reach L n p held \<Longrightarrow> acquire L t (p, w) = (Inr k, (p', w')) \<Longrightarrow>
     pool_reach L n p' (k # held)"
| Failed: "pool_reach L n p held \<Longrightarrow> acquire L t (p, w) = (Inl e, (p', w')) \<Longrightarrow>
     pool_reach L n p' held"
| Dropped: "pool_reach L n p (hs @ k # gs) \<Longrightarrow>
     pool_reach L n (guardDestroy (Some k) p) (hs @ gs)"
| MoveAssigned: "pool_reach L n p (hs @ k # gs) \<Longrightarrow>
     guardMoveAssign (Some k) src p = (gd, p') \<Longrightarrow> pool_reach L n p' (hs @ gs)"

definition pool_ok :: "nat \<Rightarrow> 'c pool \<Rightarrow> nat list \<Rightarrow> bool" where
  "pool_ok n p held \<longleftrightarrow>
     length (pl_connections p) = n \<and> mset (pl_available p) + mset held = mset [0..<n] \<and>
     (\<forall>k \<in> set held. pl_connections p ! k \<noteq> None)"

definition pool_full :: "nat \<Rightarrow> 'c pool \<Rightarrow> bool" where
  "pool_full k p \<longleftrightarrow> length (pl_connections p) = k \<and> pl_available p = [0..<k] \<and>
     (\<forall>i < k. pl_connections p ! i \<noteq> None)"

lemma openOne_full:
  assumes "openOne L k (p, w) = (Inr u, (p', w'))" and "pool_full k p"
  shows "pool_full (Suc k) p'"
proof -
  let ?p = "p\<lparr>pl_connections := pl_connections p @ [None]\<rparr>"
  obtain r p2 w2 where o: "openSlot L k (?p, w) = (r, (p2, w2))" by (metis surj_pair)
  then obtain v where v: "r = Inr v"
    using assms(1) by (cases r) (simp_all add: openOne_def andThen_def onPool_def)
  then obtain c where "p2 = ?p\<lparr>pl_connections := (pl_connections p @ [None])[k := Some c]\<rparr>"
    using openSlot_result [of L k ?p w v p2 w2] o by auto
  then show ?thesis
    using assms o v
    by (auto simp: openOne_def andThen_def onPool_def pool_full_def nth_append less_Suc_eq)
qed

lemma openAll_full:
  "k \<le> n \<Longrightarrow> forEach [k..<n] (openOne L) (p, w) = (Inr u, (p', w')) \<Longrightarrow> pool_full k p \<Longrightarrow>
     pool_full n p'"
proof (induction "n - k" arbitrary: k p w)
  case 0
  then show ?case by simp
next
  case (Suc d)
  then have "k < n" by simp
  obtain r p1 w1 where o: "openOne L k (p, w) = (r, (p1, w1))" by (metis surj_pair)
  have f: "forEach [k..<n] (openOne L) = andThen (openOne L k) (\<lambda>_. forEach [Suc k..<n] (openOne L))"
    using \<open>k < n\<close> by (simp add: upt_conv_Cons)
  obtain v where v: "r = Inr v"
    using Suc.prems(2) o unfolding f by (cases r) (simp_all add: andThen_def)
  have "pool_full (Suc k) p1" using openOne_full [of L k p w v p1 w1] o v Suc.prems(3) by simp
  moreover have "forEach [Suc k..<n] (openOne L) (p1, w1) = (Inr u, (p', w'))"
    using Suc.prems(2) o v unfolding f by (simp add: andThen_def)
  ultimately show ?case using Suc.hyps(1) [of "Suc k" p1 w1] Suc.hyps(2) \<open>k < n\<close> by simp
qed

lemma newPool_full:
  assumes "newPool L cfg n w = (Inr p, w')"
  shows "pool_full (nat (clampPool n)) p"
proof -
  obtain u where "forEach [0..<nat (clampPool n)] (openOne L) (emptyPool (connStrOf cfg), w) = (Inr u, (p, w'))"
    using assms by (auto simp: newPool_def openAll_def split: prod.splits sum.splits)
  then show ?thesis
    by (rule openAll_full [rotated]) (simp_all add: pool_full_def emptyPool_def)
qed

lemma acquire_pool_ok:
  assumes ok: "pool_ok n p held" and a: "acquire L t (p, w) = (r, (p', w'))"
  shows "pool_ok n p' (case r of Inr k \<Rightarrow> k # held | Inl e \<Rightarrow> held)"
proof (cases "pl_available p")
  case Nil
  then show ?thesis using ok a acquire_none [of p L t w] by (auto simp: pool_ok_def)
next
  case (Cons slot rest)
  have m: "mset (pl_available p) + mset held = mset [0..<n]" and l: "length (pl_connections p) = n"
    and h: "\<forall>k \<in> set held. pl_connections p ! k \<noteq> None"
    using ok by (simp_all add: pool_ok_def)
  have "set_mset (mset (pl_available p) + mset held) = {0..<n}" by (simp add: m)
  then have "slot < n" using Cons by auto
  then show ?thesis
    using acquire_some [OF Cons, of L t w] a l m h Cons
    by (auto simp: pool_ok_def nth_list_update)
qed

lemma pool_reach_ok: "pool_reach L n p held \<Longrightarrow> pool_ok n p held"
proof (induction rule: pool_reach.induct)
  case (Opened cfg w p w')
  then have "clampPool (int n) = int n" by (simp add: clampPool_def)
  then show ?case using newPool_full [OF Opened(1)] by (simp add: pool_full_def pool_ok_def)
next
  case (Acquired p held t w k p' w')
  then show ?case using acquire_pool_ok [of n p held L t w "Inr k"] by simp
next
  case (Failed p held t w e p' w')
  then show ?case using acquire_pool_ok [of n p held L t w "Inl e"] by simp
next
  case (Dropped p hs k gs)
  then show ?case by (simp add: pool_ok_def guardDestroy_def releaseSlot_def)
next
  case (MoveAssigned p hs k gs src gd p')
  then show ?case
    by (auto simp: pool_ok_def guardMoveAssign_def guardDestroy_def releaseSlot_def)
qed

text \<open>The clock never runs back, and a sleep lasts at least as long as asked.\<close>

definition steady :: "('w, 'c) conn_lib \<Rightarrow> bool" where
  "steady L \<longleftrightarrow>
     (\<forall>ms w. cl_now L w + ms \<le> cl_now L (cl_sleep L ms w)) \<and>
     (\<forall>s w. cl_now L w \<le> cl_now L (snd (cl_open L s w))) \<and>
     (\<forall>c w. cl_now L w \<le> cl_now L (snd (cl_prepare L c w)))"

lemma keeps_onWorld_time:
  "(\<And>w. cl_now L w \<le> cl_now L (snd (m w))) \<Longrightarrow> keeps (\<lambda>s. t \<le> cl_now L (snd s)) (onWorld m)"
  by (auto simp: keeps_def onWorld_def split: prod.split) (metis order_trans snd_conv)

lemma openOne_time:
  assumes "steady L"
  shows "keeps (\<lambda>s. t \<le> cl_now L (snd s)) (openOne L i)"
proof -
  have "keeps (\<lambda>s. t \<le> cl_now L (snd s)) (onPool f)" for f :: "'b pool \<Rightarrow> 'b pool"
    by (auto simp: keeps_def onPool_def)
  then show ?thesis
    using assms unfolding openOne_def openSlot_def steady_def
    by (auto intro!: keeps_andThen keeps_onWorld_time keeps_if)
qed

lemma newPool_time: "steady L \<Longrightarrow> cl_now L w \<le> cl_now L (snd (newPool L cfg k w))"
proof -
  assume "steady L"
  then have "keeps (\<lambda>s. cl_now L w \<le> cl_now L (snd s)) (openAll L (nat (clampPool k)))"
    unfolding openAll_def by (intro keeps_forEach openOne_time)
  from keepsD [OF this, of "(emptyPool (connStrOf cfg), w)"] show ?thesis
    by (auto simp: newPool_def split: prod.splits sum.splits)
qed

lemma retryLoop_returns:
  assumes "steady L"
  shows "deadline \<le> cl_now L w + 2000 * int fuel \<Longrightarrow>
    \<exists>r w'. retryLoop (Suc fuel) L cfg slots deadline attempt w = Some (r, w') \<and>
      (\<forall>e. r = Inl e \<longrightarrow> deadline \<le> cl_now L w')"
proof (induction fuel arbitrary: attempt w)
  case 0
  have "cl_now L w \<le> cl_now L (snd (newPool L cfg slots w))" by (rule newPool_time [OF assms])
  then show ?case using 0 by (auto split: prod.split sum.split)
next
  case (Suc fuel)
  obtain r w' where n: "newPool L cfg slots w = (r, w')" by fastforce
  show ?case
  proof (cases "isl r \<and> cl_now L w' < deadline")
    case False
    then show ?thesis using n by (cases r) (auto simp: not_less)
  next
    case True
    then obtain e where e: "r = Inl e" by (cases r) auto
    have t: "cl_now L w \<le> cl_now L w'" using newPool_time [OF assms, of w cfg slots] n by simp
    have "cl_now L w' + 2000 \<le> cl_now L (cl_sleep L 2000 w')"
      using assms by (simp add: steady_def)
    then have "deadline \<le> cl_now L (cl_sleep L 2000 w') + 2000 * int fuel"
      using Suc.prems t by simp
    from Suc.IH [OF this, of "attempt + 1"] show ?thesis
      using n e True by (subst retryLoop.simps) (simp add: not_le del: retryLoop.simps)
  qed
qed

lemma connectTimeout_range: "0 \<le> connectTimeoutFromEnv env \<and> connectTimeoutFromEnv env \<le> 600"
  by (auto simp: connectTimeoutFromEnv_def Let_def split: option.splits sum.splits)

section \<open>Properties\<close>


text \<open>A world of numbered connections of which number 0 is dead after it was opened.\<close>

definition demoConn :: "(nat, nat) conn_lib" where
  "demoConn = \<lparr>cl_open = (\<lambda>s w. (Inr w, Suc w)), cl_is_open = (\<lambda>c w. True),
     cl_prepare = (\<lambda>c. ret ()),
     cl_probe = (\<lambda>c. if c = 0 then throw (SqlFailure ''terminated'') else ret ()),
     cl_now = (\<lambda>w. int w), cl_sleep = (\<lambda>ms w. w + nat (max 0 ms))\<rparr>"

definition demoDb :: DatabaseConfig where
  "demoDb = \<lparr>db_dbname = ''d'', db_user = ''u'', db_password = [], db_host = ''h'', db_port = 5432\<rparr>"

definition demoPool :: "nat pool" where
  "demoPool = (case newPool demoConn demoDb 2 0 of (Inr p, w) \<Rightarrow> p | _ \<Rightarrow> emptyPool [])"

definition demoPool1 :: "nat pool" where
  "demoPool1 = fst (snd (acquire demoConn 5000 (demoPool, 2)))"

lemmas pool_eval = newPool_def openAll_def openOne_def openSlot_def andThen_def onPool_def
  onWorld_def clampPool_def emptyPool_def demoConn_def acquire_def healthy_def tryCatch_def
  upt_rec numeral_2_eq_2

lemma demoPool_reach: "pool_reach demoConn 2 demoPool []"
proof -
  have "\<exists>p w'. newPool demoConn demoDb (int 2) 0 = (Inr p, w')"
    by (simp add: pool_eval)
  then obtain p w' where n: "newPool demoConn demoDb (int 2) 0 = (Inr p, w')" by blast
  then have "demoPool = p" by (simp add: demoPool_def)
  then show ?thesis using Opened [OF n] by simp
qed

lemma demoPool_eq:
  "demoPool = \<lparr>pl_connStr = connStrOf demoDb, pl_connections = [Some 0, Some 1],
     pl_available = [0, 1], pl_timeouts = 0, pl_reconnects = 0\<rparr>"
  by (simp add: demoPool_def pool_eval)

lemma demoPool1_acquire:
  "acquire demoConn 5000 (demoPool, 2) = (Inr 0, (demoPool1, 3))"
  "demoPool1 = \<lparr>pl_connStr = connStrOf demoDb, pl_connections = [Some 2, Some 1],
     pl_available = [1], pl_timeouts = 0, pl_reconnects = 1\<rparr>"
  by (simp_all add: demoPool1_def demoPool_eq pool_eval)


text \<open>C33: \<open>createWithRetry\<close> returns: with the timeout read from the environment, which is between 0 and
  600 seconds whatever the variable holds, 301 attempts end it, with a pool or, once the deadline is
  over, with an error.\<close>

theorem createWithRetry_returns:
  assumes "steady L"
  shows "0 \<le> connectTimeoutFromEnv env \<and> connectTimeoutFromEnv env \<le> 600 \<and>
    (\<exists>r w'. createWithRetry 301 L cfg slots (connectTimeoutFromEnv env) w = Some (r, w') \<and>
       (isl r \<longrightarrow> cl_now L w + connectTimeoutFromEnv env * 1000 \<le> cl_now L w'))"
proof -
  have "cl_now L w + connectTimeoutFromEnv env * 1000 \<le> cl_now L w + 2000 * int 300"
    using connectTimeout_range [of env] by simp
  from retryLoop_returns [OF assms this, of cfg slots 0] obtain r w' where
    "retryLoop (Suc 300) L cfg slots (cl_now L w + connectTimeoutFromEnv env * 1000) 0 w = Some (r, w')"
    "\<forall>e. r = Inl e \<longrightarrow> cl_now L w + connectTimeoutFromEnv env * 1000 \<le> cl_now L w'" by blast
  then show ?thesis
    using connectTimeout_range [of env]
    unfolding createWithRetry_def by (cases r) (auto simp del: retryLoop.simps)
qed

definition downConn :: "(nat, nat) conn_lib" where
  "downConn = demoConn\<lparr>cl_open := (\<lambda>s. throw (SqlFailure ''refused''))\<rparr>"

lemma down_retry: "retryLoop k downConn demoDb 5 d a w = Some (r, w') \<Longrightarrow> isl r"
proof (induction k arbitrary: a w)
  case 0
  then show ?case by simp
next
  case (Suc k)
  have "isl (fst (newPool downConn demoDb 5 w))"
    by (simp add: newPool_def openAll_def openOne_def openSlot_def andThen_def onPool_def
        onWorld_def clampPool_def downConn_def upt_rec)
  then obtain e v where "newPool downConn demoDb 5 w = (Inl e, v)"
    by (cases "newPool downConn demoDb 5 w") (auto simp: isl_def)
  then show ?case using Suc by (auto split: if_splits)
qed

theorem createWithRetry_returns_witness:
  "connectTimeoutFromEnv (\<lambda>_. Some ''9999'') = 600 \<and>
   (\<exists>e w'. createWithRetry 301 downConn demoDb 5 (connectTimeoutFromEnv (\<lambda>_. Some ''9999'')) 0
      = Some (Inl e, w') \<and> 600000 \<le> w')"
proof -
  have st: "steady downConn"
    by (auto simp: steady_def downConn_def demoConn_def)
  have c: "connectTimeoutFromEnv (\<lambda>_. Some ''9999'') = 600"
    by (simp add: connectTimeoutFromEnv_def stoi_eval)
  obtain r w' where r: "createWithRetry 301 downConn demoDb 5 600 0 = Some (r, w')"
    "isl r \<longrightarrow> cl_now downConn 0 + 600 * 1000 \<le> cl_now downConn w'"
    using createWithRetry_returns [OF st, of "\<lambda>_. Some ''9999''" demoDb 5 0] unfolding c by blast
  from r(1) have "isl r" unfolding createWithRetry_def by (rule down_retry)
  moreover from this have "600000 \<le> w'" using r(2) by (simp add: downConn_def demoConn_def)
  ultimately show ?thesis using r(1) c by (auto simp: isl_def)
qed

end
