(* ===== verification/Network.thy ===== *)
theory Network
  imports Parser Response Events Versions Configuration WriteQueue
begin

text \<open>
  The I/O side of \<open>NetworkManager\<close> (\<open>src/network/NetworkManager.cpp\<close>): accepting, reading, framing,
  dispatching requests to the event queue, sending, reaping. \<open>services\<close> is what handling a message
  uses (write queues, event queue, version counters), \<open>conns\<close> the per-connection bookkeeping;
  both maps of the latter are keyed by the address of the socket object. Readings of the clock and
  of a socket's peer consume a tick of \<open>n_ticks\<close>, so that two readings may differ.
\<close>

section \<open>State\<close>

record net_env =
  ne_json :: json_lib
  ne_puttime :: "int \<Rightarrow> string"
  ne_clock :: "nat \<Rightarrow> int"
  ne_peer :: "sock \<Rightarrow> nat \<Rightarrow> string option"
  ne_addr :: "sock \<Rightarrow> nat"
  ne_cfg :: LoginServerConfig

record services =
  n_io :: netio
  n_queue :: "Event event_queue"
  n_stats :: VersionStats
  n_ticks :: nat

record conns =
  c_buffers :: "(nat \<times> string) list"
  c_active :: "nat list"
  c_reading :: "sock list"
  c_accepting :: bool

type_synonym net = "conns \<times> services"

definition newServices :: services where
  "newServices = \<lparr>n_io = emptyIO, n_queue = newQueue, n_stats = newStats, n_ticks = 0\<rparr>"

definition newConns :: conns where
  "newConns = \<lparr>c_buffers = [], c_active = [], c_reading = [], c_accepting = False\<rparr>"

definition tick :: "(nat \<Rightarrow> 'a) \<Rightarrow> (services, 'a) eff" where
  "tick f = (\<lambda>n. (Inr (f (n_ticks n)), n\<lparr>n_ticks := Suc (n_ticks n)\<rparr>))"

text \<open>\<open>socket->remote_endpoint().address().to_string()\<close>; without an error code it throws
  \<open>boost::system::system_error\<close>, a \<open>runtime_error\<close>.\<close>

definition remoteAddress :: "net_env \<Rightarrow> sock \<Rightarrow> (services, string) eff" where
  "remoteAddress E s =
     andThen (tick (ne_peer E s)) (\<lambda>p.
       case p of None \<Rightarrow> throw (RuntimeError ''remote_endpoint'') | Some ip \<Rightarrow> ret ip)"

section \<open>Responses\<close>

definition genResponse :: "net_env \<Rightarrow> string \<Rightarrow> json \<Rightarrow> (services, string) eff" where
  "genResponse E status message =
     andThen (tick (\<lambda>t. getCurrentTimestamp (ne_puttime E) (ne_clock E t))) (\<lambda>ts.
       lift_res (generateResponseMessage (ne_json E) ts status message))"

definition genResponseTs ::
  "net_env \<Rightarrow> string \<Rightarrow> json \<Rightarrow> TimestampStruct \<Rightarrow> (services, string) eff" where
  "genResponseTs E status message timestamps =
     andThen (tick (\<lambda>t. getCurrentTimestamp (ne_puttime E) (ne_clock E t))) (\<lambda>ts.
     andThen (tick (ne_clock E)) (\<lambda>nowMs.
       lift_res (generateResponseMessageTs (ne_json E) ts nowMs status message timestamps)))"

definition sendResponse :: "net_env \<Rightarrow> sock option \<Rightarrow> string \<Rightarrow> (services, unit) eff" where
  "sendResponse E clientSocket responseString =
     updS (\<lambda>n. case frameResponse responseString of
                 None \<Rightarrow> n
               | Some framed \<Rightarrow>
                   n\<lparr>n_io := enqueueWrite (ne_addr E) clientSocket framed (n_io n)\<rparr>)"

text \<open>The error objects the network layer builds: header fields and an object body.\<close>

definition errorJson :: "string \<Rightarrow> string \<Rightarrow> (string \<times> json) list \<Rightarrow> json" where
  "errorJson eventType message body =
     JObj [(''body'', JObj body),
           (''header'', JObj [(''eventType'', JStr eventType), (''message'', JStr message)])]"

definition sendError ::
  "net_env \<Rightarrow> sock \<Rightarrow> string \<Rightarrow> string \<Rightarrow> (string \<times> json) list \<Rightarrow> (services, unit) eff" where
  "sendError E s eventType message body =
     andThen (genResponse E ''error'' (errorJson eventType message body)) (\<lambda>r.
       sendResponse E (Some s) r)"

section \<open>The version check\<close>

definition versionBody :: "net_env \<Rightarrow> (string \<times> json) list" where
  "versionBody E =
     [(''maxClientVersion'', JStr (ls_maxClientVersion (ne_cfg E))),
      (''minClientVersion'', JStr (ls_minClientVersion (ne_cfg E))),
      (''serverVersion'', JStr kProtocolVersion)]"

definition checkClientVersion ::
  "net_env \<Rightarrow> string \<Rightarrow> string \<Rightarrow> sock \<Rightarrow> (services, bool) eff" where
  "checkClientVersion E clientVersion eventType s =
     andThen (updS (\<lambda>n. n\<lparr>n_stats := recordVersion clientVersion (n_stats n)\<rparr>)) (\<lambda>_.
       (case versionGate (ls_minClientVersion (ne_cfg E)) (ls_maxClientVersion (ne_cfg E))
               clientVersion of
          VersionOutdated \<Rightarrow>
            andThen (sendError E s eventType ''ERR_VERSION_OUTDATED'' (versionBody E)) (\<lambda>_. ret False)
        | VersionTooNew \<Rightarrow>
            andThen (sendError E s eventType ''ERR_VERSION_TOO_NEW'' (versionBody E)) (\<lambda>_. ret False)
        | Accepted \<Rightarrow> ret True))"

definition versionStatsSnapshot :: "services \<Rightarrow> string" where
  "versionStatsSnapshot n = snapshot (n_stats n)"

section \<open>One message\<close>

definition pushQ :: "Event \<Rightarrow> (services, unit) eff" where
  "pushQ e = updS (\<lambda>n. n\<lparr>n_queue := pushEvent e (n_queue n)\<rparr>)"

text \<open>An event about a client, with the timestamps of its request.\<close>

definition clientEvent ::
  "EventType \<Rightarrow> ClientDataStruct \<Rightarrow> sock \<Rightarrow> TimestampStruct \<Rightarrow> Event" where
  "clientEvent t c s ts = setEventTimestamps ts (mkEvent t (cd_clientId c) (ED_client c) (Some s))"

definition parseRegistration :: "sock \<Rightarrow> string \<Rightarrow> json \<Rightarrow> RegistrationDataStruct" where
  "parseRegistration s ip jsonData =
     (let field = (\<lambda>k. if hasField jsonData ''body'' k is_string
                       then str_of (fieldOf jsonData ''body'' k) else [])
      in \<lparr>reg_login = field ''login'', reg_password = field ''password'',
          reg_email = field ''email'', reg_registrationIp = ip,
          reg_clientVersion = field ''clientVersion'', reg_socket = Some s\<rparr>)"

definition hasSession :: "ClientDataStruct \<Rightarrow> bool" where
  "hasSession c \<longleftrightarrow> cd_hash c \<noteq> [] \<and> cd_clientId c \<noteq> 0"

text \<open>The chain of \<open>if\<close>s on the event type: at most one of them applies.\<close>

definition dispatchRequest ::
  "net_env \<Rightarrow> sock \<Rightarrow> json \<Rightarrow> TimestampStruct \<Rightarrow> (services, unit) eff" where
  "dispatchRequest E s jsonData timestamps =
     (let eventType = parseEventType jsonData;
          clientData = parseClientData jsonData;
          characterData = parseCharacterData jsonData;
          withSocket = clientData\<lparr>cd_socket := Some s\<rparr>
      in if eventType = ''authentificationClient'' \<and> cd_login clientData \<noteq> [] \<and>
            cd_password clientData \<noteq> [] then
           andThen (checkClientVersion E (cd_clientVersion clientData) eventType s) (\<lambda>ok.
             if \<not> ok then ret () else pushQ (clientEvent AUTH_CLIENT withSocket s timestamps))
         else if eventType = ''getCharactersList'' \<and> hasSession clientData then
           pushQ (clientEvent GET_CHARACTERS_LIST withSocket s timestamps)
         else if eventType = ''createCharacter'' \<and> hasSession clientData then
           pushQ (clientEvent CREATE_CHARACTER
                    (withSocket\<lparr>cd_characterData := characterData\<rparr>) s timestamps)
         else if eventType = ''disconnectClient'' \<and> hasSession clientData then
           pushQ (clientEvent DISCONNECT_CLIENT clientData s timestamps)
         else if eventType = ''pingClient'' then
           pushQ (clientEvent PING_CLIENT withSocket s timestamps)
         else if eventType = ''registerAccount'' then
           andThen (remoteAddress E s) (\<lambda>ip.
             let reg = parseRegistration s ip jsonData in
             andThen (checkClientVersion E (reg_clientVersion reg) eventType s) (\<lambda>ok.
               if \<not> ok then ret ()
               else pushQ (setEventTimestamps timestamps
                             (mkEvent REGISTER_ACCOUNT 0 (ED_registration reg) (Some s)))))
         else if eventType = ''getCharacterCreationOptions'' \<and> hasSession clientData then
           pushQ (clientEvent GET_CHARACTER_CREATION_OPTIONS withSocket s timestamps)
         else if eventType = ''deleteCharacter'' \<and> hasSession clientData then
           pushQ (clientEvent DELETE_CHARACTER
                    (withSocket\<lparr>cd_characterData := characterData\<rparr>) s timestamps)
         else ret ())"

text \<open>The position and the message fields are parsed too and not used.\<close>

definition processMessage :: "net_env \<Rightarrow> sock \<Rightarrow> string \<Rightarrow> (services, unit) eff" where
  "processMessage E s message =
     tryCatch
       (andThen (lift_res (json_parse (ne_json E) message)) (\<lambda>jsonData.
        andThen (tick (\<lambda>t. parseTimestampsFromHeader (ne_json E) (ne_clock E t) jsonData)) (\<lambda>ts.
          dispatchRequest E s jsonData ts)))
       (\<lambda>e. tryCatch (sendError E s ''unknown'' kErrMalformed []) (\<lambda>e. ret ()))"

section \<open>Connections\<close>

definition onServices :: "(services, 'a) eff \<Rightarrow> (net, 'a) eff" where
  "onServices m = (\<lambda>(c, n). case m n of (r, n') \<Rightarrow> (r, (c, n')))"

definition onConns :: "(conns \<Rightarrow> conns) \<Rightarrow> (net, unit) eff" where
  "onConns f = (\<lambda>(c, n). (Inr (), (f c, n)))"

definition updIO :: "(netio \<Rightarrow> netio) \<Rightarrow> (net, unit) eff" where
  "updIO f = onServices (updS (\<lambda>n. n\<lparr>n_io := f (n_io n)\<rparr>))"

definition reapSocket :: "net_env \<Rightarrow> sock option \<Rightarrow> (net, unit) eff" where
  "reapSocket E clientSocket =
     (case clientSocket of
        None \<Rightarrow> ret ()
      | Some s \<Rightarrow>
          andThen (onConns (\<lambda>c. c\<lparr>c_buffers := AList.delete (ne_addr E s) (c_buffers c)\<rparr>)) (\<lambda>_.
          andThen (onConns (\<lambda>c. c\<lparr>c_active := removeAll (ne_addr E s) (c_active c)\<rparr>)) (\<lambda>_.
            updIO (\<lambda>io. closeSocket s (removeWriteQueue (Some (ne_addr E s)) (Some s) io)))))"

definition extractV2Messages :: "net_env \<Rightarrow> sock \<Rightarrow> string \<Rightarrow> (net, unit) eff" where
  "extractV2Messages E s accumulatedData =
     (\<lambda>(c, n).
        case extractLoop (\<lambda>m n. snd (processMessage E s m n)) 0 accumulatedData n of
          (Some len, rest, n') \<Rightarrow>
            andThen (onServices (sendError E s ''framing'' kErrOversize [])) (\<lambda>_.
              reapSocket E (Some s)) (c, n')
        | (None, rest, n') \<Rightarrow>
            if rest = [] then (Inr (), (c, n'))
            else if length rest > kMaxAccumulatedBytesV2 then
              andThen (onServices (sendError E s ''framing'' kErrOversize [])) (\<lambda>_.
                onConns (\<lambda>c. c\<lparr>c_buffers := AList.update (ne_addr E s) [] (c_buffers c)\<rparr>)) (c, n')
            else (Inr (), (c\<lparr>c_buffers := AList.update (ne_addr E s) rest (c_buffers c)\<rparr>, n')))"

definition handleClientData :: "net_env \<Rightarrow> sock \<Rightarrow> string \<Rightarrow> nat \<Rightarrow> (net, unit) eff" where
  "handleClientData E s dataBuffer bytes_transferred =
     andThen (readS (\<lambda>(c, n). map_of (c_buffers c) (ne_addr E s))) (\<lambda>found.
     andThen (onConns (\<lambda>c. case found of
                None \<Rightarrow> c
              | Some b \<Rightarrow> c\<lparr>c_buffers := AList.update (ne_addr E s) [] (c_buffers c)\<rparr>)) (\<lambda>_.
       let accumulatedData = (case found of None \<Rightarrow> [] | Some b \<Rightarrow> b) in
       if length accumulatedData + bytes_transferred > kMaxAccumulatedBytesV2 then
         andThen (onConns (\<lambda>c. c\<lparr>c_buffers := AList.delete (ne_addr E s) (c_buffers c)\<rparr>)) (\<lambda>_.
           updIO (closeSocket s))
       else extractV2Messages E s (accumulatedData @ take bytes_transferred dataBuffer)))"

definition startReadingFromClient :: "sock \<Rightarrow> (net, unit) eff" where
  "startReadingFromClient s = onConns (\<lambda>c. c\<lparr>c_reading := s # c_reading c\<rparr>)"

text \<open>The completion of \<open>async_read_some\<close>: data, or an error (end of file, cancelled, other).\<close>

datatype read_result = ReadData string | ReadEof | ReadAborted | ReadError string

definition onRead :: "net_env \<Rightarrow> sock \<Rightarrow> read_result \<Rightarrow> (net, unit) eff" where
  "onRead E s result =
     andThen (onConns (\<lambda>c. c\<lparr>c_reading := removeAll s (c_reading c)\<rparr>)) (\<lambda>_.
       case result of
         ReadData bytes \<Rightarrow>
           andThen (handleClientData E s bytes (length bytes)) (\<lambda>_. startReadingFromClient s)
       | ReadEof \<Rightarrow> reapSocket E (Some s)
       | ReadAborted \<Rightarrow> reapSocket E (Some s)
       | ReadError e \<Rightarrow> reapSocket E (Some s))"

definition startAccept :: "(net, unit) eff" where
  "startAccept = onConns (\<lambda>c. c\<lparr>c_accepting := True\<rparr>)"

text \<open>
  The completion of \<open>async_accept\<close> into the new socket object \<open>s\<close>, which is connected when there is
  no error. The peer's address is read with the throwing overload, outside every \<open>try\<close>: an
  exception leaves \<open>io_context::run\<close>.
\<close>

definition onAccept :: "net_env \<Rightarrow> sock \<Rightarrow> bool \<Rightarrow> (net, unit) eff" where
  "onAccept E s error =
     andThen (onConns (\<lambda>c. c\<lparr>c_accepting := False\<rparr>)) (\<lambda>_.
       if error then startAccept
       else andThen (updIO (connectSocket s)) (\<lambda>_.
            andThen (onServices (remoteAddress E s)) (\<lambda>ip.
            andThen (readS (\<lambda>(c, n). length (c_active c))) (\<lambda>k.
              if int k \<ge> ls_max_clients (ne_cfg E) then
                andThen (updIO (closeSocket s)) (\<lambda>_. startAccept)
              else
                andThen (onConns (\<lambda>c. c\<lparr>c_active := List.insert (ne_addr E s) (c_active c)\<rparr>)) (\<lambda>_.
                andThen (startReadingFromClient s) (\<lambda>_. startAccept))))))"

section \<open>Start and stop\<close>

text \<open>
  The constructor's acceptor set-up with the error codes of \<open>open\<close>, \<open>set_option\<close>, \<open>bind\<close> and \<open>listen\<close>
  (\<open>None\<close> is success): each call overwrites \<open>ec\<close>. The result is the error the constructor sees.
\<close>

definition acceptorSetup ::
  "string option \<Rightarrow> string option \<Rightarrow> string option \<Rightarrow> string option \<Rightarrow> string option" where
  "acceptorSetup openEc optEc bindEc listenEc =
     (let ec = openEc in
      if ec = None then (let ec = optEc; ec = bindEc; ec = listenEc in ec) else ec)"

text \<open>\<open>startIOEventLoop\<close>: the accept is armed and one thread per hardware thread runs the context.\<close>

definition startIOEventLoop :: "nat \<Rightarrow> net \<Rightarrow> nat \<times> net" where
  "startIOEventLoop hardware_concurrency s = (hardware_concurrency, snd (startAccept s))"

text \<open>\<open>stopIO\<close> and the destructor: no handler runs any longer; the destructor drops the queues.\<close>

definition stopIO :: "net \<Rightarrow> net" where
  "stopIO = (\<lambda>(c, n). (c\<lparr>c_accepting := False, c_reading := []\<rparr>, n))"

definition destroyNetwork :: "net \<Rightarrow> net" where
  "destroyNetwork s = (case stopIO s of (c, n) \<Rightarrow> (c, n\<lparr>n_io := (n_io n)\<lparr>io_map := []\<rparr>\<rparr>))"

section \<open>What one message does\<close>

lemma tick_app [simp, eff_simps]: "tick f n = (Inr (f (n_ticks n)), n\<lparr>n_ticks := Suc (n_ticks n)\<rparr>)"
  by (simp add: tick_def)

text \<open>What has been posted for writing, socket by socket, in order.\<close>

definition posted :: "services \<Rightarrow> (sock \<times> string) list" where
  "posted n = map (\<lambda>p. (po_sock p, po_data p)) (io_posted (n_io n))"

lemma enqueueWrite_posted:
  "io_posted (enqueueWrite addr (Some s) d io) =
     io_posted io @ [\<lparr>po_queue = the (fst (getOrCreateWriteQueue addr (Some s) io)),
                      po_sock = s, po_data = d\<rparr>]"
  by (auto simp: enqueueWrite_def getOrCreateWriteQueue_def registerQueue_def Let_def
      split: option.split)

lemma sendResponse_null: "sendResponse E None r n = (Inr (), n)"
  by (cases "frameResponse r")
     (simp_all add: sendResponse_def enqueueWrite_def getOrCreateWriteQueue_def)

lemma sendResponse_posted:
  "\<exists>n'. sendResponse E (Some s) r n = (Inr (), n') \<and> n_queue n' = n_queue n \<and>
     n_stats n' = n_stats n \<and> n_ticks n' = n_ticks n \<and>
     posted n' = posted n @ (case frameResponse r of None \<Rightarrow> [] | Some f \<Rightarrow> [(s, f)])"
  by (simp add: sendResponse_def posted_def enqueueWrite_posted split: option.split)

lemma genResponse_result:
  "genResponse E status message n =
     (generateResponseMessage (ne_json E)
        (getCurrentTimestamp (ne_puttime E) (ne_clock E (n_ticks n))) status message,
      n\<lparr>n_ticks := Suc (n_ticks n)\<rparr>)"
  by (simp add: genResponse_def)

text \<open>Sending an error touches neither the queue nor the counters, and posts at most one frame.\<close>

lemma sendError_effect:
  "\<exists>r n'. sendError E s et msg body n = (r, n') \<and> n_queue n' = n_queue n \<and>
     n_stats n' = n_stats n \<and>
     (case generateResponseMessage (ne_json E)
             (getCurrentTimestamp (ne_puttime E) (ne_clock E (n_ticks n))) ''error''
             (errorJson et msg body) of
        Inl e \<Rightarrow> r = Inl e \<and> posted n' = posted n
      | Inr line \<Rightarrow> r = Inr () \<and>
          posted n' = posted n @ (case frameResponse line of None \<Rightarrow> [] | Some f \<Rightarrow> [(s, f)]))"
proof (cases "generateResponseMessage (ne_json E)
             (getCurrentTimestamp (ne_puttime E) (ne_clock E (n_ticks n))) ''error''
             (errorJson et msg body)")
  case (Inl e)
  then show ?thesis by (simp add: sendError_def andThen_def genResponse_result posted_def)
next
  case (Inr line)
  obtain n' where "sendResponse E (Some s) line (n\<lparr>n_ticks := Suc (n_ticks n)\<rparr>) = (Inr (), n')"
    "n_queue n' = n_queue n" "n_stats n' = n_stats n"
    "posted n' = posted n @ (case frameResponse line of None \<Rightarrow> [] | Some f \<Rightarrow> [(s, f)])"
    using sendResponse_posted [of E s line "n\<lparr>n_ticks := Suc (n_ticks n)\<rparr>"] by (auto simp: posted_def)
  then show ?thesis using Inr by (simp add: sendError_def andThen_def genResponse_result)
qed

lemma sendResponse_io:
  "\<exists>g. io_posted (n_io (snd (sendResponse E (Some s) r n))) = io_posted (n_io n) @ g \<and>
     io_flight (n_io (snd (sendResponse E (Some s) r n))) = io_flight (n_io n) \<and>
     io_wire (n_io (snd (sendResponse E (Some s) r n))) = io_wire (n_io n) \<and>
     io_open (n_io (snd (sendResponse E (Some s) r n))) = io_open (n_io n)"
proof (cases "frameResponse r")
  case None
  then show ?thesis by (simp add: sendResponse_def)
next
  case (Some f)
  then show ?thesis
    by (auto simp: sendResponse_def enqueueWrite_def getOrCreateWriteQueue_def registerQueue_def
        Let_def split: option.split)
qed

lemma sendError_io:
  "\<exists>g. io_posted (n_io (snd (sendError E s et msg body n))) = io_posted (n_io n) @ g \<and>
     io_flight (n_io (snd (sendError E s et msg body n))) = io_flight (n_io n) \<and>
     io_wire (n_io (snd (sendError E s et msg body n))) = io_wire (n_io n) \<and>
     io_open (n_io (snd (sendError E s et msg body n))) = io_open (n_io n)"
proof -
  obtain r n1 where g: "genResponse E ''error'' (errorJson et msg body) n = (r, n1)" "n_io n1 = n_io n"
    by (simp add: genResponse_result)
  then show ?thesis
    using sendResponse_io [of E s _ n1] by (cases r) (auto simp: sendError_def andThen_def)
qed

lemma sendError_queue: "n_queue (snd (sendError E s et msg body n)) = n_queue n"
  using sendError_effect [of E s et msg body n] by auto

lemma checkClientVersion_queue:
  "n_queue (snd (checkClientVersion E v et s n)) = n_queue n \<and>
   n_stats (snd (checkClientVersion E v et s n)) = recordVersion v (n_stats n)"
proof -
  let ?n = "n\<lparr>n_stats := recordVersion v (n_stats n)\<rparr>"
  have "n_queue (snd (sendError E s et c b ?n)) = n_queue n \<and>
      n_stats (snd (sendError E s et c b ?n)) = recordVersion v (n_stats n)" for c b
    using sendError_effect [of E s et c b ?n] by auto
  then show ?thesis
    by (auto simp: checkClientVersion_def andThen_def split: gate.split prod.split sum.split)
       (metis snd_conv)+
qed

lemma checkClientVersion_true:
  "fst (checkClientVersion E v et s n) = Inr True \<longleftrightarrow>
     versionGate (ls_minClientVersion (ne_cfg E)) (ls_maxClientVersion (ne_cfg E)) v = Accepted"
  by (auto simp: checkClientVersion_def andThen_def split: gate.split prod.split sum.split)

text \<open>Which events may enter the queue on behalf of socket \<open>s\<close>.\<close>

definition admissible :: "net_env \<Rightarrow> sock \<Rightarrow> Event \<Rightarrow> bool" where
  "admissible E s e \<longleftrightarrow>
     ev_socket e = Some s \<and> ev_hasTimestamps e \<and>
     (let gate = versionGate (ls_minClientVersion (ne_cfg E)) (ls_maxClientVersion (ne_cfg E)) in
      case ev_data e of
        ED_client c \<Rightarrow>
          ev_clientID e = cd_clientId c \<and> in_int (cd_clientId c) \<and>
          (case ev_type e of
             AUTH_CLIENT \<Rightarrow> gate (cd_clientVersion c) = Accepted \<and> cd_login c \<noteq> [] \<and>
               cd_password c \<noteq> [] \<and> cd_socket c = Some s
           | PING_CLIENT \<Rightarrow> cd_socket c = Some s
           | DISCONNECT_CLIENT \<Rightarrow> hasSession c \<and> cd_socket c = None
           | REGISTER_ACCOUNT \<Rightarrow> False
           | _ \<Rightarrow> hasSession c \<and> cd_socket c = Some s)
      | ED_registration r \<Rightarrow>
          ev_type e = REGISTER_ACCOUNT \<and> gate (reg_clientVersion r) = Accepted \<and>
          reg_socket r = Some s \<and> ev_clientID e = 0
      | _ \<Rightarrow> False)"

lemma admissible_client:
  "admissible E s (clientEvent t c s ts) \<longleftrightarrow>
     in_int (cd_clientId c) \<and>
     (case t of
        AUTH_CLIENT \<Rightarrow> versionGate (ls_minClientVersion (ne_cfg E)) (ls_maxClientVersion (ne_cfg E))
            (cd_clientVersion c) = Accepted \<and> cd_login c \<noteq> [] \<and> cd_password c \<noteq> [] \<and>
            cd_socket c = Some s
      | PING_CLIENT \<Rightarrow> cd_socket c = Some s
      | DISCONNECT_CLIENT \<Rightarrow> hasSession c \<and> cd_socket c = None
      | REGISTER_ACCOUNT \<Rightarrow> False
      | _ \<Rightarrow> hasSession c \<and> cd_socket c = Some s)"
  by (simp add: admissible_def clientEvent_def Let_def)

text \<open>The effect on the queue: nothing, or one admissible event at its end.\<close>

definition queuesOne :: "net_env \<Rightarrow> sock \<Rightarrow> services \<Rightarrow> services \<Rightarrow> bool" where
  "queuesOne E s n n' \<longleftrightarrow>
     n_queue n' = n_queue n \<or> (\<exists>e. n_queue n' = pushEvent e (n_queue n) \<and> admissible E s e)"

lemma queuesOne_same: "n_queue n' = n_queue n \<Longrightarrow> queuesOne E s n n'"
  by (simp add: queuesOne_def)

lemma queuesOne_push: "admissible E s e \<Longrightarrow> queuesOne E s n (snd (pushQ e n))"
  by (auto simp: queuesOne_def pushQ_def)

lemma queuesOne_from: "n_queue m = n_queue n \<Longrightarrow> queuesOne E s m n' \<Longrightarrow> queuesOne E s n n'"
  by (simp add: queuesOne_def)

lemma queuesOne_checked:
  assumes "versionGate (ls_minClientVersion (ne_cfg E)) (ls_maxClientVersion (ne_cfg E)) v = Accepted
             \<Longrightarrow> admissible E s e"
  shows "queuesOne E s n (snd (andThen (checkClientVersion E v et s)
           (\<lambda>ok. if \<not> ok then ret () else pushQ e) n))"
proof -
  obtain r n1 where c: "checkClientVersion E v et s n = (r, n1)" by fastforce
  have q: "n_queue n1 = n_queue n" using checkClientVersion_queue [of E v et s n] c by simp
  show ?thesis
  proof (cases "r = Inr True")
    case True
    then have "admissible E s e" using assms checkClientVersion_true [of E v et s n] c by simp
    then show ?thesis
      using queuesOne_from [OF q queuesOne_push] c True by (simp add: andThen_def)
  next
    case False
    then show ?thesis
      using c q by (cases r) (auto simp: andThen_def intro: queuesOne_same)
  qed
qed

lemma remoteAddress_queue: "n_queue (snd (remoteAddress E s n)) = n_queue n"
  by (simp add: remoteAddress_def andThen_def split: option.split)

lemma queuesOne_if:
  "(b \<Longrightarrow> queuesOne E s n (snd (m n))) \<Longrightarrow> (\<not> b \<Longrightarrow> queuesOne E s n (snd (k n))) \<Longrightarrow>
     queuesOne E s n (snd ((if b then m else k) n))"
  by simp

lemma queuesOne_client:
  "admissible E s (clientEvent t c s ts) \<Longrightarrow> queuesOne E s n (snd (pushQ (clientEvent t c s ts) n))"
  by (rule queuesOne_push)

lemma dispatch_queues: "queuesOne E s n (snd (dispatchRequest E s j ts n))"
proof -
  have reg: "queuesOne E s n (snd (andThen (remoteAddress E s) (\<lambda>ip.
             let reg = parseRegistration s ip j in
             andThen (checkClientVersion E (reg_clientVersion reg) et s) (\<lambda>ok.
               if \<not> ok then ret ()
               else pushQ (setEventTimestamps ts
                             (mkEvent REGISTER_ACCOUNT 0 (ED_registration reg) (Some s))))) n))" for et
  proof -
    obtain r n1 where a: "remoteAddress E s n = (r, n1)" by fastforce
    have q: "n_queue n1 = n_queue n" using remoteAddress_queue [of E s n] a by simp
    show ?thesis
      using a q by (cases r) (auto simp: andThen_def [of "remoteAddress E s"] Let_def
          intro!: queuesOne_same queuesOne_from [OF q] queuesOne_checked
          simp: admissible_def parseRegistration_def)
  qed
  have i: "in_int (cd_clientId (parseClientData j))" by simp
  have skip: "queuesOne E s n (snd (ret () n))" by (simp add: queuesOne_same)
  show ?thesis
    unfolding dispatchRequest_def Let_def
    by (intro queuesOne_if queuesOne_client queuesOne_checked skip reg [unfolded Let_def];
        simp add: admissible_client hasSession_def i parseClientData_fields(6))
qed

lemma processMessage_result:
  "\<exists>n'. processMessage E s m n = (Inr (), n') \<and> queuesOne E s n n'"
proof -
  let ?body = "andThen (lift_res (json_parse (ne_json E) m)) (\<lambda>jsonData.
        andThen (tick (\<lambda>t. parseTimestampsFromHeader (ne_json E) (ne_clock E t) jsonData)) (\<lambda>ts.
          dispatchRequest E s jsonData ts))"
  obtain r n1 where b: "?body n = (r, n1)" by fastforce
  have q: "queuesOne E s n n1"
  proof (cases "json_parse (ne_json E) m")
    case (Inl e)
    then show ?thesis using b by (auto simp: andThen_def queuesOne_def)
  next
    case (Inr j)
    let ?n = "n\<lparr>n_ticks := Suc (n_ticks n)\<rparr>"
    have "queuesOne E s ?n n1"
      using b Inr dispatch_queues [of E s ?n j
          "parseTimestampsFromHeader (ne_json E) (ne_clock E (n_ticks n)) j"]
      by (simp add: andThen_def)
    then show ?thesis by (simp add: queuesOne_def)
  qed
  show ?thesis
  proof (cases r)
    case (Inr u)
    then show ?thesis using b q by (simp add: processMessage_def tryCatch_def)
  next
    case (Inl e)
    obtain r2 n2 where h: "sendError E s ''unknown'' kErrMalformed [] n1 = (r2, n2)" by fastforce
    have "n_queue n2 = n_queue n1" using sendError_queue [of E s "''unknown''" kErrMalformed "[]" n1] h by simp
    then have "queuesOne E s n n2" using q by (simp add: queuesOne_def)
    then show ?thesis
      using b h Inl unfolding processMessage_def tryCatch_def by (cases r2) simp_all
  qed
qed

section \<open>Reading a stream\<close>

abbreviation procMsg :: "net_env \<Rightarrow> sock \<Rightarrow> string \<Rightarrow> services \<Rightarrow> services" where
  "procMsg E s m n \<equiv> snd (processMessage E s m n)"

definition bufferOf :: "nat \<Rightarrow> conns \<Rightarrow> string" where
  "bufferOf k c = (case map_of (c_buffers c) k of None \<Rightarrow> [] | Some b \<Rightarrow> b)"

text \<open>Less than one frame, with a prefix the protocol allows.\<close>

definition partialFrame :: "string \<Rightarrow> bool" where
  "partialFrame r \<longleftrightarrow> length r < 4 \<or>
     unat (frameLen r) \<le> kMaxFrameBytes \<and> length r < 4 + unat (frameLen r)"

lemma frameLen_append: "4 \<le> length a \<Longrightarrow> frameLen (a @ b) = frameLen a"
proof -
  assume "4 \<le> length a"
  then have "(a @ b) ! 0 = a ! 0" "(a @ b) ! 1 = a ! 1" "(a @ b) ! 2 = a ! 2" "(a @ b) ! 3 = a ! 3"
    by (simp_all only: nth_append) auto
  then show ?thesis unfolding frameLen_def by (simp only:)
qed

lemma pack_not_partial:
  assumes "length x \<le> kMaxFrameBytes"
  shows "\<not> partialFrame (packFramedMessage x @ r)"
proof -
  have "frameLen (packFramedMessage x @ r) = word_of_nat (length x)" by (rule frameLen_pack [OF assms])
  then show ?thesis
    using unat_frame_size(1) [OF assms] assms by (simp add: partialFrame_def pack_length)
qed

lemma packAll_prefix_partial:
  assumes "sendable xs" and "sendable ys" and "packAll xs @ r = packAll ys @ p" and "partialFrame p"
  shows "\<exists>zs. ys = xs @ zs \<and> r = packAll zs @ p"
  using assms
proof (induction xs arbitrary: ys)
  case Nil
  then show ?case by auto
next
  case (Cons x xs)
  have x: "length x \<le> kMaxFrameBytes" using Cons.prems by simp
  have "ys \<noteq> []"
  proof
    assume "ys = []"
    then have "p = packFramedMessage x @ (packAll xs @ r)" using Cons.prems(3) by simp
    then show False using pack_not_partial [OF x] Cons.prems(4) by metis
  qed
  then obtain y ys' where ys: "ys = y # ys'" by (cases ys) auto
  have y: "length y \<le> kMaxFrameBytes" using Cons.prems ys by simp
  have eq: "packFramedMessage x @ packAll xs @ r = packFramedMessage y @ packAll ys' @ p"
    using Cons.prems(3) ys by simp
  have "word_of_nat (length x) = (word_of_nat (length y) :: u32)"
    using frameLen_pack [OF x] frameLen_pack [OF y] eq by metis
  then have "length x = length y" by (metis unat_frame_size(1) x y)
  then have "packFramedMessage x = packFramedMessage y" "packAll xs @ r = packAll ys' @ p"
    using eq by (simp_all add: pack_length x y append_eq_append_conv)
  moreover from this(1) have "x = y"
    using x y by (simp add: packFramedMessage_def append_eq_append_conv)
  ultimately show ?case
    using Cons.IH [of ys'] Cons.prems ys by auto
qed

lemma extractLoop_partial: "partialFrame r \<Longrightarrow> extractLoop proc k r s = (None, r, s)"
  by (subst extractLoop.simps) (auto simp: partialFrame_def Let_def unat_frame_add)

text \<open>What one read does as long as no length prefix is over the cap.\<close>

lemma handle_read:
  assumes b: "bufferOf (ne_addr E s) c = b" and cap: "length b + length chunk \<le> kMaxAccumulatedBytesV2"
    and x: "extractLoop (procMsg E s) 0 (b @ chunk) n = (None, rest, n')"
  shows "\<exists>c'. handleClientData E s chunk (length chunk) (c, n) = (Inr (), (c', n')) \<and>
           bufferOf (ne_addr E s) c' = rest \<and> c_reading c' = c_reading c \<and> c_active c' = c_active c"
proof -
  let ?k = "ne_addr E s"
  have "length rest \<le> length (b @ chunk)"
    using extractLoop_length [of "procMsg E s" 0 "b @ chunk" n] x by simp
  then have le: "\<not> length rest > kMaxAccumulatedBytesV2" using cap by simp
  show ?thesis
  proof (cases "map_of (c_buffers c) ?k")
    case None
    then have "b = []" using b by (simp add: bufferOf_def)
    then show ?thesis
      using None x le cap
      by (auto simp: handleClientData_def onConns_def andThen_def extractV2Messages_def bufferOf_def)
  next
    case (Some b')
    then have "b' = b" using b by (simp add: bufferOf_def)
    then show ?thesis
      using Some x le cap
      by (auto simp: handleClientData_def onConns_def andThen_def extractV2Messages_def bufferOf_def)
  qed
qed

fun readChunks :: "net_env \<Rightarrow> sock \<Rightarrow> string list \<Rightarrow> net \<Rightarrow> net" where
  "readChunks E s [] st = st"
| "readChunks E s (chunk # chunks) st =
     readChunks E s chunks (snd (handleClientData E s chunk (length chunk) st))"

text \<open>Bytes of a legal stream never make the loop see a prefix over the cap.\<close>

lemma extract_legal:
  assumes eq: "acc @ later = packAll ms @ p" and ms: "sendable ms" and p: "partialFrame p"
  shows "\<exists>k rest. k \<le> MAX_MESSAGES_PER_READ \<and> k \<le> length ms \<and>
    extractLoop proc 0 acc s = (None, rest, fold proc (take k ms) s) \<and>
    rest @ later = packAll (drop k ms) @ p"
proof -
  obtain r rest t where x: "extractLoop proc 0 acc s = (r, rest, t)" by (cases "extractLoop proc 0 acc s") auto
  obtain xs where xs: "acc = packAll xs @ rest" "sendable xs" "length xs \<le> MAX_MESSAGES_PER_READ"
    "t = fold proc xs s"
    using extractLoop_conserves [of acc proc 0 s] x by auto
  have "packAll xs @ (rest @ later) = packAll ms @ p" using eq xs(1) by simp
  then obtain zs where zs: "ms = xs @ zs" "rest @ later = packAll zs @ p"
    using packAll_prefix_partial [OF xs(2) ms _ p] by blast
  have "r = None"
  proof (rule ccontr)
    assume "r \<noteq> None"
    then obtain len where l: "4 \<le> length rest" "len = frameLen rest" "kMaxFrameBytes < unat len"
      using extractLoop_stops [where proc = proc and k = 0 and acc = acc and s = s] x by auto
    have f: "frameLen (packAll zs @ p) = frameLen rest"
      using frameLen_append [OF l(1), of later] zs(2) by simp
    show False
    proof (cases zs)
      case Nil
      then have "frameLen p = frameLen rest" "4 \<le> length p"
        using f l(1) zs(2) by (simp, metis Nil append_Nil concat.simps(1) le_trans length_append list.simps(8) le_add1)
      then show False using p l by (auto simp: partialFrame_def)
    next
      case (Cons z zs')
      then have z: "length z \<le> kMaxFrameBytes" using ms zs(1) by simp
      have "frameLen (packAll zs @ p) = word_of_nat (length z)"
        using frameLen_pack [OF z, of "packAll zs' @ p"] Cons by simp
      then show False using f l unat_frame_size(1) [OF z] z by simp
    qed
  qed
  then show ?thesis
    using x xs zs by (intro exI [of _ "length xs"] exI [of _ rest]) simp
qed

lemma readChunks_prefix:
  assumes "bufferOf (ne_addr E s) c @ concat chunks = packAll ms @ p" and "sendable ms"
    and "partialFrame p"
    and "length (bufferOf (ne_addr E s) c) + length (concat chunks) \<le> kMaxAccumulatedBytesV2"
  shows "\<exists>k c'. k \<le> length ms \<and>
    readChunks E s chunks (c, n) = (c', fold (procMsg E s) (take k ms) n) \<and>
    bufferOf (ne_addr E s) c' = packAll (drop k ms) @ p"
  using assms
proof (induction chunks arbitrary: c n ms)
  case Nil
  then show ?case by (intro exI [of _ 0] exI [of _ c]) simp
next
  case (Cons ch chs)
  let ?b = "bufferOf (ne_addr E s) c"
  have "(?b @ ch) @ concat chs = packAll ms @ p" using Cons.prems(1) by simp
  from extract_legal [OF this Cons.prems(2,3), of "procMsg E s" n]
  obtain k rest where k: "k \<le> length ms"
    "extractLoop (procMsg E s) 0 (?b @ ch) n = (None, rest, fold (procMsg E s) (take k ms) n)"
    "rest @ concat chs = packAll (drop k ms) @ p" by blast
  have cap: "length ?b + length ch \<le> kMaxAccumulatedBytesV2" using Cons.prems(4) by simp
  obtain c1 where c1: "handleClientData E s ch (length ch) (c, n) =
      (Inr (), (c1, fold (procMsg E s) (take k ms) n))" "bufferOf (ne_addr E s) c1 = rest"
    using handle_read [OF refl cap k(2)] by blast
  have "length rest \<le> length (?b @ ch)"
    using extractLoop_length [of "procMsg E s" 0 "?b @ ch" n] k(2) by simp
  then have len: "length (bufferOf (ne_addr E s) c1) + length (concat chs) \<le> kMaxAccumulatedBytesV2"
    using Cons.prems(4) c1(2) by simp
  have sd: "sendable (drop k ms)" using Cons.prems(2) by (meson in_set_dropD)
  obtain j c' where "j \<le> length (drop k ms)"
    "readChunks E s chs (c1, fold (procMsg E s) (take k ms) n) =
       (c', fold (procMsg E s) (take j (drop k ms)) (fold (procMsg E s) (take k ms) n))"
    "bufferOf (ne_addr E s) c' = packAll (drop j (drop k ms)) @ p"
    using Cons.IH [of c1 "drop k ms" "fold (procMsg E s) (take k ms) n"] c1(2) k(3) sd Cons.prems(3) len
    by auto
  moreover have "take (k + j) ms = take k ms @ take j (drop k ms)" by (rule take_add)
  ultimately show ?case
    using c1(1) k(1) by (intro exI [of _ "k + j"] exI [of _ c']) (simp add: add.commute [of j k])
qed

text \<open>A pace at which no read completes more than ten frames.\<close>

inductive paced :: "string \<Rightarrow> string list \<Rightarrow> string list \<Rightarrow> string \<Rightarrow> bool" where
  Quiet: "partialFrame b \<Longrightarrow> paced b [] [] b"
| Chunk: "partialFrame b \<Longrightarrow> b @ chunk = packAll ms @ b' \<Longrightarrow> sendable ms \<Longrightarrow>
     length ms \<le> MAX_MESSAGES_PER_READ \<Longrightarrow> length chunk \<le> kReadChunkBytes \<Longrightarrow>
     paced b' chunks ms' r \<Longrightarrow> paced b (chunk # chunks) (ms @ ms') r"

lemma paced_partial: "paced b chunks ms r \<Longrightarrow> partialFrame b"
  by (induction rule: paced.induct) auto

lemma partial_length: "partialFrame b \<Longrightarrow> length b \<le> kMaxFrameBytes + 4"
  by (auto simp: partialFrame_def)

lemma readChunks_paced:
  assumes "paced b chunks ms r" and "bufferOf (ne_addr E s) c = b"
  shows "\<exists>c'. readChunks E s chunks (c, n) = (c', fold (procMsg E s) ms n) \<and>
    bufferOf (ne_addr E s) c' = r"
  using assms
proof (induction arbitrary: c n rule: paced.induct)
  case (Quiet b)
  then show ?case by simp
next
  case (Chunk b chunk ms b' chunks ms' r)
  have cap: "length b + length chunk \<le> kMaxAccumulatedBytesV2"
    using partial_length [OF Chunk(1)] Chunk(5)
    by (simp add: kMaxAccumulatedBytesV2_def kReadChunkBytes_def)
  have "extractLoop (procMsg E s) 0 (b @ chunk) n = (None, b', fold (procMsg E s) ms n)"
    using extractLoop_packAll [of ms 0 "procMsg E s" b' n] Chunk(2-4)
      extractLoop_partial [OF paced_partial [OF Chunk(6)]] by simp
  from handle_read [OF Chunk(8) cap this] obtain c1 where
    "handleClientData E s chunk (length chunk) (c, n) = (Inr (), (c1, fold (procMsg E s) ms n))"
    "bufferOf (ne_addr E s) c1 = b'" by blast
  then show ?case using Chunk(7) [of c1 "fold (procMsg E s) ms n"] by simp
qed

section \<open>Connections stay within their bounds\<close>

definition conns_ok :: "net_env \<Rightarrow> conns \<Rightarrow> bool" where
  "conns_ok E c \<longleftrightarrow>
     dkeys (c_buffers c) \<and> (\<forall>(k, b) \<in> set (c_buffers c). length b \<le> kMaxAccumulatedBytesV2) \<and>
     distinct (c_active c) \<and> int (length (c_active c)) \<le> ls_max_clients (ne_cfg E)"

abbreviation net_ok :: "net_env \<Rightarrow> net \<Rightarrow> bool" where
  "net_ok E st \<equiv> conns_ok E (fst st)"

lemma keeps_onServices [intro!]: "keeps (net_ok E) (onServices m)"
  by (auto simp: keeps_def onServices_def split: prod.split)

lemma keeps_updIO [intro!]: "keeps (net_ok E) (updIO f)"
  by (simp add: updIO_def keeps_onServices)

lemma keeps_onConns: "(\<And>c. conns_ok E c \<Longrightarrow> conns_ok E (f c)) \<Longrightarrow> keeps (net_ok E) (onConns f)"
  by (auto simp: keeps_def onConns_def)

lemma conns_ok_delete: "conns_ok E c \<Longrightarrow> conns_ok E (c\<lparr>c_buffers := AList.delete k (c_buffers c)\<rparr>)"
  using set_delete_sub [of k "c_buffers c"] by (auto simp: conns_ok_def)

lemma conns_ok_update:
  "conns_ok E c \<Longrightarrow> length b \<le> kMaxAccumulatedBytesV2 \<Longrightarrow>
     conns_ok E (c\<lparr>c_buffers := AList.update k b (c_buffers c)\<rparr>)"
  by (auto simp: conns_ok_def dest!: set_update_cases)

lemma conns_ok_remove: "conns_ok E c \<Longrightarrow> conns_ok E (c\<lparr>c_active := removeAll k (c_active c)\<rparr>)"
proof -
  assume ok: "conns_ok E c"
  have "length (removeAll k (c_active c)) \<le> length (c_active c)" by (rule length_removeAll_less_eq)
  then have "int (length (removeAll k (c_active c))) \<le> ls_max_clients (ne_cfg E)"
    using ok unfolding conns_ok_def by linarith
  then show ?thesis using ok by (simp add: conns_ok_def distinct_removeAll)
qed

lemma conns_ok_other [simp]:
  "conns_ok E (c\<lparr>c_reading := r\<rparr>) = conns_ok E c" "conns_ok E (c\<lparr>c_accepting := b\<rparr>) = conns_ok E c"
  by (simp_all add: conns_ok_def)

lemma keeps_reap: "keeps (net_ok E) (reapSocket E so)"
  unfolding reapSocket_def
  by (cases so) (auto intro!: keeps_andThen keeps_onConns conns_ok_delete conns_ok_remove)

lemma keeps_extract: "keeps (net_ok E) (extractV2Messages E s acc)"
proof (rule keepsI)
  fix st :: net assume ok: "net_ok E st"
  obtain c n where st: "st = (c, n)" by (cases st)
  obtain r rest n' where x: "extractLoop (procMsg E s) 0 acc n = (r, rest, n')"
    by (cases "extractLoop (procMsg E s) 0 acc n") auto
  let ?err = "onServices (sendError E s ''framing'' kErrOversize [])"
  have 1: "net_ok E (snd (andThen ?err (\<lambda>_. reapSocket E (Some s)) (c, n')))"
    by (rule keepsD [of "net_ok E"]) (use ok st in \<open>auto intro!: keeps_andThen keeps_reap\<close>)
  have 2: "net_ok E (snd (andThen ?err (\<lambda>_. onConns (\<lambda>c. c\<lparr>c_buffers := AList.update (ne_addr E s) []
        (c_buffers c)\<rparr>)) (c, n')))"
    by (rule keepsD [of "net_ok E"])
       (use ok st in \<open>auto intro!: keeps_andThen keeps_onConns conns_ok_update\<close>)
  show "net_ok E (snd (extractV2Messages E s acc st))"
    using ok 1 2 by (auto simp: st extractV2Messages_def x intro: conns_ok_update split: option.split)
qed

lemma keeps_handle: "keeps (net_ok E) (handleClientData E s buf k)"
  unfolding handleClientData_def Let_def
  by (auto intro!: keeps_andThen keeps_onConns keeps_extract conns_ok_delete conns_ok_update keeps_if
      split: option.split)

lemma keeps_onRead: "keeps (net_ok E) (onRead E s r)"
  unfolding onRead_def startReadingFromClient_def
  by (cases r) (auto intro!: keeps_andThen keeps_onConns keeps_handle keeps_reap)

lemma onAccept_ok: "net_ok E st \<Longrightarrow> net_ok E (snd (onAccept E s error st))"
proof -
  assume ok: "net_ok E st"
  obtain c n where st: "st = (c, n)" by (cases st)
  obtain r n' where a: "remoteAddress E s (n\<lparr>n_io := connectSocket s (n_io n)\<rparr>) = (r, n')" by fastforce
  show ?thesis
    using ok a
    by (cases r) (auto simp: st onAccept_def onConns_def startAccept_def startReadingFromClient_def
        updIO_def onServices_def andThen_def conns_ok_def List.insert_def split: if_splits)
qed

text \<open>Any interleaving of completions; other threads may change the services at any time.\<close>

inductive net_reach :: "net_env \<Rightarrow> net \<Rightarrow> bool" for E where
  Started: "net_reach E (newConns, newServices)"
| Armed: "net_reach E st \<Longrightarrow> net_reach E (snd (startIOEventLoop k st))"
| Accept: "net_reach E st \<Longrightarrow> net_reach E (snd (onAccept E s error st))"
| ReadDone: "net_reach E st \<Longrightarrow> net_reach E (snd (onRead E s r st))"
| Elsewhere: "net_reach E (c, n) \<Longrightarrow> net_reach E (c, n')"

lemma net_reach_ok: "net_reach E st \<Longrightarrow> 0 \<le> ls_max_clients (ne_cfg E) \<Longrightarrow> net_ok E st"
proof (induction rule: net_reach.induct)
  case Started
  then show ?case by (simp add: conns_ok_def newConns_def)
next
  case (Armed st k)
  then show ?case
    by (cases st) (simp add: startIOEventLoop_def startAccept_def onConns_def)
next
  case (Accept st s error)
  then show ?case by (simp add: onAccept_ok)
next
  case (ReadDone st s r)
  then show ?case using keepsD [OF keeps_onRead] by blast
qed simp

section \<open>Reading goes on, or the connection is gone\<close>

definition dumps :: "net_env \<Rightarrow> bool" where
  "dumps E \<longleftrightarrow> (\<forall>j. \<exists>d. json_dump (ne_json E) j = Inr d \<and> length d \<le> kMaxFrameBytes)"

lemma errorJson_sel:
  "jidx (errorJson et msg body) ''header'' = JObj [(''eventType'', JStr et), (''message'', JStr msg)]"
  "jidx (errorJson et msg body) ''body'' = JObj body"
  by (simp_all add: errorJson_def)

text \<open>The error response on the wire: its JSON, with the error code in the header and the body.\<close>

definition isErrorFrame :: "net_env \<Rightarrow> string \<Rightarrow> string \<Rightarrow> bool" where
  "isErrorFrame E code f \<longleftrightarrow>
     (\<exists>j d. json_dump (ne_json E) j = Inr d \<and> f = packFramedMessage d \<and>
        jidx (jidx j ''header'') ''status'' = JStr ''error'' \<and>
        jidx (jidx j ''header'') ''message'' = JStr code \<and>
        jidx (jidx j ''body'') ''errorCode'' = JStr code)"

lemma sendError_posts:
  assumes d: "dumps E" and b: "map_of body ''errorCode'' = None"
  shows "\<exists>n' f. sendError E s et code body n = (Inr (), n') \<and> n_queue n' = n_queue n \<and>
     n_stats n' = n_stats n \<and> posted n' = posted n @ [(s, f)] \<and> isErrorFrame E code f"
proof -
  let ?ts = "getCurrentTimestamp (ne_puttime E) (ne_clock E (n_ticks n))"
  let ?h = "obj_put ''version'' (JStr kProtocolVersion) (obj_put ''timestamp'' (JStr ?ts)
     (obj_put ''status'' (JStr ''error'') [(''eventType'', JStr et), (''message'', JStr code)]))"
  let ?j = "JObj [(''body'', JObj (obj_put ''errorCode'' (JStr code) body)), (''header'', JObj ?h)]"
  have m: "map_of ?h ''message'' = Some (JStr code)" "map_of ?h ''status'' = Some (JStr ''error'')"
    by (simp_all only: map_of_obj_put) simp_all
  have r: "responseJson ''error'' ?ts (errorJson et code body) = Inr ?j"
    unfolding responseJson_def errorJson_sel responseHeader_obj
    using m b by (simp add: mirrorErrorCode_def del: obj_put.simps)
  obtain dd where dd: "json_dump (ne_json E) ?j = Inr dd" "length dd \<le> kMaxFrameBytes"
    using d unfolding dumps_def by blast
  have g: "generateResponseMessage (ne_json E) ?ts ''error'' (errorJson et code body) = Inr (dd @ [CHR 0x0A])"
    unfolding generateResponseMessage_def r dumpLine_def by (simp add: dd del: obj_put.simps)
  have f: "frameResponse (dd @ [CHR 0x0A]) = Some (packFramedMessage dd)"
    using dd(2) by (simp add: frameResponse_line)
  have "isErrorFrame E code (packFramedMessage dd)"
    unfolding isErrorFrame_def
    by (rule exI [of _ ?j], rule exI [of _ dd]) (use dd(1) m in \<open>simp del: obj_put.simps\<close>)
  then show ?thesis
    using sendError_effect [of E s et code body n] by (auto simp: g f)
qed

lemma runPosted_closed:
  "po_sock p \<notin> set (io_open n) \<Longrightarrow>
     io_flight (runPosted p n) = io_flight n \<and> io_wire (runPosted p n) = io_wire n"
  by (simp add: runPosted_def doNextWrite_def Let_def split: list.split)

lemma reap_result:
  "\<exists>c' n'. reapSocket E (Some s) (c, n) = (Inr (), (c', n')) \<and>
     map_of (c_buffers c') (ne_addr E s) = None \<and> ne_addr E s \<notin> set (c_active c') \<and>
     s \<notin> set (io_open (n_io n')) \<and> posted n' = posted n \<and> n_queue n' = n_queue n \<and>
     io_posted (n_io n') = io_posted (n_io n) \<and> io_flight (n_io n') = io_flight (n_io n) \<and>
     io_wire (n_io n') = io_wire (n_io n)"
  by (auto simp: reapSocket_def onConns_def updIO_def onServices_def andThen_def closeSocket_def
      posted_def removeWriteQueue_def split: option.split)

lemma onRead_data:
  "onRead E s (ReadData bytes) (c, n) =
     (case handleClientData E s bytes (length bytes) (c\<lparr>c_reading := removeAll s (c_reading c)\<rparr>, n) of
        (Inl e, st) \<Rightarrow> (Inl e, st)
      | (Inr u, st) \<Rightarrow> startReadingFromClient s st)"
  by (simp add: onRead_def onConns_def andThen_def)

lemma handle_total:
  assumes "dumps E"
  shows "\<exists>st'. handleClientData E s buf k st = (Inr (), st')"
proof -
  have send: "\<exists>n'. sendError E s ''framing'' kErrOversize [] n = (Inr (), n')" for n
    using sendError_posts [OF assms, of "[]" s "''framing''" kErrOversize n] by auto
  have x: "\<exists>st'. extractV2Messages E s acc (c, n) = (Inr (), st')" for acc c n
  proof -
    obtain r rest n' where e: "extractLoop (procMsg E s) 0 acc n = (r, rest, n')"
      by (cases "extractLoop (procMsg E s) 0 acc n") auto
    obtain n2 where n2: "sendError E s ''framing'' kErrOversize [] n' = (Inr (), n2)"
      using send by blast
    show ?thesis
      using reap_result [of E s c n2]
      by (auto simp: extractV2Messages_def e n2 onServices_def onConns_def andThen_def split: option.split)
  qed
  obtain c n where st: "st = (c, n)" by (cases st)
  show ?thesis
    using x by (auto simp: st handleClientData_def Let_def onConns_def updIO_def onServices_def
        andThen_def split: option.split)
qed

section \<open>Properties\<close>


text \<open>A server without peers, a library that parses nothing and prints the empty text.\<close>

definition demoEnv :: net_env where
  "demoEnv = \<lparr>ne_json = noLib, ne_puttime = (\<lambda>_. []), ne_clock = int, ne_peer = (\<lambda>s t. None),
     ne_addr = id, ne_cfg = defaultLoginServerConfig\<rparr>"

lemma demoEnv_addr: "ne_addr demoEnv s = s"
  by (simp add: demoEnv_def)

lemma demo_buffer: "bufferOf (ne_addr demoEnv s) newConns = []"
  by (simp add: bufferOf_def newConns_def)


text \<open>C35: at a pace at which no read of at most 8 KB completes more than ten frames, every message of
  the stream has been handled, once and in order, as soon as its last byte is read, however long
  the stream; the buffer holds the unfinished frame.\<close>

theorem paced_stream_handled:
  assumes "paced [] chunks ms r" and "bufferOf (ne_addr E s) c = []"
  shows "\<exists>c'. readChunks E s chunks (c, n) = (c', fold (\<lambda>m n. snd (processMessage E s m n)) ms n) \<and>
    bufferOf (ne_addr E s) c' = r"
  using readChunks_paced [OF assms] .

theorem paced_stream_handled_witness:
  "\<exists>c'. readChunks demoEnv 7 [packFramedMessage ''ab'' @ [CHR 0x01], [CHR 0x00, CHR 0x00, CHR 0x00, CHR ''c'']]
      (newConns, newServices)
     = (c', fold (\<lambda>m n. snd (processMessage demoEnv 7 m n)) [''ab'', ''c''] newServices) \<and>
    bufferOf 7 c' = []"
proof -
  have p1: "partialFrame [CHR 0x01]" "partialFrame []" by (simp_all add: partialFrame_def)
  have c: "char_of (1::nat) = CHR 0x01" "char_of (0::nat) = CHR 0x00" by code_simp+
  have p2: "[CHR 0x01] @ [CHR 0x00, CHR 0x00, CHR 0x00, CHR ''c''] = packAll [''c''] @ []"
    using c by (simp add: packFramedMessage_def kMaxFrameBytes_def lenBytes_def)
  have p3: "length (packFramedMessage ''ab'' @ [CHR 0x01]) \<le> kReadChunkBytes"
    by (simp add: pack_length kMaxFrameBytes_def kReadChunkBytes_def)
  have b: "paced [CHR 0x01] [[CHR 0x00, CHR 0x00, CHR 0x00, CHR ''c'']] ([''c''] @ []) []"
    by (rule Chunk [OF p1(1) p2])
       (simp_all add: MAX_MESSAGES_PER_READ_def kReadChunkBytes_def kMaxFrameBytes_def Quiet p1)
  have a: "paced [] [packFramedMessage ''ab'' @ [CHR 0x01], [CHR 0x00, CHR 0x00, CHR 0x00, CHR ''c'']]
      ([''ab''] @ ([''c''] @ [])) []"
    by (rule Chunk [OF p1(2) _ _ _ p3 b]) (simp_all add: MAX_MESSAGES_PER_READ_def kMaxFrameBytes_def)
  show ?thesis
    using paced_stream_handled [OF a demo_buffer, of 7 newServices] unfolding demoEnv_addr by simp
qed

text \<open>A read that brings more than ten whole frames handles the first ten and leaves the others,
  complete, in the buffer: nothing handles them until the peer sends more bytes.\<close>

lemma eleventh_frame_waits:
  assumes "sendable ms" and "10 < length ms" and "length (packAll ms) \<le> kReadChunkBytes"
    and "bufferOf (ne_addr E s) c = []"
  shows "\<exists>c'. handleClientData E s (packAll ms) (length (packAll ms)) (c, n)
      = (Inr (), (c', fold (\<lambda>m n. snd (processMessage E s m n)) (take 10 ms) n)) \<and>
    bufferOf (ne_addr E s) c' = packAll (drop 10 ms) \<and> drop 10 ms \<noteq> []"
proof -
  have m: "packAll ms = packAll (take 10 ms) @ packAll (drop 10 ms)"
    unfolding concat_append [symmetric] map_append [symmetric] append_take_drop_id ..
  have sd: "sendable (take 10 ms)" using assms(1) by (meson in_set_takeD)
  have "extractLoop (procMsg E s) 0 (packAll ms) n
      = (None, packAll (drop 10 ms), fold (procMsg E s) (take 10 ms) n)"
    unfolding m using assms(2) extractLoop_packAll [OF sd, of 0 "procMsg E s" "packAll (drop 10 ms)" n]
    by (simp add: MAX_MESSAGES_PER_READ_def extractLoop_limit)
  moreover have "length [] + length (packAll ms) \<le> kMaxAccumulatedBytesV2"
    using assms(3) by (simp add: kReadChunkBytes_def kMaxAccumulatedBytesV2_def)
  ultimately show ?thesis
    using handle_read [OF assms(4), of "packAll ms" n] assms(2) unfolding append_Nil by fastforce
qed

lemma eleventh_frame_waits_witness:
  "\<exists>c'. handleClientData demoEnv 7 (packAll (replicate 11 [])) 44 (newConns, newServices)
      = (Inr (), (c', fold (\<lambda>m n. snd (processMessage demoEnv 7 m n)) (replicate 10 []) newServices)) \<and>
    bufferOf 7 c' = packFramedMessage []"
proof -
  have l: "length (packAll (replicate 11 [])) = 44"
    by (simp add: packFramedMessage_def length_concat sum_list_replicate)
  have k: "length (packAll (replicate 11 [])) \<le> kReadChunkBytes"
    unfolding l by (simp add: kReadChunkBytes_def)
  have "sendable (replicate 11 [])" "10 < length (replicate 11 [])"
    "take 10 (replicate 11 []) = replicate 10 []" "packAll (drop 10 (replicate 11 [])) = packFramedMessage []"
    by (simp_all add: kMaxFrameBytes_def)
  then show ?thesis
    using eleventh_frame_waits [OF _ _ k demo_buffer, of 7 newServices] unfolding l demoEnv_addr
    by metis
qed

text \<open>C23: whatever bytes a message holds, handling it returns normally and adds at most one event to the
  queue; an authentication or registration event only within the accepted client versions, a
  request on behalf of a session only with a non-zero client id and a token, and every event with
  its socket and timestamps.\<close>

theorem queued_requests_admissible:
  "\<exists>n'. processMessage E s m n = (Inr (), n') \<and>
     (n_queue n' = n_queue n \<or> (\<exists>e. n_queue n' = pushEvent e (n_queue n) \<and> admissible E s e))"
  using processMessage_result [of E s m n] by (simp add: queuesOne_def)


lemma demoEnv_dumps: "dumps demoEnv"
  by (simp add: dumps_def demoEnv_def noLib_def)


text \<open>A request of a session type without a client id or a token is dropped without a trace: no
  event is queued and no answer is posted, so the handlers' own guards against such requests, with
  their "Unauthorized" answer, are never reached from the wire.\<close>

lemma sessionless_requests_dropped:
  assumes "json_parse (ne_json E) m = Inr j" and "\<not> hasSession (parseClientData j)"
    and "parseEventType j \<in> {''getCharactersList'', ''createCharacter'', ''deleteCharacter'',
           ''getCharacterCreationOptions'', ''disconnectClient''}"
  shows "processMessage E s m n = (Inr (), n\<lparr>n_ticks := Suc (n_ticks n)\<rparr>)"
  using assms by (auto simp: processMessage_def tryCatch_def andThen_def dispatchRequest_def Let_def)

definition echoLib :: "json \<Rightarrow> json_lib" where
  "echoLib j = noLib\<lparr>json_parse := (\<lambda>s. Inr j)\<rparr>"

definition demoEnvWith :: "json \<Rightarrow> net_env" where
  "demoEnvWith j = demoEnv\<lparr>ne_json := echoLib j\<rparr>"

lemma sessionless_requests_dropped_witness:
  "processMessage (demoEnvWith (JObj [(''header'', JObj [(''clientId'', JInt 4294967296),
        (''eventType'', JStr ''createCharacter''), (''hash'', JStr ''tok'')])])) 3 ''..'' newServices
     = (Inr (), newServices\<lparr>n_ticks := 1\<rparr>)"
proof -
  let ?j = "JObj [(''header'', JObj [(''clientId'', JInt 4294967296),
        (''eventType'', JStr ''createCharacter''), (''hash'', JStr ''tok'')])]"
  have p: "json_parse (ne_json (demoEnvWith ?j)) ''..'' = Inr ?j"
    by (simp add: demoEnvWith_def echoLib_def)
  have h: "\<not> hasSession (parseClientData ?j)"
    by (simp add: hasSession_def parseClientData_fields hasField_def int32_def)
  have e: "parseEventType ?j = ''createCharacter''"
    by (simp add: parseEventType_def hasField_def)
  show ?thesis
    using sessionless_requests_dropped [OF p h, of 3 newServices] unfolding e
    by (simp add: newServices_def)
qed

text \<open>In every reachable state of the connection layer each receive buffer is at most 64 KB over the
  frame cap, and no more clients are registered than configured.\<close>

lemma connections_bounded:
  assumes "net_reach E (c, n)" and "1 \<le> ls_max_clients (ne_cfg E)"
  shows "list_all (\<lambda>(k, b). length b \<le> kMaxFrameBytes + 65536) (c_buffers c) \<and>
    distinct (c_active c) \<and> int (length (c_active c)) \<le> ls_max_clients (ne_cfg E)"
  using net_reach_ok [OF assms(1)] assms(2)
  by (auto simp: conns_ok_def list_all_iff kMaxAccumulatedBytesV2_def)

definition openEnv :: net_env where
  "openEnv = demoEnv\<lparr>ne_peer := (\<lambda>s t. Some ''10.0.0.9''),
     ne_cfg := defaultLoginServerConfig\<lparr>ls_max_clients := 1\<rparr>\<rparr>"

lemma connections_bounded_witness:
  "\<exists>c n. snd (onAccept openEnv 1 False (snd (onAccept openEnv 0 False (newConns, newServices)))) = (c, n) \<and>
     c_active c = [0] \<and> c_reading c = [0] \<and> c_accepting c \<and> int (length (c_active c)) \<le> 1"
proof -
  let ?st = "snd (onAccept openEnv 1 False (snd (onAccept openEnv 0 False (newConns, newServices))))"
  obtain c n where st: "?st = (c, n)" by (cases ?st)
  have r: "net_reach openEnv (c, n)"
    unfolding st [symmetric] by (intro Accept Started)
  have "c_active c = [0] \<and> c_reading c = [0] \<and> c_accepting c"
    using st by (auto simp: onAccept_def onConns_def startAccept_def startReadingFromClient_def
        updIO_def onServices_def andThen_def remoteAddress_def openEnv_def demoEnv_def newConns_def)
  then show ?thesis
    using connections_bounded [OF r] st by (simp add: openEnv_def)
qed



text \<open>A length prefix over the cap closes the connection; the \<open>ERR_OVERSIZE\<close> frame is posted before
  the socket is closed, and when its handler runs after that the frame is thrown away: nothing is
  put in flight and nothing is written.\<close>

lemma oversize_answer_discarded:
  assumes "dumps E" and "4 \<le> length acc" and "kMaxFrameBytes < unat (frameLen acc)"
  shows "\<exists>c' n' p. extractV2Messages E s acc (c, n) = (Inr (), (c', n')) \<and>
    ne_addr E s \<notin> set (c_active c') \<and> s \<notin> set (io_open (n_io n')) \<and>
    io_posted (n_io n') = io_posted (n_io n) @ [p] \<and>
    po_sock p = s \<and> isErrorFrame E kErrOversize (po_data p) \<and>
    io_flight (runPosted p (n_io n')) = io_flight (n_io n) \<and>
    io_wire (runPosted p (n_io n')) = io_wire (n_io n)"
proof -
  have x: "extractLoop (procMsg E s) 0 acc n = (Some (frameLen acc), acc, n)"
    using assms(2,3) by (subst extractLoop.simps) (simp add: MAX_MESSAGES_PER_READ_def Let_def)
  obtain n1 f where n1: "sendError E s ''framing'' kErrOversize [] n = (Inr (), n1)"
    "posted n1 = posted n @ [(s, f)]" "isErrorFrame E kErrOversize f"
    using sendError_posts [OF assms(1), of "[]" s "''framing''" kErrOversize n] by auto
  obtain p where p: "io_posted (n_io n1) = io_posted (n_io n) @ [p]" "po_sock p = s" "po_data p = f"
  proof -
    obtain g where g: "io_posted (n_io n1) = io_posted (n_io n) @ g"
      using sendError_io [of E s "''framing''" kErrOversize "[]" n] n1(1) by auto
    then have "map (\<lambda>p. (po_sock p, po_data p)) g = [(s, f)]"
      using n1(2) by (simp add: posted_def)
    then show ?thesis using that g by (auto simp: map_eq_Cons_conv)
  qed
  obtain c' n' where r: "reapSocket E (Some s) (c, n1) = (Inr (), (c', n'))"
    "ne_addr E s \<notin> set (c_active c')" "s \<notin> set (io_open (n_io n'))"
    "io_posted (n_io n') = io_posted (n_io n1)" "io_flight (n_io n') = io_flight (n_io n1)"
    "io_wire (n_io n') = io_wire (n_io n1)"
    using reap_result [of E s c n1] by blast
  have "extractV2Messages E s acc (c, n) = (Inr (), (c', n'))"
    using r(1) by (simp add: extractV2Messages_def x onServices_def andThen_def n1(1))
  moreover have "io_flight (n_io n1) = io_flight (n_io n)" "io_wire (n_io n1) = io_wire (n_io n)"
    using sendError_io [of E s "''framing''" kErrOversize "[]" n] n1(1) by auto
  ultimately show ?thesis
    using r p n1(3) runPosted_closed [of p "n_io n'"]
    by (intro exI [of _ c'] exI [of _ n'] exI [of _ p]) simp
qed

lemma oversize_answer_discarded_witness:
  "\<exists>c' n' p. extractV2Messages demoEnv 3 (replicate 4 (CHR 0xFF)) (newConns\<lparr>c_active := [3]\<rparr>,
       newServices\<lparr>n_io := connectSocket 3 emptyIO\<rparr>) = (Inr (), (c', n')) \<and>
    3 \<notin> set (c_active c') \<and> io_posted (n_io n') = [p] \<and>
    io_wire (runPosted p (n_io n')) = []"
proof -
  have l: "4 \<le> length (replicate 4 (CHR 0xFF))" by simp
  have f: "kMaxFrameBytes < unat (frameLen (replicate 4 (CHR 0xFF)))"
    by (simp add: frameLen_def byteWord_def kMaxFrameBytes_def)
  have io: "io_posted (connectSocket 3 emptyIO) = []" "io_wire (connectSocket 3 emptyIO) = []"
    by (simp_all add: connectSocket_def emptyIO_def)
  show ?thesis
    using oversize_answer_discarded [OF demoEnv_dumps l f, of 3 "newConns\<lparr>c_active := [3]\<rparr>"
        "newServices\<lparr>n_io := connectSocket 3 emptyIO\<rparr>"] io by (auto simp: demoEnv_addr)
qed

text \<open>A client that is gone before its accept completes, so that its address cannot be read, makes
  the accept handler throw outside every \<open>try\<close>: the exception leaves the I/O thread and no further
  accept is armed.\<close>

lemma accept_of_vanished_peer_throws:
  assumes "ne_peer E s (n_ticks n) = None"
  shows "onAccept E s False (c, n) =
    (Inl (RuntimeError ''remote_endpoint''),
     (c\<lparr>c_accepting := False\<rparr>, n\<lparr>n_io := connectSocket s (n_io n), n_ticks := Suc (n_ticks n)\<rparr>))"
  using assms
  by (simp add: onAccept_def onConns_def onServices_def updIO_def andThen_def remoteAddress_def)

lemma accept_of_vanished_peer_throws_witness:
  "fst (onAccept demoEnv 3 False (newConns\<lparr>c_accepting := True\<rparr>, newServices))
     = Inl (RuntimeError ''remote_endpoint'') \<and>
   \<not> c_accepting (fst (snd (onAccept demoEnv 3 False (newConns\<lparr>c_accepting := True\<rparr>, newServices))))"
  using accept_of_vanished_peer_throws [of demoEnv 3 newServices "newConns\<lparr>c_accepting := True\<rparr>"]
  by (simp add: demoEnv_def)

end
