(* ===== verification/Workers.thy ===== *)
theory Workers
  imports Prelude "HOL-Library.Multiset"
begin

text \<open>
  \<open>ThreadPool\<close> (\<open>src/utils/ThreadPool.cpp\<close>, \<open>include/utils/ThreadPool.hpp\<close>). A worker is idle (at the
  wait), running a task, or has returned; the scheduler picks any worker that can move. A task may
  throw: the loop swallows it, so its end is one step either way. \<open>tp_started\<close> and \<open>tp_finished\<close>
  record history for the statements.
\<close>

datatype 't worker = Waiting | Running 't | Returned

record 't thread_pool =
  tp_tasks :: "'t list"
  tp_stop :: bool
  tp_workers :: "'t worker list"
  tp_started :: "'t list"
  tp_finished :: "'t list"

definition newThreadPool :: "nat \<Rightarrow> 't thread_pool" where
  "newThreadPool numThreads =
     \<lparr>tp_tasks = [], tp_stop = False, tp_workers = replicate numThreads Waiting,
      tp_started = [], tp_finished = []\<rparr>"

definition enqueueTask :: "'t \<Rightarrow> 't thread_pool \<Rightarrow> exn + 't thread_pool" where
  "enqueueTask task p =
     (if tp_stop p then Inl (RuntimeError ''enqueue on stopped ThreadPool'')
      else Inr (p\<lparr>tp_tasks := tp_tasks p @ [task]\<rparr>))"

text \<open>
  The overload for any callable: the task is packaged and its future returned, which is the number
  of the task among those accepted. It is ready once the task has run to its end.
\<close>

definition enqueueFuture :: "'t \<Rightarrow> 't thread_pool \<Rightarrow> exn + nat \<times> 't thread_pool" where
  "enqueueFuture task p =
     (if tp_stop p then Inl (RuntimeError ''enqueue on stopped ThreadPool'')
      else Inr (length (tp_started p) + length (tp_tasks p), p\<lparr>tp_tasks := tp_tasks p @ [task]\<rparr>))"

lemma enqueueFuture_task:
  "enqueueTask task p = (case enqueueFuture task p of Inl e \<Rightarrow> Inl e | Inr (k, p') \<Rightarrow> Inr p')"
  by (simp add: enqueueFuture_def enqueueTask_def)

text \<open>One move of worker \<open>i\<close>: \<open>None\<close> when it cannot move (waiting for work, or gone).\<close>

definition workerStep :: "nat \<Rightarrow> 't thread_pool \<Rightarrow> 't thread_pool option" where
  "workerStep i p =
     (if i < length (tp_workers p) then
        (case tp_workers p ! i of
           Waiting \<Rightarrow>
             (case tp_tasks p of
                [] \<Rightarrow> if tp_stop p then Some (p\<lparr>tp_workers := (tp_workers p)[i := Returned]\<rparr>) else None
              | task # rest \<Rightarrow>
                  Some (p\<lparr>tp_tasks := rest, tp_workers := (tp_workers p)[i := Running task],
                          tp_started := tp_started p @ [task]\<rparr>))
         | Running task \<Rightarrow>
             Some (p\<lparr>tp_workers := (tp_workers p)[i := Waiting],
                     tp_finished := tp_finished p @ [task]\<rparr>)
         | Returned \<Rightarrow> None)
      else None)"

text \<open>The destructor's first half: \<open>stop\<close> is set, every worker is woken, then joined.\<close>

definition stopPool :: "'t thread_pool \<Rightarrow> 't thread_pool" where
  "stopPool p = p\<lparr>tp_stop := True\<rparr>"

definition joined :: "'t thread_pool \<Rightarrow> bool" where
  "joined p \<longleftrightarrow> (\<forall>w \<in> set (tp_workers p). w = Returned)"

section \<open>Runs\<close>

text \<open>The accepted tasks, in the order \<open>enqueueTask\<close> accepted them, and the pool.\<close>

inductive pool_run :: "nat \<Rightarrow> 't list \<Rightarrow> 't thread_pool \<Rightarrow> bool" for k where
  Made: "pool_run k [] (newThreadPool k)"
| Enqueued: "pool_run k ts p \<Longrightarrow> enqueueTask t p = Inr p' \<Longrightarrow> pool_run k (ts @ [t]) p'"
| Stepped: "pool_run k ts p \<Longrightarrow> workerStep i p = Some p' \<Longrightarrow> pool_run k ts p'"
| Stopped: "pool_run k ts p \<Longrightarrow> pool_run k ts (stopPool p)"

fun load :: "'t worker \<Rightarrow> 't multiset" where
  "load (Running t) = {#t#}"
| "load Waiting = {#}"
| "load Returned = {#}"

definition running :: "'t thread_pool \<Rightarrow> 't multiset" where
  "running p = \<Sum>\<^sub># (image_mset load (mset (tp_workers p)))"

lemma running_update:
  assumes i: "i < length (tp_workers p)"
  shows "running (p\<lparr>tp_workers := (tp_workers p)[i := w]\<rparr>) + load (tp_workers p ! i) = running p + load w"
proof -
  have m: "tp_workers p ! i \<in># mset (tp_workers p)" using i by simp
  have "running p = load (tp_workers p ! i) +
      \<Sum>\<^sub># (image_mset load (mset (tp_workers p) - {#tp_workers p ! i#}))"
    unfolding running_def using m by (metis image_mset_add_mset insert_DiffM sum_mset.insert)
  then show ?thesis by (simp add: running_def mset_update i)
qed

lemma running_same [simp]:
  "running (p\<lparr>tp_tasks := ts\<rparr>) = running p" "running (p\<lparr>tp_stop := b\<rparr>) = running p"
  "running (p\<lparr>tp_started := ts\<rparr>) = running p" "running (p\<lparr>tp_finished := ts\<rparr>) = running p"
  by (simp_all add: running_def)

definition pool_inv :: "nat \<Rightarrow> 't list \<Rightarrow> 't thread_pool \<Rightarrow> bool" where
  "pool_inv k ts p \<longleftrightarrow>
     length (tp_workers p) = k \<and> ts = tp_started p @ tp_tasks p \<and>
     mset (tp_started p) = running p + mset (tp_finished p) \<and>
     (Returned \<in> set (tp_workers p) \<longrightarrow> tp_stop p \<and> tp_tasks p = [])"

lemma workerStep_inv:
  assumes inv: "pool_inv k ts p" and s: "workerStep i p = Some p'"
  shows "pool_inv k ts p'"
proof -
  have i: "i < length (tp_workers p)" using s by (auto simp: workerStep_def split: if_splits)
  have sub: "set ((tp_workers p)[i := w]) \<subseteq> insert w (set (tp_workers p))" for w
    by (rule set_update_subset_insert)
  show ?thesis
  proof (cases "tp_workers p ! i")
    case Waiting
    show ?thesis
    proof (cases "tp_tasks p")
      case Nil
      then have "p' = p\<lparr>tp_workers := (tp_workers p)[i := Returned]\<rparr>" "tp_stop p"
        using s Waiting i by (auto simp: workerStep_def split: if_splits)
      then show ?thesis
        using inv Nil running_update [OF i, of Returned] Waiting by (simp add: pool_inv_def)
    next
      case (Cons t rest)
      then have p': "p' = p\<lparr>tp_tasks := rest, tp_workers := (tp_workers p)[i := Running t],
          tp_started := tp_started p @ [t]\<rparr>"
        using s Waiting i by (simp add: workerStep_def)
      have "running p' = running (p\<lparr>tp_workers := (tp_workers p)[i := Running t]\<rparr>)"
        by (simp add: p' running_def)
      then have "running p' = add_mset t (running p)"
        using running_update [OF i, of "Running t"] Waiting by simp
      then show ?thesis
        using inv Cons sub [of "Running t"] by (auto simp: pool_inv_def p')
    qed
  next
    case (Running t)
    then have p': "p' = p\<lparr>tp_workers := (tp_workers p)[i := Waiting], tp_finished := tp_finished p @ [t]\<rparr>"
      using s i by (simp add: workerStep_def)
    have "running p' = running (p\<lparr>tp_workers := (tp_workers p)[i := Waiting]\<rparr>)"
      by (simp add: p' running_def)
    then have "add_mset t (running p') = running p"
      using running_update [OF i, of Waiting] Running by simp
    then show ?thesis
      using inv sub [of Waiting] by (auto simp: pool_inv_def p')
  next
    case Returned
    then show ?thesis using s i by (simp add: workerStep_def)
  qed
qed

lemma pool_run_inv: "pool_run k ts p \<Longrightarrow> pool_inv k ts p"
proof (induction rule: pool_run.induct)
  case Made
  show ?case by (simp add: pool_inv_def newThreadPool_def running_def)
next
  case (Enqueued ts p t p')
  then show ?case by (auto simp: pool_inv_def enqueueTask_def split: if_splits)
next
  case (Stepped ts p i p')
  then show ?case by (simp add: workerStep_inv)
next
  case (Stopped ts p)
  then show ?case by (simp add: pool_inv_def stopPool_def)
qed

text \<open>Work left after \<open>stop\<close>: every step of a worker makes it smaller.\<close>

fun workerWeight :: "'t worker \<Rightarrow> nat" where
  "workerWeight Waiting = 1"
| "workerWeight (Running t) = 2"
| "workerWeight Returned = 0"

definition workLeft :: "'t thread_pool \<Rightarrow> nat" where
  "workLeft p = 2 * length (tp_tasks p) + sum_list (map workerWeight (tp_workers p))"

lemma sum_list_weight_update:
  "i < length ws \<Longrightarrow>
     sum_list (map f (ws[i := w])) + f (ws ! i) = sum_list (map f ws) + (f w :: nat)"
  using elem_le_sum_list [of i "map f ws"] by (simp add: map_update sum_list_update)

lemma workLeft_decreases:
  assumes s: "workerStep i p = Some p'"
  shows "workLeft p' < workLeft p"
proof -
  have i: "i < length (tp_workers p)" using s by (auto simp: workerStep_def split: if_splits)
  note u = sum_list_weight_update [OF i, of workerWeight]
  show ?thesis
  proof (cases "tp_workers p ! i")
    case Waiting
    show ?thesis
    proof (cases "tp_tasks p")
      case Nil
      then show ?thesis
        using s Waiting i u [of Returned] by (auto simp: workerStep_def workLeft_def split: if_splits)
    next
      case (Cons t rest)
      then show ?thesis
        using s Waiting i u [of "Running t"] by (auto simp: workerStep_def workLeft_def)
    qed
  next
    case (Running t)
    then show ?thesis using s i u [of Waiting] by (auto simp: workerStep_def workLeft_def)
  next
    case Returned
    then show ?thesis using s i by (simp add: workerStep_def)
  qed
qed

lemma can_move:
  assumes "tp_stop p" and "\<not> joined p"
  shows "\<exists>i p'. workerStep i p = Some p'"
proof -
  obtain w where w: "w \<in> set (tp_workers p)" "w \<noteq> Returned" using assms(2) by (auto simp: joined_def)
  then obtain i where i: "i < length (tp_workers p)" "tp_workers p ! i = w" by (auto simp: in_set_conv_nth)
  then have "workerStep i p \<noteq> None"
    using w(2) assms(1) by (auto simp: workerStep_def split: worker.splits list.splits)
  then show ?thesis by blast
qed

lemma tasks_when_joined:
  assumes r: "pool_run k ts p" and k: "0 < k" and j: "joined p"
  shows "tp_stop p \<and> tp_tasks p = [] \<and> tp_started p = ts \<and> mset (tp_finished p) = mset ts"
proof -
  have inv: "pool_inv k ts p" by (rule pool_run_inv [OF r])
  then obtain w where "w \<in> set (tp_workers p)" using k by (cases "tp_workers p") (auto simp: pool_inv_def)
  then have "Returned \<in> set (tp_workers p)" using j by (auto simp: joined_def)
  then have st: "tp_stop p" "tp_tasks p = []" using inv by (auto simp: pool_inv_def)
  have "image_mset load (mset (tp_workers p)) = image_mset (\<lambda>w. {#}) (mset (tp_workers p))"
    using j by (intro image_mset_cong) (auto simp: joined_def)
  then have "running p = {#}" by (simp add: running_def)
  then show ?thesis using inv st by (simp add: pool_inv_def)
qed

section \<open>Properties\<close>

text \<open>Tasks start in the order they were accepted, each exactly once; when the destructor's joins
  return (there is a worker), every accepted task has started and finished, whatever the schedule
  and whichever tasks throw.\<close>

lemma every_task_runs_once:
  assumes "pool_run k ts p"
  shows "(\<exists>rest. ts = tp_started p @ rest) \<and>
    (0 < k \<longrightarrow> joined p \<longrightarrow> tp_started p = ts \<and> mset (tp_finished p) = mset ts)"
  using pool_run_inv [OF assms] tasks_when_joined [OF assms] by (auto simp: pool_inv_def)

definition demoWorkers :: "nat thread_pool" where
  "demoWorkers = the (workerStep 0 (the (workerStep 0 (the (workerStep 0 (stopPool
     (case enqueueTask 5 (newThreadPool 1) of Inr p \<Rightarrow> p | Inl e \<Rightarrow> newThreadPool 0)))))))"

lemma every_task_runs_once_witness:
  "joined demoWorkers \<and> tp_started demoWorkers = [5] \<and> tp_finished demoWorkers = [5]"
proof -
  let ?p0 = "case enqueueTask (5::nat) (newThreadPool 1) of Inr p \<Rightarrow> p | Inl e \<Rightarrow> newThreadPool 0"
  have "pool_run 1 ([] @ [5::nat]) ?p0"
    by (rule Enqueued [OF Made]) (simp add: enqueueTask_def newThreadPool_def)
  then have "pool_run 1 [5] (stopPool ?p0)" by (auto intro: Stopped)
  then have "pool_run 1 [5] (the (workerStep 0 (stopPool ?p0)))"
    by (rule Stepped [where i = 0]) (simp add: workerStep_def stopPool_def enqueueTask_def newThreadPool_def)
  then have "pool_run 1 [5] (the (workerStep 0 (the (workerStep 0 (stopPool ?p0)))))"
    by (rule Stepped [where i = 0]) (simp add: workerStep_def stopPool_def enqueueTask_def newThreadPool_def)
  then have r: "pool_run 1 [5] demoWorkers" unfolding demoWorkers_def
    by (rule Stepped [where i = 0]) (simp add: workerStep_def stopPool_def enqueueTask_def newThreadPool_def)
  have j: "joined demoWorkers"
    by (simp add: joined_def demoWorkers_def workerStep_def stopPool_def enqueueTask_def newThreadPool_def)
  show ?thesis using every_task_runs_once [OF r] j by auto
qed

text \<open>C34: after \<open>stop\<close> the joins return: as long as a worker has not returned some worker can move, and
  every move of any worker makes the work left smaller, so no schedule runs for ever.\<close>

theorem joins_return:
  assumes "tp_stop p"
  shows "(joined p \<or> (\<exists>i p'. workerStep i p = Some p')) \<and>
    (workerStep j p = Some q \<longrightarrow> workLeft q < workLeft p \<and> tp_stop q)"
proof -
  have "tp_stop q" if "workerStep j p = Some q"
    using that assms by (auto simp: workerStep_def split: if_splits worker.splits list.splits)
  then show ?thesis using can_move [OF assms] workLeft_decreases by blast
qed

theorem joins_return_witness:
  "\<exists>p'. workerStep 0 (stopPool (newThreadPool 2 :: nat thread_pool)) = Some p' \<and>
     workLeft p' < workLeft (stopPool (newThreadPool 2 :: nat thread_pool))"
proof -
  let ?p = "stopPool (newThreadPool 2) :: nat thread_pool"
  obtain p' where s: "workerStep 0 ?p = Some p'"
    by (simp add: workerStep_def stopPool_def newThreadPool_def numeral_2_eq_2)
  moreover have "tp_stop ?p" by (simp add: stopPool_def)
  ultimately show ?thesis using joins_return [of ?p 0 p'] by blast
qed

end
