(* ===== verification/Tables.thy ===== *)
theory Tables
  imports Prelude
begin

text \<open>
  The prepared statements of \<open>src/utils/QueryRegistry.cpp\<close> as functions of the tables they touch
  (\<open>mmo_prototype_dump.sql\<close>; the columns the statements read or write). A table is the list of its
  rows in scan order, which SQL leaves open and no property here depends on. Seconds count time;
  \<open>now()\<close> is the start of the running transaction. \<open>lower\<close> and the text of a timestamp depend on the
  server's locale and are parameters (\<open>sql_env\<close>). These functions say what a statement does when
  PostgreSQL executes it; that it may fail instead is the business of the connection.
\<close>

section \<open>Tables\<close>

record sql_env =
  sql_lower :: "string \<Rightarrow> string"
  sql_tsText :: "int \<Rightarrow> string"

record user_row =
  u_id :: int
  u_login :: string
  u_password :: string
  u_email :: "string option"
  u_role :: int
  u_is_active :: bool
  u_locked_until :: "int option"
  u_failed_login_attempts :: int
  u_last_login :: int
  u_last_login_ip :: "string option"
  u_registration_ip :: "string option"
  u_client_version :: "string option"

record session_row =
  s_id :: int
  s_user_id :: int
  s_token_hash :: string
  s_client_version :: string
  s_created_at :: int
  s_expires_at :: int
  s_revoked_at :: "int option"

record ban_row =
  b_id :: int
  b_user_id :: int
  b_reason :: string
  b_expires_at :: "int option"
  b_is_active :: bool

record character_row =
  c_id :: int
  c_owner_id :: int
  c_name :: string
  c_class_id :: int
  c_race_id :: int
  c_gender :: int
  c_account_slot :: int
  c_level :: int
  c_experience_points :: int
  c_is_online :: bool
  c_deleted_at :: "int option"

record class_row =
  cc_id :: int
  cc_name :: string
  cc_slug :: "string option"
  cc_description :: "string option"

record race_row =
  r_id :: int
  r_name :: string
  r_slug :: string

record gender_row =
  g_id :: int
  g_name :: string
  g_label :: string

record state_row =
  st_character_id :: int
  st_current_health :: int
  st_current_mana :: int

record position_row =
  p_id :: int
  p_character_id :: int
  p_x :: int
  p_y :: int
  p_z :: int
  p_zone_id :: int

record skill_row =
  sk_id :: int
  sk_character_id :: int
  sk_skill_id :: int
  sk_current_level :: int

record inventory_row =
  i_id :: int
  i_character_id :: int
  i_item_id :: int
  i_quantity :: int
  i_slot_index :: "int option"
  i_durability_current :: int

record currency_row =
  cu_character_id :: int
  cu_currency_id :: int
  cu_amount :: int

record equipment_row =
  e_character_id :: int
  e_equip_slot_id :: int
  e_inventory_item_id :: int

record item_row =
  it_id :: int
  it_slug :: string
  it_durability_max :: int

record starter_item_row =
  si_class_id :: int
  si_item_id :: int
  si_quantity :: int
  si_slot_index :: "int option"
  si_durability_current :: "int option"

record starter_currency_row =
  sc_class_id :: int
  sc_currency_id :: int
  sc_amount :: int

record class_skill_row =
  cs_class_id :: int
  cs_skill_id :: int
  cs_is_default :: bool

text \<open>The sequences behind the \<open>id\<close> columns the statements insert into.\<close>

record sequences =
  sq_users :: int
  sq_sessions :: int
  sq_characters :: int
  sq_positions :: int
  sq_skills :: int
  sq_inventory :: int

record dbase =
  d_now :: int
  d_seq :: sequences
  d_users :: "user_row list"
  d_sessions :: "session_row list"
  d_bans :: "ban_row list"
  d_characters :: "character_row list"
  d_classes :: "class_row list"
  d_races :: "race_row list"
  d_genders :: "gender_row list"
  d_states :: "state_row list"
  d_positions :: "position_row list"
  d_skills :: "skill_row list"
  d_inventory :: "inventory_row list"
  d_currencies :: "currency_row list"
  d_equipment :: "equipment_row list"
  d_items :: "item_row list"
  d_starterItems :: "starter_item_row list"
  d_starterCurrencies :: "starter_currency_row list"
  d_classSkills :: "class_skill_row list"

section \<open>Results\<close>

datatype cell = CNull | CInt int | CText string | CBool bool

type_synonym row = "(string \<times> cell) list"

definition textCell :: "string option \<Rightarrow> cell" where
  "textCell v = (case v of None \<Rightarrow> CNull | Some s \<Rightarrow> CText s)"

definition timeCell :: "int option \<Rightarrow> cell" where
  "timeCell v = (case v of None \<Rightarrow> CNull | Some t \<Rightarrow> CInt t)"

text \<open>\<open>LEFT JOIN\<close>: the matching rows, or one row of nulls.\<close>

definition leftJoin :: "('b \<Rightarrow> bool) \<Rightarrow> 'b list \<Rightarrow> 'b option list" where
  "leftJoin P ys = (case filter P ys of [] \<Rightarrow> [None] | zs \<Rightarrow> map Some zs)"

section \<open>Accounts\<close>

definition search_user :: "string \<Rightarrow> dbase \<Rightarrow> row list" where
  "search_user login d =
     take 1 (map (\<lambda>u. [(''id'', CInt (u_id u)), (''login'', CText (u_login u)),
         (''password'', CText (u_password u)), (''role'', CInt (u_role u)),
         (''is_active'', CBool (u_is_active u)), (''locked_until'', timeCell (u_locked_until u)),
         (''failed_login_attempts'', CInt (u_failed_login_attempts u))])
       (filter (\<lambda>u. u_login u = login \<and> u_is_active u \<and>
           (case u_locked_until u of None \<Rightarrow> True | Some t \<Rightarrow> t < d_now d)) (d_users d)))"

definition probe_user_status :: "string \<Rightarrow> dbase \<Rightarrow> row list" where
  "probe_user_status login d =
     take 1 (map (\<lambda>u. [(''is_active'', CBool (u_is_active u)),
         (''locked_until'', timeCell (u_locked_until u))])
       (filter (\<lambda>u. u_login u = login) (d_users d)))"

definition check_active_ban :: "sql_env \<Rightarrow> int \<Rightarrow> dbase \<Rightarrow> row list" where
  "check_active_ban Q userId d =
     take 1 (map (\<lambda>b. [(''reason'', CText (b_reason b)),
         (''expires_at'', CText (case b_expires_at b of None \<Rightarrow> [] | Some t \<Rightarrow> sql_tsText Q t))])
       (sort_key (\<lambda>b. - b_id b)
         (filter (\<lambda>b. b_user_id b = userId \<and> b_is_active b \<and>
             (case b_expires_at b of None \<Rightarrow> True | Some t \<Rightarrow> t > d_now d)) (d_bans d))))"

definition increment_failed_logins :: "string \<Rightarrow> dbase \<Rightarrow> dbase" where
  "increment_failed_logins login d =
     d\<lparr>d_users := map (\<lambda>u.
         if u_login u = login then
           u\<lparr>u_failed_login_attempts := u_failed_login_attempts u + 1,
             u_locked_until := (if u_failed_login_attempts u + 1 \<ge> 5 then Some (d_now d + 900)
                                else u_locked_until u)\<rparr>
         else u) (d_users d)\<rparr>"

definition reset_failed_logins :: "int \<Rightarrow> string \<Rightarrow> string \<Rightarrow> dbase \<Rightarrow> dbase" where
  "reset_failed_logins userId ip clientVersion d =
     d\<lparr>d_users := map (\<lambda>u.
         if u_id u = userId then
           u\<lparr>u_failed_login_attempts := 0, u_locked_until := None, u_last_login := d_now d,
             u_last_login_ip := Some ip, u_client_version := Some clientVersion\<rparr>
         else u) (d_users d)\<rparr>"

definition check_login_available :: "sql_env \<Rightarrow> string \<Rightarrow> dbase \<Rightarrow> row list" where
  "check_login_available Q login d =
     take 1 (map (\<lambda>u. [(''?column?'', CInt 1)])
       (filter (\<lambda>u. sql_lower Q (u_login u) = sql_lower Q login) (d_users d)))"

definition register_user ::
  "string \<Rightarrow> string \<Rightarrow> string \<Rightarrow> string \<Rightarrow> string \<Rightarrow> dbase \<Rightarrow> row list \<times> dbase" where
  "register_user login password email ip clientVersion d =
     (let i = sq_users (d_seq d) in
      ([[(''id'', CInt i)]],
       d\<lparr>d_seq := (d_seq d)\<lparr>sq_users := i + 1\<rparr>,
         d_users := d_users d @
           [\<lparr>u_id = i, u_login = login, u_password = password,
             u_email = (if email = [] then None else Some email), u_role = 0, u_is_active = True,
             u_locked_until = None, u_failed_login_attempts = 0, u_last_login = d_now d,
             u_last_login_ip = None, u_registration_ip = Some ip,
             u_client_version = Some clientVersion\<rparr>]\<rparr>))"

section \<open>Sessions\<close>

definition create_user_session :: "int \<Rightarrow> string \<Rightarrow> string \<Rightarrow> dbase \<Rightarrow> dbase" where
  "create_user_session userId tokenHash clientVersion d =
     (let i = sq_sessions (d_seq d);
          d' = d\<lparr>d_seq := (d_seq d)\<lparr>sq_sessions := i + 1\<rparr>\<rparr>
      in if \<exists>s \<in> set (d_sessions d). s_token_hash s = tokenHash then d'
         else d'\<lparr>d_sessions := d_sessions d @
                 [\<lparr>s_id = i, s_user_id = userId, s_token_hash = tokenHash,
                   s_client_version = clientVersion, s_created_at = d_now d,
                   s_expires_at = d_now d + 2592000, s_revoked_at = None\<rparr>]\<rparr>)"

definition cleanup_expired_sessions :: "dbase \<Rightarrow> dbase" where
  "cleanup_expired_sessions d =
     d\<lparr>d_sessions := filter (\<lambda>s. \<not> (s_expires_at s < d_now d \<and> s_revoked_at s = None))
         (d_sessions d)\<rparr>"

definition revoke_user_sessions :: "int \<Rightarrow> dbase \<Rightarrow> dbase" where
  "revoke_user_sessions userId d =
     d\<lparr>d_sessions := map (\<lambda>s.
         if s_user_id s = userId \<and> s_revoked_at s = None \<and> s_expires_at s > d_now d
         then s\<lparr>s_revoked_at := Some (d_now d)\<rparr> else s) (d_sessions d)\<rparr>"

section \<open>Characters\<close>

definition liveOf :: "int \<Rightarrow> dbase \<Rightarrow> character_row list" where
  "liveOf ownerId d =
     filter (\<lambda>c. c_owner_id c = ownerId \<and> c_deleted_at c = None) (d_characters d)"

definition get_characters_list :: "int \<Rightarrow> dbase \<Rightarrow> row list" where
  "get_characters_list ownerId d =
     concat (map (\<lambda>c.
       [[(''character_id'', CInt (c_id c)), (''character_lvl'', CInt (c_level c)),
         (''character_name'', CText (c_name c)), (''class_slug'', textCell (cc_slug cc)),
         (''race_slug'', CText (r_slug r)), (''gender_slug'', textCell (map_option g_name cg)),
         (''experience_points'', CInt (c_experience_points c)),
         (''account_slot'', CInt (c_account_slot c)), (''is_online'', CBool (c_is_online c)),
         (''current_health'', CInt (case ccs of None \<Rightarrow> 1 | Some s \<Rightarrow> st_current_health s)),
         (''current_mana'', CInt (case ccs of None \<Rightarrow> 1 | Some s \<Rightarrow> st_current_mana s))].
        cc \<leftarrow> filter (\<lambda>cc. cc_id cc = c_class_id c) (d_classes d),
        r \<leftarrow> filter (\<lambda>r. r_id r = c_race_id c) (d_races d),
        cg \<leftarrow> leftJoin (\<lambda>g. g_id g = c_gender c) (d_genders d),
        ccs \<leftarrow> leftJoin (\<lambda>s. st_character_id s = c_id c) (d_states d)])
      (sort_key c_account_slot (liveOf ownerId d)))"

definition get_character_equipment_preview :: "int \<Rightarrow> dbase \<Rightarrow> row list" where
  "get_character_equipment_preview characterId d =
     [[(''slot_id'', CInt (e_equip_slot_id ce)), (''item_slug'', CText (it_slug i))].
       ce \<leftarrow> sort_key e_equip_slot_id
               (filter (\<lambda>ce. e_character_id ce = characterId) (d_equipment d)),
       pi \<leftarrow> filter (\<lambda>pi. i_id pi = e_inventory_item_id ce) (d_inventory d),
       i \<leftarrow> filter (\<lambda>i. it_id i = i_item_id pi) (d_items d)]"

definition select_character :: "int \<Rightarrow> int \<Rightarrow> dbase \<Rightarrow> row list" where
  "select_character ownerId characterId d =
     take 1
       [[(''character_id'', CInt (c_id c)), (''character_lvl'', CInt (c_level c)),
         (''character_name'', CText (c_name c)), (''character_class'', CText (cc_name cc)),
         (''race_name'', CText (r_name r)),
         (''experience_points'', CInt (c_experience_points c)),
         (''account_slot'', CInt (c_account_slot c))].
        c \<leftarrow> filter (\<lambda>c. c_id c = characterId) (liveOf ownerId d),
        cc \<leftarrow> filter (\<lambda>cc. cc_id cc = c_class_id c) (d_classes d),
        r \<leftarrow> filter (\<lambda>r. r_id r = c_race_id c) (d_races d)]"

definition get_character_slot_count :: "int \<Rightarrow> dbase \<Rightarrow> row list" where
  "get_character_slot_count ownerId d = [[(''count'', CInt (int (length (liveOf ownerId d))))]]"

definition check_character_name_exists :: "sql_env \<Rightarrow> string \<Rightarrow> dbase \<Rightarrow> row list" where
  "check_character_name_exists Q name d =
     take 1 (map (\<lambda>c. [(''?column?'', CInt 1)])
       (filter (\<lambda>c. sql_lower Q (c_name c) = sql_lower Q name \<and> c_deleted_at c = None)
         (d_characters d)))"

definition get_class_id_by_slug :: "string \<Rightarrow> dbase \<Rightarrow> row list" where
  "get_class_id_by_slug slug d =
     take 1 (map (\<lambda>cc. [(''id'', CInt (cc_id cc))])
       (filter (\<lambda>cc. cc_slug cc = Some slug) (d_classes d)))"

text \<open>\<open>COALESCE((SELECT MAX(account_slot) + 1 ...), 1)\<close>.\<close>

definition nextSlot :: "int \<Rightarrow> dbase \<Rightarrow> int" where
  "nextSlot ownerId d =
     (case map c_account_slot (liveOf ownerId d) of [] \<Rightarrow> 1 | x # xs \<Rightarrow> fold max xs x + 1)"

definition insertCharacter :: "int \<Rightarrow> string \<Rightarrow> int \<Rightarrow> int \<times> int \<times> int \<Rightarrow> dbase \<Rightarrow> dbase" where
  "insertCharacter ownerId name slot cls d =
     (case cls of (classId, raceId, genderId) \<Rightarrow>
        let i = sq_characters (d_seq d) in
        d\<lparr>d_seq := (d_seq d)\<lparr>sq_characters := i + 1\<rparr>,
          d_characters := d_characters d @
            [\<lparr>c_id = i, c_owner_id = ownerId, c_name = name, c_class_id = classId,
              c_race_id = raceId, c_gender = genderId, c_account_slot = slot, c_level = 1,
              c_experience_points = 0, c_is_online = False, c_deleted_at = None\<rparr>]\<rparr>)"

text \<open>One character for every combination of class, race and gender rows that match the slugs.\<close>

definition create_character ::
  "int \<Rightarrow> string \<Rightarrow> string \<Rightarrow> string \<Rightarrow> string \<Rightarrow> dbase \<Rightarrow> row list \<times> dbase" where
  "create_character ownerId name classSlug raceSlug genderName d =
     (let combos = [(cc_id cc, r_id r, g_id g).
             cc \<leftarrow> filter (\<lambda>cc. cc_slug cc = Some classSlug) (d_classes d),
             r \<leftarrow> filter (\<lambda>r. r_slug r = raceSlug) (d_races d),
             g \<leftarrow> filter (\<lambda>g. g_name g = genderName) (d_genders d)];
          first = sq_characters (d_seq d)
      in (map (\<lambda>k. [(''id'', CInt (first + int k))]) [0..<length combos],
          fold (insertCharacter ownerId name (nextSlot ownerId d)) combos d))"

definition init_character_state :: "int \<Rightarrow> dbase \<Rightarrow> dbase" where
  "init_character_state characterId d =
     (if \<exists>s \<in> set (d_states d). st_character_id s = characterId then d
      else d\<lparr>d_states := d_states d @
             [\<lparr>st_character_id = characterId, st_current_health = 1, st_current_mana = 1\<rparr>]\<rparr>)"

text \<open>The only unique column of the table is \<open>id\<close>, which the sequence keeps fresh.\<close>

definition init_character_position :: "int \<Rightarrow> dbase \<Rightarrow> dbase" where
  "init_character_position characterId d =
     (let i = sq_positions (d_seq d) in
      d\<lparr>d_seq := (d_seq d)\<lparr>sq_positions := i + 1\<rparr>,
        d_positions := d_positions d @
          [\<lparr>p_id = i, p_character_id = characterId, p_x = 0, p_y = 0, p_z = 200, p_zone_id = 1\<rparr>]\<rparr>)"

definition insertSkill :: "int \<Rightarrow> int \<Rightarrow> dbase \<Rightarrow> dbase" where
  "insertSkill characterId skillId d =
     (let i = sq_skills (d_seq d); d' = d\<lparr>d_seq := (d_seq d)\<lparr>sq_skills := i + 1\<rparr>\<rparr>
      in if \<exists>s \<in> set (d_skills d). sk_character_id s = characterId \<and> sk_skill_id s = skillId then d'
         else d'\<lparr>d_skills := d_skills d @
                 [\<lparr>sk_id = i, sk_character_id = characterId, sk_skill_id = skillId,
                   sk_current_level = 1\<rparr>]\<rparr>)"

definition init_character_default_skills :: "int \<Rightarrow> int \<Rightarrow> dbase \<Rightarrow> dbase" where
  "init_character_default_skills characterId classId d =
     fold (insertSkill characterId)
       (map cs_skill_id (filter (\<lambda>t. cs_class_id t = classId \<and> cs_is_default t) (d_classSkills d))) d"

definition insertItem :: "int \<Rightarrow> starter_item_row \<times> item_row \<Rightarrow> dbase \<Rightarrow> dbase" where
  "insertItem characterId ci d =
     (let i = sq_inventory (d_seq d); csi = fst ci in
      d\<lparr>d_seq := (d_seq d)\<lparr>sq_inventory := i + 1\<rparr>,
        d_inventory := d_inventory d @
          [\<lparr>i_id = i, i_character_id = characterId, i_item_id = si_item_id csi,
            i_quantity = si_quantity csi, i_slot_index = si_slot_index csi,
            i_durability_current = (case si_durability_current csi of
               None \<Rightarrow> it_durability_max (snd ci) | Some v \<Rightarrow> v)\<rparr>]\<rparr>)"

definition init_character_starter_items :: "int \<Rightarrow> int \<Rightarrow> dbase \<Rightarrow> dbase" where
  "init_character_starter_items characterId classId d =
     fold (insertItem characterId)
       [(csi, i). csi \<leftarrow> filter (\<lambda>csi. si_class_id csi = classId) (d_starterItems d),
                  i \<leftarrow> filter (\<lambda>i. it_id i = si_item_id csi) (d_items d)] d"

definition grantCurrency :: "int \<Rightarrow> starter_currency_row \<Rightarrow> dbase \<Rightarrow> dbase" where
  "grantCurrency characterId csc d =
     (if \<exists>w \<in> set (d_currencies d).
           cu_character_id w = characterId \<and> cu_currency_id w = sc_currency_id csc
      then d\<lparr>d_currencies := map (\<lambda>w.
             if cu_character_id w = characterId \<and> cu_currency_id w = sc_currency_id csc
             then w\<lparr>cu_amount := cu_amount w + sc_amount csc\<rparr> else w) (d_currencies d)\<rparr>
      else d\<lparr>d_currencies := d_currencies d @
             [\<lparr>cu_character_id = characterId, cu_currency_id = sc_currency_id csc,
               cu_amount = sc_amount csc\<rparr>]\<rparr>)"

definition init_character_starter_currencies :: "int \<Rightarrow> int \<Rightarrow> dbase \<Rightarrow> dbase" where
  "init_character_starter_currencies characterId classId d =
     fold (grantCurrency characterId)
       (filter (\<lambda>csc. sc_class_id csc = classId) (d_starterCurrencies d)) d"

definition delete_character :: "int \<Rightarrow> int \<Rightarrow> dbase \<Rightarrow> row list \<times> dbase" where
  "delete_character characterId ownerId d =
     (let hit = (\<lambda>c. c_id c = characterId \<and> c_owner_id c = ownerId \<and> c_deleted_at c = None) in
      (map (\<lambda>c. [(''id'', CInt (c_id c))]) (filter hit (d_characters d)),
       d\<lparr>d_characters := map (\<lambda>c. if hit c then c\<lparr>c_deleted_at := Some (d_now d)\<rparr> else c)
           (d_characters d)\<rparr>))"

section \<open>Creation options\<close>

definition get_character_classes :: "dbase \<Rightarrow> row list" where
  "get_character_classes d =
     map (\<lambda>cc. [(''id'', CInt (cc_id cc)), (''name'', CText (cc_name cc)),
                (''slug'', textCell (cc_slug cc)), (''description'', textCell (cc_description cc))])
       (sort_key cc_id (d_classes d))"

definition get_character_races :: "dbase \<Rightarrow> row list" where
  "get_character_races d =
     map (\<lambda>r. [(''id'', CInt (r_id r)), (''name'', CText (r_name r)), (''slug'', CText (r_slug r))])
       (sort_key r_id (d_races d))"

definition get_character_genders :: "dbase \<Rightarrow> row list" where
  "get_character_genders d =
     map (\<lambda>g. [(''id'', CInt (g_id g)), (''name'', CText (g_name g)), (''label'', CText (g_label g))])
       (sort_key g_id (d_genders d))"

section \<open>The registry\<close>

text \<open>A call of \<open>exec_prepared\<close>: the statement and its parameters in order.\<close>

datatype query =
    SearchUser string
  | ProbeUserStatus string
  | CheckActiveBan int
  | IncrementFailedLogins string
  | ResetFailedLogins int string string
  | CreateUserSession int string string
  | CleanupExpiredSessions
  | RevokeUserSessions int
  | GetCharactersList int
  | GetCharacterEquipmentPreview int
  | SelectCharacter int int
  | CreateCharacter int string string string string
  | InitCharacterState int
  | InitCharacterPosition int
  | InitCharacterDefaultSkills int int
  | GetClassIdBySlug string
  | InitCharacterStarterItems int int
  | InitCharacterStarterCurrencies int int
  | CheckCharacterNameExists string
  | GetCharacterSlotCount int
  | DeleteCharacter int int
  | GetCharacterClasses
  | GetCharacterRaces
  | GetCharacterGenders
  | CheckLoginAvailable string
  | RegisterUser string string string string string

definition kQueries :: "string list" where
  "kQueries =
     [''search_user'', ''probe_user_status'', ''check_active_ban'', ''increment_failed_logins'',
      ''reset_failed_logins'', ''create_user_session'', ''cleanup_expired_sessions'',
      ''revoke_user_sessions'', ''get_characters_list'', ''get_character_equipment_preview'',
      ''select_character'', ''create_character'', ''init_character_state'',
      ''init_character_position'', ''init_character_default_skills'', ''get_class_id_by_slug'',
      ''init_character_starter_items'', ''init_character_starter_currencies'',
      ''check_character_name_exists'', ''get_character_slot_count'', ''delete_character'',
      ''get_character_classes'', ''get_character_races'', ''get_character_genders'',
      ''check_login_available'', ''register_user'']"

text \<open>The name each call passes to \<open>exec_prepared\<close>.\<close>

fun queryName :: "query \<Rightarrow> string" where
  "queryName (SearchUser l) = ''search_user''"
| "queryName (ProbeUserStatus l) = ''probe_user_status''"
| "queryName (CheckActiveBan u) = ''check_active_ban''"
| "queryName (IncrementFailedLogins l) = ''increment_failed_logins''"
| "queryName (ResetFailedLogins u ip v) = ''reset_failed_logins''"
| "queryName (CreateUserSession u h v) = ''create_user_session''"
| "queryName CleanupExpiredSessions = ''cleanup_expired_sessions''"
| "queryName (RevokeUserSessions u) = ''revoke_user_sessions''"
| "queryName (GetCharactersList u) = ''get_characters_list''"
| "queryName (GetCharacterEquipmentPreview c) = ''get_character_equipment_preview''"
| "queryName (SelectCharacter u c) = ''select_character''"
| "queryName (CreateCharacter u n c r g) = ''create_character''"
| "queryName (InitCharacterState c) = ''init_character_state''"
| "queryName (InitCharacterPosition c) = ''init_character_position''"
| "queryName (InitCharacterDefaultSkills c k) = ''init_character_default_skills''"
| "queryName (GetClassIdBySlug s) = ''get_class_id_by_slug''"
| "queryName (InitCharacterStarterItems c k) = ''init_character_starter_items''"
| "queryName (InitCharacterStarterCurrencies c k) = ''init_character_starter_currencies''"
| "queryName (CheckCharacterNameExists n) = ''check_character_name_exists''"
| "queryName (GetCharacterSlotCount u) = ''get_character_slot_count''"
| "queryName (DeleteCharacter c u) = ''delete_character''"
| "queryName GetCharacterClasses = ''get_character_classes''"
| "queryName GetCharacterRaces = ''get_character_races''"
| "queryName GetCharacterGenders = ''get_character_genders''"
| "queryName (CheckLoginAvailable l) = ''check_login_available''"
| "queryName (RegisterUser l p e ip v) = ''register_user''"

text \<open>What a statement returns and what it makes of the tables.\<close>

fun runQuery :: "sql_env \<Rightarrow> query \<Rightarrow> dbase \<Rightarrow> row list \<times> dbase" where
  "runQuery Q (SearchUser l) d = (search_user l d, d)"
| "runQuery Q (ProbeUserStatus l) d = (probe_user_status l d, d)"
| "runQuery Q (CheckActiveBan u) d = (check_active_ban Q u d, d)"
| "runQuery Q (IncrementFailedLogins l) d = ([], increment_failed_logins l d)"
| "runQuery Q (ResetFailedLogins u ip v) d = ([], reset_failed_logins u ip v d)"
| "runQuery Q (CreateUserSession u h v) d = ([], create_user_session u h v d)"
| "runQuery Q CleanupExpiredSessions d = ([], cleanup_expired_sessions d)"
| "runQuery Q (RevokeUserSessions u) d = ([], revoke_user_sessions u d)"
| "runQuery Q (GetCharactersList u) d = (get_characters_list u d, d)"
| "runQuery Q (GetCharacterEquipmentPreview c) d = (get_character_equipment_preview c d, d)"
| "runQuery Q (SelectCharacter u c) d = (select_character u c d, d)"
| "runQuery Q (CreateCharacter u n c r g) d = create_character u n c r g d"
| "runQuery Q (InitCharacterState c) d = ([], init_character_state c d)"
| "runQuery Q (InitCharacterPosition c) d = ([], init_character_position c d)"
| "runQuery Q (InitCharacterDefaultSkills c k) d = ([], init_character_default_skills c k d)"
| "runQuery Q (GetClassIdBySlug s) d = (get_class_id_by_slug s d, d)"
| "runQuery Q (InitCharacterStarterItems c k) d = ([], init_character_starter_items c k d)"
| "runQuery Q (InitCharacterStarterCurrencies c k) d = ([], init_character_starter_currencies c k d)"
| "runQuery Q (CheckCharacterNameExists n) d = (check_character_name_exists Q n d, d)"
| "runQuery Q (GetCharacterSlotCount u) d = (get_character_slot_count u d, d)"
| "runQuery Q (DeleteCharacter c u) d = delete_character c u d"
| "runQuery Q GetCharacterClasses d = (get_character_classes d, d)"
| "runQuery Q GetCharacterRaces d = (get_character_races d, d)"
| "runQuery Q GetCharacterGenders d = (get_character_genders d, d)"
| "runQuery Q (CheckLoginAvailable l) d = (check_login_available Q l d, d)"
| "runQuery Q (RegisterUser l p e ip v) d = register_user l p e ip v d"

text \<open>\<open>Database::prepareQueriesOn\<close>: the registered statements in order; \<open>prepare\<close> is libpqxx.\<close>

definition prepareQueriesOn :: "(string \<Rightarrow> ('w, unit) eff) \<Rightarrow> ('w, unit) eff" where
  "prepareQueriesOn prepare = forEach kQueries prepare"

section \<open>Keys\<close>

text \<open>A serial column: no value twice, and all below the sequence.\<close>

definition keyed :: "('a \<Rightarrow> int) \<Rightarrow> int \<Rightarrow> 'a list \<Rightarrow> bool" where
  "keyed f n xs \<longleftrightarrow> distinct (map f xs) \<and> (\<forall>x \<in> set xs. f x < n)"

lemma keyed_snoc: "keyed f n xs \<Longrightarrow> f x = n \<Longrightarrow> keyed f (n + 1) (xs @ [x])"
  by (auto simp: keyed_def)

lemma keyed_skip: "keyed f n xs \<Longrightarrow> keyed f (n + 1) xs"
  by (auto simp: keyed_def)

lemma keyed_map: "keyed f n xs \<Longrightarrow> (\<And>x. f (g x) = f x) \<Longrightarrow> keyed f n (map g xs)"
  by (auto simp: keyed_def comp_def)

lemma keyed_filter: "keyed f n xs \<Longrightarrow> keyed f n (filter P xs)"
  by (auto simp: keyed_def distinct_map_filter)

text \<open>The keys and unique columns of the tables the statements write.\<close>

definition tables_ok :: "dbase \<Rightarrow> bool" where
  "tables_ok d \<longleftrightarrow>
     keyed u_id (sq_users (d_seq d)) (d_users d) \<and>
     keyed s_id (sq_sessions (d_seq d)) (d_sessions d) \<and>
     keyed c_id (sq_characters (d_seq d)) (d_characters d) \<and>
     keyed p_id (sq_positions (d_seq d)) (d_positions d) \<and>
     keyed sk_id (sq_skills (d_seq d)) (d_skills d) \<and>
     keyed i_id (sq_inventory (d_seq d)) (d_inventory d) \<and>
     distinct (map s_token_hash (d_sessions d)) \<and>
     distinct (map st_character_id (d_states d)) \<and>
     distinct (map (\<lambda>s. (sk_character_id s, sk_skill_id s)) (d_skills d)) \<and>
     distinct (map (\<lambda>w. (cu_character_id w, cu_currency_id w)) (d_currencies d))"

lemma fold_keeps: "(\<And>x d. I d \<Longrightarrow> I (f x d)) \<Longrightarrow> I d \<Longrightarrow> I (fold f xs d)"
  by (induction xs arbitrary: d) auto

lemma insertCharacter_ok: "tables_ok d \<Longrightarrow> tables_ok (insertCharacter o' n s c d)"
  by (auto simp: tables_ok_def insertCharacter_def Let_def intro!: keyed_snoc split: prod.split)

lemma insertSkill_ok: "tables_ok d \<Longrightarrow> tables_ok (insertSkill c k d)"
  by (auto simp: tables_ok_def insertSkill_def Let_def intro: keyed_snoc keyed_skip)

lemma insertItem_ok: "tables_ok d \<Longrightarrow> tables_ok (insertItem c k d)"
  by (auto simp: tables_ok_def insertItem_def Let_def intro!: keyed_snoc)

lemma distinct_map_o: "distinct (map f xs) \<Longrightarrow> (\<And>x. f (g x) = f x) \<Longrightarrow> distinct (map (f \<circ> g) xs)"
  by (simp add: comp_def)

lemma grantCurrency_ok: "tables_ok d \<Longrightarrow> tables_ok (grantCurrency c k d)"
  by (auto simp: tables_ok_def grantCurrency_def intro!: distinct_map_o)

lemma revoke_ok: "tables_ok d \<Longrightarrow> tables_ok (revoke_user_sessions u d)"
  by (auto simp: tables_ok_def revoke_user_sessions_def intro!: keyed_map distinct_map_o)

lemma runQuery_ok: "tables_ok d \<Longrightarrow> tables_ok (snd (runQuery Q q d))"
proof (cases q)
  case (RevokeUserSessions u)
  then show "tables_ok d \<Longrightarrow> ?thesis" by (simp add: revoke_ok)
next
  case (CreateCharacter u n c r g)
  then show "tables_ok d \<Longrightarrow> ?thesis"
    by (auto simp: create_character_def Let_def intro!: fold_keeps [where I = tables_ok] insertCharacter_ok)
next
  case (InitCharacterDefaultSkills c k)
  then show "tables_ok d \<Longrightarrow> ?thesis"
    by (auto simp: init_character_default_skills_def intro!: fold_keeps [where I = tables_ok] insertSkill_ok)
next
  case (InitCharacterStarterItems c k)
  then show "tables_ok d \<Longrightarrow> ?thesis"
    by (auto simp: init_character_starter_items_def intro!: fold_keeps [where I = tables_ok] insertItem_ok)
next
  case (InitCharacterStarterCurrencies c k)
  then show "tables_ok d \<Longrightarrow> ?thesis"
    by (auto simp: init_character_starter_currencies_def intro!: fold_keeps [where I = tables_ok] grantCurrency_ok)
next
  case (DeleteCharacter c u)
  then show "tables_ok d \<Longrightarrow> ?thesis"
    by (auto simp: tables_ok_def delete_character_def Let_def intro!: keyed_map)
next
  case (IncrementFailedLogins l)
  then show "tables_ok d \<Longrightarrow> ?thesis"
    by (auto simp: tables_ok_def increment_failed_logins_def intro!: keyed_map)
next
  case (ResetFailedLogins u ip v)
  then show "tables_ok d \<Longrightarrow> ?thesis"
    by (auto simp: tables_ok_def reset_failed_logins_def intro!: keyed_map)
next
  case (CreateUserSession u h v)
  then show "tables_ok d \<Longrightarrow> ?thesis"
    by (auto simp: tables_ok_def create_user_session_def Let_def intro: keyed_snoc keyed_skip)
next
  case CleanupExpiredSessions
  then show "tables_ok d \<Longrightarrow> ?thesis"
    by (auto simp: tables_ok_def cleanup_expired_sessions_def distinct_map_filter intro!: keyed_filter)
next
  case (InitCharacterState c)
  then show "tables_ok d \<Longrightarrow> ?thesis"
    by (auto simp: tables_ok_def init_character_state_def)
next
  case (InitCharacterPosition c)
  then show "tables_ok d \<Longrightarrow> ?thesis"
    by (auto simp: tables_ok_def init_character_position_def Let_def intro!: keyed_snoc)
next
  case (RegisterUser l p e ip v)
  then show "tables_ok d \<Longrightarrow> ?thesis"
    by (auto simp: tables_ok_def register_user_def Let_def intro!: keyed_snoc)
qed auto

section \<open>Account slots\<close>

lemma fold_max_ge: "x \<in> set (a # xs) \<Longrightarrow> x \<le> fold max xs (a :: int)"
  using Max_ge [of "set (a # xs)" x] by (simp only: Max.set_eq_fold List.finite_set simp_thms)

lemma nextSlot_above: "c \<in> set (liveOf o' d) \<Longrightarrow> c_account_slot c < nextSlot o' d"
proof -
  assume c: "c \<in> set (liveOf o' d)"
  then have m: "c_account_slot c \<in> set (map c_account_slot (liveOf o' d))" by simp
  then obtain a xs where l: "map c_account_slot (liveOf o' d) = a # xs"
    by (metis list.set_cases)
  have "c_account_slot c \<le> fold max xs a" using fold_max_ge [of "c_account_slot c" a xs] m l by simp
  then show ?thesis by (simp add: nextSlot_def l)
qed

section \<open>Lockout\<close>

definition failLogin :: "int \<Rightarrow> user_row \<Rightarrow> user_row" where
  "failLogin now u =
     u\<lparr>u_failed_login_attempts := u_failed_login_attempts u + 1,
       u_locked_until := (if u_failed_login_attempts u + 1 \<ge> 5 then Some (now + 900)
                          else u_locked_until u)\<rparr>"

text \<open>Failed attempts at the times \<open>ts\<close>, each in a transaction of its own.\<close>

definition failures :: "string \<Rightarrow> int list \<Rightarrow> dbase \<Rightarrow> dbase" where
  "failures login ts d = fold (\<lambda>t d. increment_failed_logins login (d\<lparr>d_now := t\<rparr>)) ts d"

lemma failLogin_sel [simp]:
  "u_login (failLogin t u) = u_login u" "u_is_active (failLogin t u) = u_is_active u"
  "u_failed_login_attempts (failLogin t u) = u_failed_login_attempts u + 1"
  "u_locked_until (failLogin t u) =
     (if u_failed_login_attempts u \<ge> 4 then Some (t + 900) else u_locked_until u)"
  by (auto simp: failLogin_def)

lemma increment_users:
  "d_users (increment_failed_logins login d) =
     map (\<lambda>u. if u_login u = login then failLogin (d_now d) u else u) (d_users d)"
  by (simp add: increment_failed_logins_def failLogin_def)

lemma failures_users:
  "d_users (failures login ts d) =
     map (\<lambda>u. if u_login u = login then fold failLogin ts u else u) (d_users d)"
proof (induction ts arbitrary: d)
  case Nil
  then show ?case by (simp add: failures_def map_idI)
next
  case (Cons t ts)
  have "failures login (t # ts) d = failures login ts (increment_failed_logins login (d\<lparr>d_now := t\<rparr>))"
    by (simp add: failures_def)
  then show ?case using Cons by (simp add: increment_users comp_def cong: if_cong)
qed

lemma fold_failLogin:
  "u_login (fold failLogin ts u) = u_login u \<and> u_is_active (fold failLogin ts u) = u_is_active u \<and>
   u_failed_login_attempts (fold failLogin ts u) = u_failed_login_attempts u + int (length ts)"
  by (induction ts arbitrary: u) auto

lemma fold_failLogin_locks:
  assumes "0 \<le> u_failed_login_attempts u" and "5 \<le> length ts"
  shows "u_locked_until (fold failLogin ts u) = Some (last ts + 900)"
proof -
  have "ts \<noteq> []" using assms(2) by auto
  then obtain us t where ts: "ts = us @ [t]" by (metis append_butlast_last_id)
  then have "4 \<le> u_failed_login_attempts (fold failLogin us u)"
    using assms fold_failLogin [of us u] by simp
  then show ?thesis by (simp add: ts)
qed

lemma fold_failLogin_free:
  "u_failed_login_attempts u + int (length ts) \<le> 4 \<Longrightarrow>
     u_locked_until (fold failLogin ts u) = u_locked_until u"
  by (induction ts arbitrary: u) auto

lemma search_empty_iff:
  "search_user login d = [] \<longleftrightarrow>
     (\<forall>u \<in> set (d_users d). u_login u = login \<longrightarrow> u_is_active u \<longrightarrow>
        (\<exists>t. u_locked_until u = Some t \<and> d_now d \<le> t))"
  by (auto simp: search_user_def filter_empty_conv not_less split: option.splits)

section \<open>Properties\<close>

text \<open>The registry holds 26 statements with distinct names (its comment says 25), every statement
  the program executes is among them, and a connection gets them all, in order.\<close>

lemma statements_registered:
  "length kQueries = 26 \<and> distinct kQueries \<and> queryName q \<in> set kQueries \<and>
   prepareQueriesOn (\<lambda>n. updS (\<lambda>log. log @ [n])) log = (Inr (), log @ kQueries)"
proof -
  have "forEach qs (\<lambda>n. updS (\<lambda>log. log @ [n])) log = (Inr (), log @ qs)" for qs :: "string list" and log
    by (induction qs arbitrary: log) auto
  moreover have "queryName q \<in> set kQueries" by (cases q) (simp_all add: kQueries_def)
  moreover have "length kQueries = 26" "distinct kQueries" by (simp_all add: kQueries_def)
  ultimately show ?thesis by (simp add: prepareQueriesOn_def)
qed


definition noTables :: dbase where
  "noTables =
     \<lparr>d_now = 0, d_seq = \<lparr>sq_users = 1, sq_sessions = 1, sq_characters = 1, sq_positions = 1,
        sq_skills = 1, sq_inventory = 1\<rparr>, d_users = [], d_sessions = [], d_bans = [],
      d_characters = [], d_classes = [], d_races = [], d_genders = [], d_states = [],
      d_positions = [], d_skills = [], d_inventory = [], d_currencies = [], d_equipment = [],
      d_items = [], d_starterItems = [], d_starterCurrencies = [], d_classSkills = []\<rparr>"

definition demoSql :: sql_env where
  "demoSql = \<lparr>sql_lower = (\<lambda>s. s), sql_tsText = to_string\<rparr>"


text \<open>C30: up to four failures leave an unlocked account usable; from the fifth on it cannot be found for
  fifteen minutes after the last failure, and since nothing resets the counter when the lock runs out,
  every single later failure locks it again.\<close>

theorem five_failures_lock:
  assumes "\<forall>u \<in> set (d_users d). 0 \<le> u_failed_login_attempts u"
  shows "(5 \<le> length ts \<longrightarrow> n \<le> last ts + 900 \<longrightarrow>
            search_user login ((failures login ts d)\<lparr>d_now := n\<rparr>) = []) \<and>
         (5 \<le> length ts \<longrightarrow> m \<le> t + 900 \<longrightarrow>
            search_user login ((failures login (ts @ [t]) d)\<lparr>d_now := m\<rparr>) = []) \<and>
         (\<forall>u \<in> set (d_users d). u_login u = login \<and> u_is_active u \<and> u_locked_until u = None \<and>
              u_failed_login_attempts u + int (length ts) \<le> 4 \<longrightarrow>
            search_user login ((failures login ts d)\<lparr>d_now := n\<rparr>) \<noteq> [])"
proof -
  have locked: "search_user login ((failures login us d)\<lparr>d_now := k\<rparr>) = []"
    if "5 \<le> length us" "k \<le> last us + 900" for us k
    using that assms fold_failLogin_locks by (auto simp: search_empty_iff failures_users)
  have "search_user login ((failures login ts d)\<lparr>d_now := n\<rparr>) \<noteq> []"
    if u: "u \<in> set (d_users d)" "u_login u = login" "u_is_active u" "u_locked_until u = None"
      "u_failed_login_attempts u + int (length ts) \<le> 4" for u
  proof -
    have "fold failLogin ts u \<in> set (d_users (failures login ts d))"
      using u by (auto simp: failures_users intro: image_eqI [where x = u])
    then show ?thesis
      using fold_failLogin [of ts u] fold_failLogin_free [OF u(5)] u
      unfolding search_empty_iff by (auto intro!: bexI [of _ "fold failLogin ts u"])
  qed
  then show ?thesis using locked [of ts n] locked [of "ts @ [t]" m] by auto
qed

definition annDb :: dbase where
  "annDb = snd (register_user ''ann'' ''h'' [] ''::1'' ''1.0.0'' noTables)"

theorem five_failures_lock_witness:
  "search_user ''ann'' ((failures ''ann'' [10, 20, 30, 40, 50] annDb)\<lparr>d_now := 950\<rparr>) = [] \<and>
   search_user ''ann'' ((failures ''ann'' [10, 20, 30, 40, 50, 2000] annDb)\<lparr>d_now := 2900\<rparr>) = [] \<and>
   search_user ''ann'' ((failures ''ann'' [10, 20, 30, 40] annDb)\<lparr>d_now := 41\<rparr>) \<noteq> []"
proof -
  have f: "\<forall>u \<in> set (d_users annDb). 0 \<le> u_failed_login_attempts u"
    by (simp add: annDb_def register_user_def noTables_def Let_def)
  have u: "\<exists>u \<in> set (d_users annDb). u_login u = ''ann'' \<and> u_is_active u \<and> u_locked_until u = None \<and>
      u_failed_login_attempts u + int (length [10, 20, 30, 40 :: int]) \<le> 4"
    by (simp add: annDb_def register_user_def noTables_def Let_def)
  show ?thesis
    using five_failures_lock [OF f, of "[10, 20, 30, 40, 50]" 950 "''ann''" 2900 2000]
      five_failures_lock [OF f, of "[10, 20, 30, 40]" 41 "''ann''" 0 0] u by auto
qed

end
