(* ===== verification/Connection.thy ===== *)
theory Connection
  imports Pool Tables
begin

text \<open>
  The use the server makes of libpqxx: a \<open>pqxx::work\<close> is begun on a connection, runs prepared
  statements, and is committed or aborted; its destructor rolls back what is left. PostgreSQL and
  libpqxx are parameters (\<open>db_lib\<close>); what the code relies on is the locale \<open>sql_db\<close>, over what is
  committed (\<open>db\<close>) and what each connection's open transaction would commit (\<open>txn\<close>).
\<close>

section \<open>Calls\<close>

record ('w, 'c) db_lib =
  dl_conn :: "('w, 'c) conn_lib"
  dl_begin :: "'c \<Rightarrow> ('w, unit) eff"
  dl_exec :: "'c \<Rightarrow> query \<Rightarrow> ('w, row list) eff"
  dl_commit :: "'c \<Rightarrow> ('w, unit) eff"
  dl_abort :: "'c \<Rightarrow> ('w, unit) eff"
  dl_close :: "'c \<Rightarrow> 'w \<Rightarrow> 'w"

section \<open>Reading results\<close>

text \<open>\<open>row["name"]\<close>, \<open>field.as<T>()\<close> and \<open>is_null()\<close>; a failed conversion throws.\<close>

definition colOf :: "string \<Rightarrow> row \<Rightarrow> exn + cell" where
  "colOf k r = (case map_of r k of None \<Rightarrow> Inl (InvalidArgument k) | Some v \<Rightarrow> Inr v)"

fun asInt :: "cell \<Rightarrow> exn + int" where
  "asInt (CInt n) = (if in_int n then Inr n else Inl (SqlFailure ''conversion to int''))"
| "asInt _ = Inl (SqlFailure ''conversion to int'')"

fun asText :: "cell \<Rightarrow> exn + string" where
  "asText (CText s) = Inr s"
| "asText (CInt n) = Inr (to_string n)"
| "asText (CBool b) = Inr (if b then ''t'' else ''f'')"
| "asText CNull = Inl (SqlFailure ''unexpected null'')"

fun asBool :: "cell \<Rightarrow> exn + bool" where
  "asBool (CBool b) = Inr b"
| "asBool _ = Inl (SqlFailure ''conversion to bool'')"

definition colInt :: "string \<Rightarrow> row \<Rightarrow> exn + int" where
  "colInt k r = bindR (colOf k r) asInt"

definition colText :: "string \<Rightarrow> row \<Rightarrow> exn + string" where
  "colText k r = bindR (colOf k r) asText"

definition colBool :: "string \<Rightarrow> row \<Rightarrow> exn + bool" where
  "colBool k r = bindR (colOf k r) asBool"

text \<open>\<open>row[k].is_null() ? d : row[k].as<T>()\<close>.\<close>

definition colOr :: "'a \<Rightarrow> (cell \<Rightarrow> exn + 'a) \<Rightarrow> string \<Rightarrow> row \<Rightarrow> exn + 'a" where
  "colOr d conv k r = bindR (colOf k r) (\<lambda>v. if v = CNull then Inr d else conv v)"

lemmas col_defs = colInt_def colText_def colBool_def colOr_def colOf_def

section \<open>What the server relies on\<close>

definition seq_le :: "sequences \<Rightarrow> sequences \<Rightarrow> bool" where
  "seq_le a b \<longleftrightarrow> sq_users a \<le> sq_users b \<and> sq_sessions a \<le> sq_sessions b \<and>
     sq_characters a \<le> sq_characters b \<and> sq_positions a \<le> sq_positions b \<and>
     sq_skills a \<le> sq_skills b \<and> sq_inventory a \<le> sq_inventory b"

text \<open>What a transaction begun on \<open>d\<close> sees: later in time, sequences possibly advanced by others.\<close>

definition snapshotOf :: "dbase \<Rightarrow> dbase \<Rightarrow> bool" where
  "snapshotOf d d' \<longleftrightarrow>
     (\<exists>t s. d' = d\<lparr>d_now := t, d_seq := s\<rparr> \<and> d_now d \<le> t \<and> seq_le (d_seq d) s)"

lemma snapshotE:
  assumes "snapshotOf d d'"
  obtains t s where "d' = d\<lparr>d_now := t, d_seq := s\<rparr>" "d_now d \<le> t" "seq_le (d_seq d) s"
  using assms by (auto simp: snapshotOf_def)

text \<open>
  The laws hold while no other transaction is open. A commit that fails may have happened or not
  (\<open>pqxx::in_doubt_error\<close>); a second transaction on a busy connection is a \<open>usage_error\<close>.
\<close>

locale sql_db =
  fixes L :: "('w, 'c) db_lib" and Q :: sql_env
    and db :: "'w \<Rightarrow> dbase" and txn :: "'w \<Rightarrow> 'c \<Rightarrow> dbase option"
  assumes open_frame: "cl_open (dl_conn L) s w = (r, w') \<Longrightarrow> db w' = db w \<and> txn w' = txn w"
    and prepare_frame: "cl_prepare (dl_conn L) c w = (r', w') \<Longrightarrow> db w' = db w \<and> txn w' = txn w"
    and probe_frame: "cl_probe (dl_conn L) c w = (r', w') \<Longrightarrow> db w' = db w \<and> txn w' = txn w"
    and begin_ok: "txn w = Map.empty \<Longrightarrow> dl_begin L c w = (Inr u, w') \<Longrightarrow>
      db w' = db w \<and> (\<exists>d. txn w' = [c \<mapsto> d] \<and> snapshotOf (db w) d)"
    and begin_fail: "txn w = Map.empty \<Longrightarrow> dl_begin L c w = (Inl e, w') \<Longrightarrow>
      db w' = db w \<and> txn w' = Map.empty"
    and begin_busy: "txn w = [c \<mapsto> d] \<Longrightarrow> \<exists>m. dl_begin L c w = (Inl (UsageError m), w)"
    and exec_ok: "txn w = [c \<mapsto> d] \<Longrightarrow> dl_exec L c q w = (Inr rows, w') \<Longrightarrow>
      db w' = db w \<and> rows = fst (runQuery Q q d) \<and> txn w' = [c \<mapsto> snd (runQuery Q q d)]"
    and exec_fail: "txn w = [c \<mapsto> d] \<Longrightarrow> dl_exec L c q w = (Inl e, w') \<Longrightarrow>
      db w' = db w \<and> txn w' = [c \<mapsto> d]"
    and commit_ok: "txn w = [c \<mapsto> d] \<Longrightarrow> dl_commit L c w = (Inr u, w') \<Longrightarrow>
      db w' = d \<and> txn w' = Map.empty"
    and commit_fail: "txn w = [c \<mapsto> d] \<Longrightarrow> dl_commit L c w = (Inl e, w') \<Longrightarrow>
      (db w' = db w \<or> db w' = d) \<and> txn w' = Map.empty"
    and abort_eff: "txn w = [c \<mapsto> d] \<Longrightarrow> dl_abort L c w = (r', w') \<Longrightarrow>
      db w' = db w \<and> txn w' = Map.empty"
    and close_eff: "txn w = [c \<mapsto> d] \<or> txn w = Map.empty \<Longrightarrow>
      db (dl_close L c w) = db w \<and> txn (dl_close L c w) = Map.empty"
begin

lemma begin_wp:
  assumes "txn w = Map.empty"
    and "\<And>w' d. db w' = db w \<Longrightarrow> txn w' = [c \<mapsto> d] \<Longrightarrow> snapshotOf (db w) d \<Longrightarrow> R (Inr ()) w'"
    and "\<And>e w'. db w' = db w \<Longrightarrow> txn w' = Map.empty \<Longrightarrow> R (Inl e) w'"
  shows "wp (dl_begin L c) R w"
proof (rule wpI)
  fix r w' assume b: "dl_begin L c w = (r, w')"
  show "R r w'"
  proof (cases r)
    case (Inl e)
    then show ?thesis using begin_fail [OF assms(1), of c e w'] b assms(3) by simp
  next
    case (Inr u)
    then show ?thesis using begin_ok [OF assms(1), of c u w'] b assms(2) by auto
  qed
qed

text \<open>The connection has the only open transaction.\<close>

definition opened :: "'c \<Rightarrow> 'w \<Rightarrow> bool" where
  "opened c w \<longleftrightarrow> txn w = [c \<mapsto> the (txn w c)]"

lemma openedI [simp]: "txn w = [c \<mapsto> d] \<Longrightarrow> opened c w"
  by (simp add: opened_def)

lemma busy_wp:
  assumes "opened c w" and "\<And>m. R (Inl (UsageError m)) w"
  shows "wp (dl_begin L c) R w"
  using begin_busy [of w c "the (txn w c)"] assms by (auto simp: wp_def opened_def)

lemma exec_wp:
  assumes "opened c w"
    and "\<And>w'. db w' = db w \<Longrightarrow> txn w' = [c \<mapsto> snd (runQuery Q q (the (txn w c)))] \<Longrightarrow>
          R (Inr (fst (runQuery Q q (the (txn w c))))) w'"
    and "\<And>e w'. db w' = db w \<Longrightarrow> txn w' = [c \<mapsto> the (txn w c)] \<Longrightarrow> R (Inl e) w'"
  shows "wp (dl_exec L c q) R w"
proof (rule wpI)
  fix r w' assume b: "dl_exec L c q w = (r, w')"
  note o = assms(1) [unfolded opened_def]
  show "R r w'"
  proof (cases r)
    case (Inl e)
    then show ?thesis using exec_fail [OF o, of q e w'] b assms(3) by simp
  next
    case (Inr rows)
    then show ?thesis using exec_ok [OF o, of q rows w'] b assms(2) by simp
  qed
qed

lemma commit_wp:
  assumes "opened c w"
    and "\<And>w'. db w' = the (txn w c) \<Longrightarrow> txn w' = Map.empty \<Longrightarrow> R (Inr ()) w'"
    and "\<And>e w'. db w' = db w \<or> db w' = the (txn w c) \<Longrightarrow> txn w' = Map.empty \<Longrightarrow> R (Inl e) w'"
  shows "wp (dl_commit L c) R w"
proof (rule wpI)
  fix r w' assume b: "dl_commit L c w = (r, w')"
  note o = assms(1) [unfolded opened_def]
  show "R r w'"
  proof (cases r)
    case (Inl e)
    then show ?thesis using commit_fail [OF o, of e w'] b assms(3) by simp
  next
    case (Inr u)
    then show ?thesis using commit_ok [OF o, of u w'] b assms(2) by simp
  qed
qed

lemma abort_wp:
  assumes "opened c w" and "\<And>w'. db w' = db w \<Longrightarrow> txn w' = Map.empty \<Longrightarrow> R (Inr ()) w'"
    and "\<And>e w'. db w' = db w \<Longrightarrow> txn w' = Map.empty \<Longrightarrow> R (Inl e) w'"
  shows "wp (dl_abort L c) R w"
proof (rule wpI)
  fix r w' assume b: "dl_abort L c w = (r, w')"
  then show "R r w'"
    using abort_eff [OF assms(1) [unfolded opened_def] b] assms(2,3) by (cases r) simp_all
qed

lemma close_opened [simp]:
  "txn w = [c \<mapsto> d] \<Longrightarrow> db (dl_close L c w) = db w"
  "txn w = [c \<mapsto> d] \<Longrightarrow> txn (dl_close L c w) = Map.empty"
  by (simp_all add: close_eff)

definition closable :: "'c \<Rightarrow> 'w \<Rightarrow> bool" where
  "closable c w \<longleftrightarrow> txn w = Map.empty \<or> opened c w"

lemma closableI [simp]: "txn w = Map.empty \<Longrightarrow> closable c w" "opened c w \<Longrightarrow> closable c w"
  by (simp_all add: closable_def)

lemma close_closable [simp]:
  "closable c w \<Longrightarrow> db (dl_close L c w) = db w"
  "closable c w \<Longrightarrow> txn (dl_close L c w) = Map.empty"
  using close_eff [of w c "the (txn w c)"] by (auto simp: closable_def opened_def)

lemma close_ended [simp]:
  "txn w = Map.empty \<Longrightarrow> db (dl_close L c w) = db w"
  "txn w = Map.empty \<Longrightarrow> txn (dl_close L c w) = Map.empty"
  by (simp_all add: close_eff)

end

text \<open>A database that answers: every call on a connection in the right state succeeds.\<close>

locale live_db = sql_db +
  assumes begin_live: "txn w = Map.empty \<Longrightarrow> \<exists>u w'. dl_begin L c w = (Inr u, w')"
    and exec_live: "txn w = [c \<mapsto> d] \<Longrightarrow> \<exists>rows w'. dl_exec L c q w = (Inr rows, w')"
    and commit_live: "txn w = [c \<mapsto> d] \<Longrightarrow> \<exists>u w'. dl_commit L c w = (Inr u, w')"
    and abort_live: "txn w = [c \<mapsto> d] \<Longrightarrow> \<exists>u w'. dl_abort L c w = (Inr u, w')"
    and open_live: "cl_is_open (dl_conn L) c w"
    and probe_live: "\<exists>u w'. cl_probe (dl_conn L) c w = (Inr u, w')"
begin

lemma begin_live_wp:
  assumes "txn w = Map.empty"
    and "\<And>w' d. db w' = db w \<Longrightarrow> txn w' = [c \<mapsto> d] \<Longrightarrow> snapshotOf (db w) d \<Longrightarrow> R (Inr ()) w'"
  shows "wp (dl_begin L c) R w"
  using begin_live [OF assms(1), of c] begin_ok [OF assms(1), of c] assms(2) by (auto simp: wp_def)

lemma exec_live_wp:
  assumes o: "opened c w"
    and "\<And>w'. db w' = db w \<Longrightarrow> txn w' = [c \<mapsto> snd (runQuery Q q (the (txn w c)))] \<Longrightarrow>
          R (Inr (fst (runQuery Q q (the (txn w c))))) w'"
  shows "wp (dl_exec L c q) R w"
  using exec_live [OF o [unfolded opened_def], of q] exec_ok [OF o [unfolded opened_def], of q] assms(2)
  by (auto simp: wp_def)

lemma commit_live_wp:
  assumes o: "opened c w"
    and "\<And>w'. db w' = the (txn w c) \<Longrightarrow> txn w' = Map.empty \<Longrightarrow> R (Inr ()) w'"
  shows "wp (dl_commit L c) R w"
  using commit_live [OF o [unfolded opened_def]] commit_ok [OF o [unfolded opened_def]] assms(2)
  by (auto simp: wp_def)

lemma abort_live_wp:
  assumes o: "opened c w" and "\<And>w'. db w' = db w \<Longrightarrow> txn w' = Map.empty \<Longrightarrow> R (Inr ()) w'"
  shows "wp (dl_abort L c) R w"
  using abort_live [OF o [unfolded opened_def]] abort_eff [OF o [unfolded opened_def]] assms(2)
  by (auto simp: wp_def)

end

section \<open>A relational database\<close>

text \<open>
  A store that meets the laws: the committed tables, one transaction at a time, a clock, and a
  script of faults (\<open>True\<close>: the next call that can fail does), which a store built with
  \<open>relLib False\<close> never consults.
\<close>

record rel =
  rl_db :: dbase
  rl_txn :: "(nat \<times> dbase) option"
  rl_clock :: int
  rl_next :: nat
  rl_faults :: "bool list"

definition faulty :: "bool \<Rightarrow> (rel, unit) eff" where
  "faulty f = (\<lambda>w. if f \<and> rl_faults w \<noteq> [] then
       (if hd (rl_faults w) then Inl (SqlFailure ''connection lost'') else Inr (),
        w\<lparr>rl_faults := tl (rl_faults w)\<rparr>)
     else (Inr (), w))"

definition relTxn :: "rel \<Rightarrow> nat \<Rightarrow> dbase option" where
  "relTxn w = (case rl_txn w of None \<Rightarrow> Map.empty | Some (c, d) \<Rightarrow> [c \<mapsto> d])"

definition relBegin :: "bool \<Rightarrow> nat \<Rightarrow> (rel, unit) eff" where
  "relBegin f c = (\<lambda>w. case rl_txn w of
       Some _ \<Rightarrow> (Inl (UsageError ''transaction still active''), w)
     | None \<Rightarrow> andThen (faulty f) (\<lambda>_. updS (\<lambda>w.
         let t = max (d_now (rl_db w)) (rl_clock w) in
         w\<lparr>rl_txn := Some (c, (rl_db w)\<lparr>d_now := t\<rparr>), rl_clock := t + 1\<rparr>)) w)"

definition relExec :: "bool \<Rightarrow> sql_env \<Rightarrow> nat \<Rightarrow> query \<Rightarrow> (rel, row list) eff" where
  "relExec f Q c q = (\<lambda>w. case rl_txn w of
       None \<Rightarrow> (Inl (UsageError ''no transaction''), w)
     | Some (c', d) \<Rightarrow> andThen (faulty f) (\<lambda>_ w.
         case runQuery Q q d of (rows, d') \<Rightarrow> (Inr rows, w\<lparr>rl_txn := Some (c', d')\<rparr>)) w)"

definition relCommit :: "bool \<Rightarrow> nat \<Rightarrow> (rel, unit) eff" where
  "relCommit f c = (\<lambda>w. case rl_txn w of
       None \<Rightarrow> (Inl (UsageError ''no transaction''), w)
     | Some (c', d) \<Rightarrow> andThen (updS (\<lambda>w. w\<lparr>rl_txn := None\<rparr>)) (\<lambda>_. andThen (faulty f) (\<lambda>_.
         updS (\<lambda>w. w\<lparr>rl_db := d\<rparr>))) w)"

definition relConn :: "bool \<Rightarrow> (rel, nat) conn_lib" where
  "relConn f =
     \<lparr>cl_open = (\<lambda>s. andThen (faulty f) (\<lambda>_ w. (Inr (rl_next w), w\<lparr>rl_next := Suc (rl_next w)\<rparr>))),
      cl_is_open = (\<lambda>c w. True), cl_prepare = (\<lambda>c. faulty f), cl_probe = (\<lambda>c. faulty f),
      cl_now = rl_clock, cl_sleep = (\<lambda>ms w. w\<lparr>rl_clock := rl_clock w + ms\<rparr>)\<rparr>"

definition relLib :: "bool \<Rightarrow> sql_env \<Rightarrow> (rel, nat) db_lib" where
  "relLib f Q =
     \<lparr>dl_conn = relConn f, dl_begin = relBegin f, dl_exec = relExec f Q, dl_commit = relCommit f,
      dl_abort = (\<lambda>c. updS (\<lambda>w. w\<lparr>rl_txn := None\<rparr>)), dl_close = (\<lambda>c w. w\<lparr>rl_txn := None\<rparr>)\<rparr>"

lemma faulty_frame: "faulty f w = (r, w') \<Longrightarrow> rl_db w' = rl_db w \<and> rl_txn w' = rl_txn w"
  by (auto simp: faulty_def split: if_splits)

lemma faulty_False [simp]: "faulty False w = (Inr (), w)"
  by (simp add: faulty_def)

lemma relTxn_empty: "relTxn w = Map.empty \<longleftrightarrow> rl_txn w = None"
  by (auto simp: relTxn_def split: option.splits)

lemma relTxn_one: "relTxn w = [c \<mapsto> d] \<longleftrightarrow> rl_txn w = Some (c, d)"
  by (auto simp: relTxn_def fun_eq_iff split: option.splits if_splits)

lemma relTxn_cong: "rl_txn w' = rl_txn w \<Longrightarrow> relTxn w' = relTxn w"
  by (simp add: relTxn_def)

lemma seq_le_refl [simp]: "seq_le s s"
  by (simp add: seq_le_def)

lemma snapshot_now: "snapshotOf d (d\<lparr>d_now := max (d_now d) t\<rparr>)"
  unfolding snapshotOf_def
  by (rule exI [of _ "max (d_now d) t"], rule exI [of _ "d_seq d"]) simp

lemmas rel_defs = relLib_def relConn_def relBegin_def relExec_def relCommit_def relTxn_empty
  relTxn_one andThen_def Let_def

interpretation rel_db: sql_db "relLib f Q" Q rl_db relTxn
proof
  fix s w r w' assume "cl_open (dl_conn (relLib f Q)) s w = (r, w')"
  then show "rl_db w' = rl_db w \<and> relTxn w' = relTxn w"
    by (auto simp: rel_defs relTxn_def dest: faulty_frame split: prod.splits sum.splits)
next
  fix c w r w' assume "cl_prepare (dl_conn (relLib f Q)) c w = (r, w')"
  then show "rl_db w' = rl_db w \<and> relTxn w' = relTxn w"
    by (auto simp: rel_defs relTxn_def dest: faulty_frame)
next
  fix c w r w' assume "cl_probe (dl_conn (relLib f Q)) c w = (r, w')"
  then show "rl_db w' = rl_db w \<and> relTxn w' = relTxn w"
    by (auto simp: rel_defs relTxn_def dest: faulty_frame)
next
  fix c w u w' assume "relTxn w = Map.empty" "dl_begin (relLib f Q) c w = (Inr u, w')"
  then show "rl_db w' = rl_db w \<and> (\<exists>d. relTxn w' = [c \<mapsto> d] \<and> snapshotOf (rl_db w) d)"
    by (auto simp: rel_defs snapshot_now dest!: faulty_frame split: prod.splits sum.splits)
next
  fix c w e w' assume "relTxn w = Map.empty" "dl_begin (relLib f Q) c w = (Inl e, w')"
  then show "rl_db w' = rl_db w \<and> relTxn w' = Map.empty"
    by (auto simp: rel_defs dest: faulty_frame split: prod.splits sum.splits)
qed (auto simp: rel_defs dest: faulty_frame split: prod.splits sum.splits)

interpretation live_rel_db: live_db "relLib False Q" Q rl_db relTxn
  by unfold_locales (auto simp: rel_defs split: prod.splits)

end
