(* ===== verification/World.thy ===== *)
theory World
  imports Connection Network Sessions
begin

text \<open>
  The state a handler works on: the session registry, the connection pool with the database behind
  it, and the network services it answers through; and the parameters it runs with. Handlers run one
  at a time here. Readings of the clock, of a random generator and of the sockets consume ticks.
\<close>

section \<open>State\<close>

text \<open>
  OpenSSL: whether each call of the digest interface succeeds may differ from one password to the
  next, the digest itself is a function of the text.
\<close>

record evp_lib =
  evp_ctx_new :: "nat \<Rightarrow> bool"
  evp_init :: "nat \<Rightarrow> bool"
  evp_update :: "nat \<Rightarrow> bool"
  evp_final :: "nat \<Rightarrow> bool"
  evp_sha256 :: "string \<Rightarrow> 8 word list"

record ('w, 'c) senv =
  se_net :: net_env
  se_db :: "('w, 'c) db_lib"
  se_evp :: evp_lib
  se_uuid :: "nat \<Rightarrow> string"
  se_steady :: "nat \<Rightarrow> int"

record ('w, 'c) world =
  w_sessions :: sessions
  w_pool :: "'c pool"
  w_out :: 'w
  w_net :: services

definition onNet :: "(services, 'a) eff \<Rightarrow> (('w, 'c) world, 'a) eff" where
  "onNet m = (\<lambda>s. case m (w_net s) of (r, n) \<Rightarrow> (r, s\<lparr>w_net := n\<rparr>))"

definition onOut :: "('w, 'a) eff \<Rightarrow> (('w, 'c) world, 'a) eff" where
  "onOut m = (\<lambda>s. case m (w_out s) of (r, w) \<Rightarrow> (r, s\<lparr>w_out := w\<rparr>))"

definition onSessions :: "(sessions \<Rightarrow> sessions) \<Rightarrow> (('w, 'c) world, unit) eff" where
  "onSessions f = updS (\<lambda>s. s\<lparr>w_sessions := f (w_sessions s)\<rparr>)"

definition tickW :: "(nat \<Rightarrow> 'a) \<Rightarrow> (('w, 'c) world, 'a) eff" where
  "tickW f = onNet (tick f)"

section \<open>Connections and transactions\<close>

text \<open>\<open>pool.acquire()\<close> with the default timeout, and the guard's destructor.\<close>

definition acquireW :: "('w, 'c) senv \<Rightarrow> (('w, 'c) world, nat) eff" where
  "acquireW E = (\<lambda>s. case acquire (dl_conn (se_db E)) 5000 (w_pool s, w_out s) of
     (r, (p, w)) \<Rightarrow> (r, s\<lparr>w_pool := p, w_out := w\<rparr>))"

definition releaseW :: "nat \<Rightarrow> ('w, 'c) world \<Rightarrow> ('w, 'c) world" where
  "releaseW k s = s\<lparr>w_pool := guardDestroy (Some k) (w_pool s)\<rparr>"

text \<open>
  \<open>Guard::get\<close>. A slot without a connection would be a null dereference; it is an exception here, and
  the pool's invariant rules it out for a slot that is held.
\<close>

definition guardGet :: "nat \<Rightarrow> (('w, 'c) world, 'c) eff" where
  "guardGet k = andThen (readS (\<lambda>s. connectionAt k (w_pool s))) (\<lambda>r.
     case r of Inl e \<Rightarrow> throw e
     | Inr None \<Rightarrow> throw (RuntimeError ''null connection'')
     | Inr (Some c) \<Rightarrow> ret c)"

definition withGuard :: "('w, 'c) senv \<Rightarrow> (nat \<Rightarrow> (('w, 'c) world, 'a) eff) \<Rightarrow> (('w, 'c) world, 'a) eff" where
  "withGuard E body = andThen (acquireW E) (\<lambda>k. scopeExit (body k) (releaseW k))"

text \<open>\<open>pqxx::work t(conn);\<close> up to the end of its scope.\<close>

definition withWork :: "('w, 'c) senv \<Rightarrow> 'c \<Rightarrow> (('w, 'c) world, 'a) eff \<Rightarrow> (('w, 'c) world, 'a) eff" where
  "withWork E c body =
     andThen (onOut (dl_begin (se_db E) c)) (\<lambda>_.
       scopeExit body (\<lambda>s. s\<lparr>w_out := dl_close (se_db E) c (w_out s)\<rparr>))"

definition exec_prepared :: "('w, 'c) senv \<Rightarrow> 'c \<Rightarrow> query \<Rightarrow> (('w, 'c) world, row list) eff" where
  "exec_prepared E c q = onOut (dl_exec (se_db E) c q)"

definition commitT :: "('w, 'c) senv \<Rightarrow> 'c \<Rightarrow> (('w, 'c) world, unit) eff" where
  "commitT E c = onOut (dl_commit (se_db E) c)"

definition abortT :: "('w, 'c) senv \<Rightarrow> 'c \<Rightarrow> (('w, 'c) world, unit) eff" where
  "abortT E c = onOut (dl_abort (se_db E) c)"

section \<open>Answers\<close>

text \<open>\<open>sendResponse(socket, generateResponseMessage(status, builder.build()))\<close>.\<close>

definition respond ::
  "('w, 'c) senv \<Rightarrow> sock option \<Rightarrow> string \<Rightarrow> builder \<Rightarrow> (('w, 'c) world, unit) eff" where
  "respond E s status b =
     onNet (andThen (genResponse (se_net E) status (build b)) (sendResponse (se_net E) s))"

section \<open>Lifting\<close>

lemma wp_onNet [wp_simps]: "wp (onNet m) R s = wp m (\<lambda>r n. R r (s\<lparr>w_net := n\<rparr>)) (w_net s)"
  by (simp add: wp_def onNet_def split: prod.split)

lemma wp_onOut [wp_simps]: "wp (onOut m) R s = wp m (\<lambda>r w. R r (s\<lparr>w_out := w\<rparr>)) (w_out s)"
  by (simp add: wp_def onOut_def split: prod.split)

lemma wp_onSessions [wp_simps]:
  "wp (onSessions f) R s = R (Inr ()) (s\<lparr>w_sessions := f (w_sessions s)\<rparr>)"
  by (simp add: onSessions_def wp_simps)

lemma wp_tickW [wp_simps]:
  "wp (tickW f) R s =
     R (Inr (f (n_ticks (w_net s)))) (s\<lparr>w_net := (w_net s)\<lparr>n_ticks := Suc (n_ticks (w_net s))\<rparr>\<rparr>)"
  by (simp add: tickW_def wp_simps) (simp add: wp_def)

abbreviation freeW :: "('w, 'c) world \<Rightarrow> nat multiset" where
  "freeW s \<equiv> mset (pl_available (w_pool s))"

lemma acquireW_acquire:
  "acquireW E s = (r, s') \<Longrightarrow>
     acquire (dl_conn (se_db E)) 5000 (w_pool s, w_out s) = (r, (w_pool s', w_out s')) \<and>
     s' = s\<lparr>w_pool := w_pool s', w_out := w_out s'\<rparr>"
  by (auto simp: acquireW_def split: prod.splits)

interpretation world_slots: slot_pool "acquireW E" releaseW freeW
  for E :: "('w, 'c) senv"
proof
  fix s :: "('w, 'c) world" and k s'
  assume a: "acquireW E s = (Inr k, s')"
  show "freeW s = add_mset k (freeW s')"
    using slots.take_ok acquireW_acquire [OF a] by fastforce
next
  fix s :: "('w, 'c) world" and e s'
  assume a: "acquireW E s = (Inl e, s')"
  show "freeW s' = freeW s"
    using slots.take_fail acquireW_acquire [OF a] by fastforce
next
  fix s :: "('w, 'c) world" and k
  show "freeW (releaseW k s) = add_mset k (freeW s)"
    by (simp add: releaseW_def guardDestroy_def releaseSlot_def)
qed

lemma withGuard_scoped: "withGuard E body = world_slots.scoped E body"
  by (rule ext) (simp add: withGuard_def world_slots.scoped_def scopeExit_def)

text \<open>A guarded body that leaves the free slots alone leaves the pool balanced.\<close>

lemma withGuard_balanced: "(\<And>k. conserves freeW (body k)) \<Longrightarrow> conserves freeW (withGuard E body)"
  unfolding conserves_def withGuard_scoped using world_slots.scoped_balanced by blast

lemma conserves_lift [simp]:
  "conserves freeW (onNet m)" "conserves freeW (onOut m')" "conserves freeW (onSessions f)"
  "conserves freeW (tickW g)" "conserves freeW (guardGet k)" "conserves freeW (exec_prepared E c q)"
  "conserves freeW (commitT E c)" "conserves freeW (abortT E c)" "conserves freeW (respond E so st b)"
  by (auto simp: conserves_def onNet_def onOut_def onSessions_def tickW_def guardGet_def andThen_def
      exec_prepared_def commitT_def abortT_def respond_def
      split: prod.split sum.split option.split)

lemma conserves_scopeExit: "conserves f m \<Longrightarrow> (\<And>s. f (d s) = f s) \<Longrightarrow> conserves f (scopeExit m d)"
  by (auto simp: conserves_def scopeExit_def split: prod.split) (metis snd_conv)

lemma conserves_withWork: "conserves freeW body \<Longrightarrow> conserves freeW (withWork E c body)"
  unfolding withWork_def by (auto intro!: conserves_andThen conserves_scopeExit)

lemma conserves_forEach: "(\<And>x. conserves f (g x)) \<Longrightarrow> conserves f (forEach xs g)"
  by (induction xs) (auto intro!: conserves_andThen)

lemma conserves_if: "conserves f m \<Longrightarrow> conserves f n \<Longrightarrow> conserves f (if b then m else n)"
  by simp

lemma conserves_lift_res [simp]: "conserves f (lift_res r)"
  by (simp add: conserves_def)

lemmas conserves_intros = conserves_andThen conserves_tryCatch conserves_scopeExit conserves_withWork
  conserves_forEach conserves_if withGuard_balanced

text \<open>Answering only posts to the socket; the sessions, the pool and the database are untouched.\<close>

lemma respond_frame:
  "\<exists>r n. respond E so status b s = (r, s\<lparr>w_net := n\<rparr>) \<and> n_queue n = n_queue (w_net s) \<and>
     n_stats n = n_stats (w_net s)"
proof -
  obtain r1 n1 where g: "genResponse (se_net E) status (build b) (w_net s) = (r1, n1)"
    "n_queue n1 = n_queue (w_net s)" "n_stats n1 = n_stats (w_net s)"
    by (simp add: genResponse_result)
  show ?thesis
  proof (cases r1)
    case (Inl e)
    then show ?thesis using g by (auto simp: respond_def onNet_def andThen_def)
  next
    case (Inr line)
    have "n_queue (snd (sendResponse (se_net E) so line n1)) = n_queue n1 \<and>
        n_stats (snd (sendResponse (se_net E) so line n1)) = n_stats n1"
      by (cases so) (use sendResponse_posted in \<open>auto simp: sendResponse_def split: option.split\<close>)
    then show ?thesis using g Inr
      by (auto simp: respond_def onNet_def andThen_def split: prod.split)
  qed
qed

lemma respond_wp:
  assumes "\<And>r n. n_queue n = n_queue (w_net s) \<Longrightarrow> n_stats n = n_stats (w_net s) \<Longrightarrow>
    R r (s\<lparr>w_net := n\<rparr>)"
  shows "wp (respond E so status b) R s"
  using respond_frame [of E so status b s] assms by (auto simp: wp_def)

section \<open>The database behind the world\<close>

text \<open>No transaction is open, and the pool's \<open>n\<close> slots are accounted for: free, or in \<open>held\<close>.\<close>

definition ready ::
  "('w \<Rightarrow> 'c \<Rightarrow> dbase option) \<Rightarrow> nat \<Rightarrow> nat list \<Rightarrow> ('w, 'c) world \<Rightarrow> bool" where
  "ready txn n held s \<longleftrightarrow> pool_ok n (w_pool s) held \<and> txn (w_out s) = Map.empty"

locale server = sql_db "se_db E" Q db txn
  for E :: "('w, 'c) senv" and Q and db :: "'w \<Rightarrow> dbase" and txn
begin

abbreviation dbW :: "('w, 'c) world \<Rightarrow> dbase" where "dbW s \<equiv> db (w_out s)"

lemma acquire_frame:
  assumes "acquire (dl_conn (se_db E)) t (p, w) = (r, (p', w'))"
  shows "db w' = db w \<and> txn w' = txn w"
proof -
  let ?f = "\<lambda>(p, w). (db w, txn w)"
  have out: "conserves ?f (onWorld m)" if "\<And>r w w'. m w = (r, w') \<Longrightarrow> db w' = db w \<and> txn w' = txn w"
    for m :: "('w, 'x) eff"
    using that by (auto simp: conserves_def onWorld_def split: prod.split)
  have pool: "conserves ?f (onPool g)" for g by (auto simp: conserves_def onPool_def)
  have slot: "conserves ?f (openSlot (dl_conn (se_db E)) k)" for k
    unfolding openSlot_def
    by (auto intro!: conserves_andThen pool out dest: open_frame prepare_frame split: if_splits)
  have health: "conserves ?f (healthy (dl_conn (se_db E)) k)" for k
    unfolding healthy_def
    by (auto intro!: conserves_andThen conserves_tryCatch out [OF probe_frame] split: option.split)
  have "conserves ?f (acquire (dl_conn (se_db E)) t)"
    unfolding acquire_def
    by (auto intro!: conserves_andThen conserves_tryCatch pool slot health split: list.split)
  then have "?f (snd (acquire (dl_conn (se_db E)) t (p, w))) = ?f (p, w)"
    unfolding conserves_def by blast
  then show ?thesis by (simp add: assms)
qed

lemma acquire_wp:
  assumes "ready txn n held s"
    and "\<And>k s'. ready txn n (k # held) s' \<Longrightarrow> w_sessions s' = w_sessions s \<Longrightarrow> w_net s' = w_net s \<Longrightarrow>
          dbW s' = dbW s \<Longrightarrow> R (Inr k) s'"
    and "\<And>e s'. ready txn n held s' \<Longrightarrow> w_sessions s' = w_sessions s \<Longrightarrow> w_net s' = w_net s \<Longrightarrow>
          dbW s' = dbW s \<Longrightarrow> R (Inl e) s'"
  shows "wp (acquireW E) R s"
proof (rule wpI)
  fix r s' assume a: "acquireW E s = (r, s')"
  note q = acquireW_acquire [OF a]
  have f: "dbW s' = dbW s" "txn (w_out s') = txn (w_out s)" using acquire_frame q by blast+
  have same: "w_sessions s' = w_sessions s" "w_net s' = w_net s"
    using q by (metis world.ext_inject world.surjective world.update_convs(2,3))+
  have "pool_ok n (w_pool s') (case r of Inr k \<Rightarrow> k # held | Inl e \<Rightarrow> held)"
    using assms(1) q by (auto simp: ready_def intro: acquire_pool_ok)
  then show "R r s'"
    using assms f same by (cases r) (auto simp: ready_def)
qed

lemma ready_held: "ready txn n (k # held) s \<Longrightarrow> \<exists>c. connectionAt k (w_pool s) = Inr (Some c)"
proof -
  assume r: "ready txn n (k # held) s"
  then have "set_mset (mset (pl_available (w_pool s)) + mset (k # held)) = set_mset (mset [0..<n])"
    unfolding ready_def pool_ok_def by metis
  then have "k < n" by auto
  then show ?thesis using r by (auto simp: ready_def pool_ok_def connectionAt_def)
qed

lemma release_ready: "ready txn n (k # held) s \<Longrightarrow> ready txn n held (releaseW k s)"
  by (simp add: ready_def pool_ok_def releaseW_def guardDestroy_def releaseSlot_def)

lemma releaseW_sel [simp]:
  "w_sessions (releaseW k s) = w_sessions s" "w_net (releaseW k s) = w_net s"
  "w_out (releaseW k s) = w_out s"
  by (simp_all add: releaseW_def)

lemma guardGet_wp:
  assumes "ready txn n (k # held) s" and "\<And>c. R (Inr c) s"
  shows "wp (guardGet k) R s"
  using ready_held [OF assms(1)] assms(2) by (auto simp: guardGet_def wp_simps)

lemma withWork_wp:
  assumes "txn (w_out s) = Map.empty"
    and "\<And>w d. db w = dbW s \<Longrightarrow> txn w = [c \<mapsto> d] \<Longrightarrow> snapshotOf (dbW s) d \<Longrightarrow>
      wp body (\<lambda>r t. R r (t\<lparr>w_out := dl_close (se_db E) c (w_out t)\<rparr>)) (s\<lparr>w_out := w\<rparr>)"
    and "\<And>e w. db w = dbW s \<Longrightarrow> txn w = Map.empty \<Longrightarrow> R (Inl e) (s\<lparr>w_out := w\<rparr>)"
  shows "wp (withWork E c body) R s"
  unfolding withWork_def wp_andThen wp_onOut
  by (rule begin_wp [OF assms(1)]) (simp_all add: wp_scopeExit assms(2,3))

lemma withWork_busy:
  assumes "opened c (w_out s)" and "\<And>m. R (Inl (UsageError m)) s"
  shows "wp (withWork E c body) R s"
  unfolding withWork_def wp_andThen wp_onOut by (rule busy_wp [OF assms(1)]) (simp add: assms(2))

lemma exec_prepared_wp:
  assumes "opened c (w_out s)"
    and "\<And>w. db w = dbW s \<Longrightarrow> txn w = [c \<mapsto> snd (runQuery Q q (the (txn (w_out s) c)))] \<Longrightarrow>
      R (Inr (fst (runQuery Q q (the (txn (w_out s) c))))) (s\<lparr>w_out := w\<rparr>)"
    and "\<And>e w. db w = dbW s \<Longrightarrow> txn w = [c \<mapsto> the (txn (w_out s) c)] \<Longrightarrow> R (Inl e) (s\<lparr>w_out := w\<rparr>)"
  shows "wp (exec_prepared E c q) R s"
  unfolding exec_prepared_def wp_onOut by (rule exec_wp [OF assms(1)]) (simp_all add: assms(2,3))

lemma commitT_wp:
  assumes "opened c (w_out s)"
    and "\<And>w. db w = the (txn (w_out s) c) \<Longrightarrow> txn w = Map.empty \<Longrightarrow> R (Inr ()) (s\<lparr>w_out := w\<rparr>)"
    and "\<And>e w. db w = dbW s \<or> db w = the (txn (w_out s) c) \<Longrightarrow> txn w = Map.empty \<Longrightarrow>
      R (Inl e) (s\<lparr>w_out := w\<rparr>)"
  shows "wp (commitT E c) R s"
  unfolding commitT_def wp_onOut by (rule commit_wp [OF assms(1)]) (simp_all add: assms(2,3))

lemma abortT_wp:
  assumes "opened c (w_out s)"
    and "\<And>w. db w = dbW s \<Longrightarrow> txn w = Map.empty \<Longrightarrow> R (Inr ()) (s\<lparr>w_out := w\<rparr>)"
    and "\<And>e w. db w = dbW s \<Longrightarrow> txn w = Map.empty \<Longrightarrow> R (Inl e) (s\<lparr>w_out := w\<rparr>)"
  shows "wp (abortT E c) R s"
  unfolding abortT_def wp_onOut by (rule abort_wp [OF assms(1)]) (simp_all add: assms(2,3))

lemmas db_rules = withWork_wp exec_prepared_wp commitT_wp abortT_wp

lemma ready_out:
  "ready txn n held s \<Longrightarrow> txn w = Map.empty \<Longrightarrow> ready txn n held (s\<lparr>w_out := w\<rparr>)"
  by (simp add: ready_def)

lemma ready_same [simp]:
  "ready txn n held (s\<lparr>w_net := x\<rparr>) = ready txn n held s"
  "ready txn n held (s\<lparr>w_sessions := y\<rparr>) = ready txn n held s"
  by (simp_all add: ready_def)

end

locale live_server = live_db "se_db E" Q db txn
  for E :: "('w, 'c) senv" and Q and db :: "'w \<Rightarrow> dbase" and txn

sublocale live_server \<subseteq> server E Q db txn ..

context live_server
begin

lemma withWork_live:
  assumes "txn (w_out s) = Map.empty"
    and "\<And>w d. db w = dbW s \<Longrightarrow> txn w = [c \<mapsto> d] \<Longrightarrow> snapshotOf (dbW s) d \<Longrightarrow>
      wp body (\<lambda>r t. R r (t\<lparr>w_out := dl_close (se_db E) c (w_out t)\<rparr>)) (s\<lparr>w_out := w\<rparr>)"
  shows "wp (withWork E c body) R s"
  unfolding withWork_def wp_andThen wp_onOut
  by (rule begin_live_wp [OF assms(1)]) (simp add: wp_scopeExit assms(2))

lemma exec_prepared_live:
  assumes "opened c (w_out s)"
    and "\<And>w. db w = dbW s \<Longrightarrow> txn w = [c \<mapsto> snd (runQuery Q q (the (txn (w_out s) c)))] \<Longrightarrow>
      R (Inr (fst (runQuery Q q (the (txn (w_out s) c))))) (s\<lparr>w_out := w\<rparr>)"
  shows "wp (exec_prepared E c q) R s"
  unfolding exec_prepared_def wp_onOut by (rule exec_live_wp [OF assms(1)]) (simp add: assms(2))

lemma commitT_live:
  assumes "opened c (w_out s)"
    and "\<And>w. db w = the (txn (w_out s) c) \<Longrightarrow> txn w = Map.empty \<Longrightarrow> R (Inr ()) (s\<lparr>w_out := w\<rparr>)"
  shows "wp (commitT E c) R s"
  unfolding commitT_def wp_onOut by (rule commit_live_wp [OF assms(1)]) (simp add: assms(2))

lemma abortT_live:
  assumes "opened c (w_out s)"
    and "\<And>w. db w = dbW s \<Longrightarrow> txn w = Map.empty \<Longrightarrow> R (Inr ()) (s\<lparr>w_out := w\<rparr>)"
  shows "wp (abortT E c) R s"
  unfolding abortT_def wp_onOut by (rule abort_live_wp [OF assms(1)]) (simp add: assms(2))

lemmas live_rules = withWork_live exec_prepared_live commitT_live abortT_live

end

text \<open>A server over the relational store, for concrete runs.\<close>

definition relEvp :: evp_lib where
  "relEvp = \<lparr>evp_ctx_new = (\<lambda>n. True), evp_init = (\<lambda>n. True), evp_update = (\<lambda>n. True),
     evp_final = (\<lambda>n. True), evp_sha256 = (\<lambda>t. map of_char t)\<rparr>"

definition relServer :: "bool \<Rightarrow> (rel, nat) senv" where
  "relServer f = \<lparr>se_net = demoEnv, se_db = relLib f demoSql, se_evp = relEvp,
     se_uuid = show_nat, se_steady = int\<rparr>"

interpretation rel_server: server "relServer f" demoSql rl_db relTxn
  by (simp add: server_def relServer_def rel_db.sql_db_axioms)

interpretation live_rel_server: live_server "relServer False" demoSql rl_db relTxn
  by (simp add: live_server_def relServer_def live_rel_db.live_db_axioms)

text \<open>One connection, number 0, in a pool of one slot.\<close>

definition relWorld :: "dbase \<Rightarrow> bool list \<Rightarrow> (rel, nat) world" where
  "relWorld d faults =
     \<lparr>w_sessions = [],
      w_pool = \<lparr>pl_connStr = [], pl_connections = [Some 0], pl_available = [0], pl_timeouts = 0,
                pl_reconnects = 0\<rparr>,
      w_out = \<lparr>rl_db = d, rl_txn = None, rl_clock = 100, rl_next = 1, rl_faults = faults\<rparr>,
      w_net = newServices\<rparr>"

lemma relWorld_ready: "ready relTxn 1 [] (relWorld d faults)"
  by (simp add: ready_def relWorld_def pool_ok_def relTxn_def)

end
