(* ===== verification/Regex.thy ===== *)
theory Regex
  imports Prelude
begin

text \<open>
  The part of \<open>std::regex\<close> (ECMAScript, C locale) the server's patterns use: bracket expressions
  with a bounded repetition, sequence and alternative. \<open>regex_match\<close> matches the whole text, so the
  anchors of the patterns add nothing.
\<close>

datatype regex =
    Rep "(char \<times> char) list" nat nat
  | Cat regex regex
  | Alt regex regex

definition inClass :: "(char \<times> char) list \<Rightarrow> char \<Rightarrow> bool" where
  "inClass rs c \<longleftrightarrow> list_ex (\<lambda>(lo, hi). (of_char lo :: nat) \<le> of_char c \<and> (of_char c :: nat) \<le> of_char hi) rs"

fun regex_match :: "regex \<Rightarrow> string \<Rightarrow> bool" where
  "regex_match (Rep rs lo hi) s \<longleftrightarrow> lo \<le> length s \<and> length s \<le> hi \<and> list_all (inClass rs) s"
| "regex_match (Cat a b) s \<longleftrightarrow>
     list_ex (\<lambda>i. regex_match a (take i s) \<and> regex_match b (drop i s)) [0..<Suc (length s)]"
| "regex_match (Alt a b) s \<longleftrightarrow> regex_match a s \<or> regex_match b s"

lemma match_Cat: "regex_match (Cat a b) s \<longleftrightarrow> (\<exists>u v. s = u @ v \<and> regex_match a u \<and> regex_match b v)"
proof
  assume "regex_match (Cat a b) s"
  then obtain i where "regex_match a (take i s)" "regex_match b (drop i s)"
    by (fastforce simp: list_ex_iff simp del: upt_Suc)
  then show "\<exists>u v. s = u @ v \<and> regex_match a u \<and> regex_match b v"
    by (metis append_take_drop_id)
next
  assume "\<exists>u v. s = u @ v \<and> regex_match a u \<and> regex_match b v"
  then obtain u v where s: "s = u @ v" "regex_match a u" "regex_match b v" by blast
  then have "length u \<in> set [0..<Suc (length s)]" by simp
  then show "regex_match (Cat a b) s"
    unfolding regex_match.simps list_ex_iff using s by (intro bexI [of _ "length u"]) auto
qed

lemma match_one: "regex_match (Rep rs 1 1) s \<longleftrightarrow> (\<exists>c. s = [c] \<and> inClass rs c)"
  by (cases s) auto

declare regex_match.simps(2) [simp del]

end
