(* ===== verification/Accounts.thy ===== *)
theory Accounts
  imports World Regex
begin

text \<open>
  \<open>AccountManager\<close> (\<open>src/services/AccountManager.cpp\<close>): password hashing, validation and the creation of
  accounts. \<open>registerAccount\<close> writes to its two out parameters only on success; they are threaded
  through as values.
\<close>

section \<open>Passwords\<close>

definition hexDigit :: "nat \<Rightarrow> char" where
  "hexDigit d = (if d < 10 then char_of (48 + d) else char_of (87 + d))"

text \<open>\<open>oss << std::hex << std::setw(2) << std::setfill('0') << static_cast<int>(b)\<close>.\<close>

definition hexByte :: "8 word \<Rightarrow> string" where
  "hexByte b = [hexDigit (unat b div 16), hexDigit (unat b mod 16)]"

definition hashPassword :: "evp_lib \<Rightarrow> nat \<Rightarrow> string \<Rightarrow> exn + string" where
  "hashPassword evp n plaintext =
     (if \<not> evp_ctx_new evp n then Inl (RuntimeError ''hashPassword: EVP_MD_CTX_new failed'')
      else if \<not> evp_init evp n then Inl (RuntimeError ''hashPassword: EVP_DigestInit_ex failed'')
      else if \<not> evp_update evp n then Inl (RuntimeError ''hashPassword: EVP_DigestUpdate failed'')
      else if \<not> evp_final evp n then Inl (RuntimeError ''hashPassword: EVP_DigestFinal_ex failed'')
      else Inr (concat (map hexByte (evp_sha256 evp plaintext))))"

definition hashPasswordW :: "('w, 'c) senv \<Rightarrow> string \<Rightarrow> (('w, 'c) world, string) eff" where
  "hashPasswordW E plaintext =
     andThen (tickW (\<lambda>n. hashPassword (se_evp E) n plaintext)) lift_res"

section \<open>Validation\<close>

datatype AccountRegisterResult =
    REG_OK
  | ERR_LOGIN_INVALID
  | ERR_LOGIN_TAKEN
  | ERR_PASSWORD_SHORT
  | ERR_PASSWORD_LONG
  | ERR_EMAIL_INVALID
  | REG_ERR_DB

fun registerCode :: "AccountRegisterResult \<Rightarrow> int" where
  "registerCode REG_OK = 0"
| "registerCode ERR_LOGIN_INVALID = -1"
| "registerCode ERR_LOGIN_TAKEN = -2"
| "registerCode ERR_PASSWORD_SHORT = -3"
| "registerCode ERR_PASSWORD_LONG = -4"
| "registerCode ERR_EMAIL_INVALID = -5"
| "registerCode REG_ERR_DB = -6"

text \<open>The enumeration has \<open>int\<close> as its underlying type and is ordered by it.\<close>

instantiation AccountRegisterResult :: linorder
begin

definition less_eq_AccountRegisterResult :: "AccountRegisterResult \<Rightarrow> AccountRegisterResult \<Rightarrow> bool" where
  "less_eq_AccountRegisterResult a b \<longleftrightarrow> registerCode a \<le> registerCode b"

definition less_AccountRegisterResult :: "AccountRegisterResult \<Rightarrow> AccountRegisterResult \<Rightarrow> bool" where
  "less_AccountRegisterResult a b \<longleftrightarrow> registerCode a < registerCode b"

instance
proof
  fix a b c :: AccountRegisterResult
  show "a < b \<longleftrightarrow> a \<le> b \<and> \<not> b \<le> a"
    by (auto simp: less_AccountRegisterResult_def less_eq_AccountRegisterResult_def)
  show "a \<le> a" by (simp add: less_eq_AccountRegisterResult_def)
  show "a \<le> b \<Longrightarrow> b \<le> c \<Longrightarrow> a \<le> c" by (simp add: less_eq_AccountRegisterResult_def)
  show "a \<le> b \<Longrightarrow> b \<le> a \<Longrightarrow> a = b"
    by (cases a; cases b) (simp_all add: less_eq_AccountRegisterResult_def)
  show "a \<le> b \<or> b \<le> a" by (auto simp: less_eq_AccountRegisterResult_def)
qed

end

definition alnumClass :: "(char \<times> char) list" where
  "alnumClass = [(CHR ''A'', CHR ''Z''), (CHR ''a'', CHR ''z''), (CHR ''0'', CHR ''9''), (CHR ''_'', CHR ''_'')]"

text \<open>\<open>^[A-Za-z0-9_]{3,20}$\<close>.\<close>

definition loginRegex :: regex where
  "loginRegex = Rep alnumClass 3 20"

definition validateRegistration :: "string \<Rightarrow> string \<Rightarrow> string \<Rightarrow> AccountRegisterResult" where
  "validateRegistration login password email =
     (if \<not> regex_match loginRegex login then ERR_LOGIN_INVALID
      else if length password < 8 then ERR_PASSWORD_SHORT
      else if length password > 100 then ERR_PASSWORD_LONG
      else if email \<noteq> [] \<and> CHR ''@'' \<notin> set email then ERR_EMAIL_INVALID
      else REG_OK)"

section \<open>Registration\<close>

definition storeSession :: "('w, 'c) senv \<Rightarrow> ClientDataStruct \<Rightarrow> (('w, 'c) world, unit) eff" where
  "storeSession E d = andThen (tickW (se_steady E)) (\<lambda>now. onSessions (storeClientData now d))"

type_synonym registration = "AccountRegisterResult \<times> int \<times> string"

text \<open>The second transaction: the user row and its session, committed together.\<close>

definition createAccount ::
  "('w, 'c) senv \<Rightarrow> 'c \<Rightarrow> string \<Rightarrow> string \<Rightarrow> string \<Rightarrow> string \<Rightarrow> string \<Rightarrow> int \<Rightarrow> string
     \<Rightarrow> (('w, 'c) world, registration) eff" where
  "createAccount E c login passwordHash email ipStr clientVersion outUserId outHash =
     withWork E c
       (andThen (exec_prepared E c (RegisterUser login passwordHash email ipStr clientVersion)) (\<lambda>rows.
        if rows = [] then andThen (abortT E c) (\<lambda>_. ret (REG_ERR_DB, outUserId, outHash))
        else andThen (lift_res (colInt ''id'' (hd rows))) (\<lambda>userId.
             andThen (tickW (se_uuid E)) (\<lambda>sessionHash.
             andThen (exec_prepared E c (RevokeUserSessions userId)) (\<lambda>_.
             andThen (exec_prepared E c CleanupExpiredSessions) (\<lambda>_.
             andThen (exec_prepared E c (CreateUserSession userId sessionHash clientVersion)) (\<lambda>_.
             andThen (commitT E c) (\<lambda>_.
             andThen (storeSession E
               (newClient\<lparr>cd_clientId := userId, cd_login := login, cd_hash := sessionHash,
                          cd_clientVersion := clientVersion\<rparr>)) (\<lambda>_.
               ret (REG_OK, userId, sessionHash))))))))))"

definition registerAccount ::
  "('w, 'c) senv \<Rightarrow> 'c \<Rightarrow> string \<Rightarrow> string \<Rightarrow> string \<Rightarrow> string \<Rightarrow> string \<Rightarrow> int \<Rightarrow> string
     \<Rightarrow> (('w, 'c) world, registration) eff" where
  "registerAccount E c login password email registrationIp clientVersion outUserId outHash =
     (let valid = validateRegistration login password email in
      if valid \<noteq> REG_OK then ret (valid, outUserId, outHash)
      else tryCatch
        (andThen (withWork E c
            (andThen (exec_prepared E c (CheckLoginAvailable login)) (\<lambda>r.
             andThen (abortT E c) (\<lambda>_. ret (r \<noteq> []))))) (\<lambda>taken.
         if taken then ret (ERR_LOGIN_TAKEN, outUserId, outHash)
         else andThen (hashPasswordW E password) (\<lambda>passwordHash.
           let ipStr = (if registrationIp = [] then ''127.0.0.1'' else registrationIp) in
           createAccount E c login passwordHash email ipStr clientVersion outUserId outHash)))
        (\<lambda>e. ret (REG_ERR_DB, outUserId, outHash)))"

section \<open>Lemmas\<close>

lemma hexDigit_inject:
  assumes "a < 16" and "b < 16"
  shows "hexDigit a = hexDigit b \<longleftrightarrow> a = b"
proof
  have v: "(of_char (hexDigit d) :: nat) = (if d < 10 then 48 + d else 87 + d)" if "d < 16" for d
    using that by (simp add: hexDigit_def)
  assume "hexDigit a = hexDigit b"
  then have "(if a < 10 then 48 + a else 87 + a) = (if b < 10 then 48 + b else 87 + b)"
    using v [OF assms(1)] v [OF assms(2)] by metis
  then show "a = b" by (cases "a < 10"; cases "b < 10") simp_all
qed simp

lemma hexByte_inject: "hexByte a = hexByte b \<longleftrightarrow> a = b"
proof
  assume h: "hexByte a = hexByte b"
  have "unat x < 256" for x :: "8 word" using unsigned_less [of x, where 'a = nat] by simp
  then have d: "unat x div 16 < 16" for x :: "8 word" by (simp add: less_mult_imp_div_less)
  have "unat a div 16 = unat b div 16" "unat a mod 16 = unat b mod 16"
    using h d by (simp_all add: hexByte_def hexDigit_inject)
  then have "unat a = unat b" by (metis div_mult_mod_eq)
  then show "a = b" by (simp add: word_unat_eq_iff)
qed simp

lemma hexBytes_inject: "concat (map hexByte as) = concat (map hexByte bs) \<longleftrightarrow> as = bs"
proof (induction as arbitrary: bs)
  case Nil
  then show ?case by (cases bs) (auto simp: hexByte_def)
next
  case (Cons a as)
  then show ?case
    by (cases bs) (auto simp: hexByte_inject [symmetric] hexByte_def simp del: One_nat_def)
qed

lemma conserves_registerAccount [simp]:
  "conserves freeW (registerAccount E c l p e ip v u h)"
  unfolding registerAccount_def createAccount_def hashPasswordW_def storeSession_def
  by (auto simp: Let_def intro!: conserves_intros)

section \<open>What registration does to the tables\<close>

text \<open>A new session of a user replaces the active ones; what has expired is dropped on the way.\<close>

definition rotateSession :: "int \<Rightarrow> string \<Rightarrow> string \<Rightarrow> dbase \<Rightarrow> dbase" where
  "rotateSession u token version d =
     create_user_session u token version (cleanup_expired_sessions (revoke_user_sessions u d))"

definition activeTokens :: "int \<Rightarrow> dbase \<Rightarrow> string list" where
  "activeTokens u d =
     map s_token_hash (filter (\<lambda>s. s_user_id s = u \<and> s_revoked_at s = None \<and> s_expires_at s > d_now d)
       (d_sessions d))"

lemma rotate_frame:
  "d_users (rotateSession u t v d) = d_users d" "d_now (rotateSession u t v d) = d_now d"
  "d_characters (rotateSession u t v d) = d_characters d"
  by (simp_all add: rotateSession_def create_user_session_def cleanup_expired_sessions_def
      revoke_user_sessions_def Let_def)

lemma rotate_sessions:
  "d_sessions (cleanup_expired_sessions (revoke_user_sessions u d)) =
     filter (\<lambda>s. \<not> (s_expires_at s < d_now d \<and> s_revoked_at s = None))
       (map (\<lambda>s. if s_user_id s = u \<and> s_revoked_at s = None \<and> s_expires_at s > d_now d
                 then s\<lparr>s_revoked_at := Some (d_now d)\<rparr> else s) (d_sessions d))"
  by (simp add: cleanup_expired_sessions_def revoke_user_sessions_def)

lemma activeTokens_snoc:
  "activeTokens v (d\<lparr>d_sessions := ss @ [x]\<rparr>) =
     activeTokens v (d\<lparr>d_sessions := ss\<rparr>) @
     (if s_user_id x = v \<and> s_revoked_at x = None \<and> s_expires_at x > d_now d then [s_token_hash x] else [])"
  by (simp add: activeTokens_def)

lemma activeTokens_cleaned:
  "activeTokens v (cleanup_expired_sessions (revoke_user_sessions u d)) =
     (if v = u then [] else activeTokens v d)"
proof -
  let ?m = "\<lambda>s. if s_user_id s = u \<and> s_revoked_at s = None \<and> s_expires_at s > d_now d
                then s\<lparr>s_revoked_at := Some (d_now d)\<rparr> else s"
  let ?a = "\<lambda>s. s_user_id s = v \<and> s_revoked_at s = None \<and> s_expires_at s > d_now d"
  have n: "d_now (cleanup_expired_sessions (revoke_user_sessions u d)) = d_now d"
    by (simp add: cleanup_expired_sessions_def revoke_user_sessions_def)
  have keep: "\<not> (s_expires_at (?m s) < d_now d \<and> s_revoked_at (?m s) = None) \<and> ?a (?m s) \<longleftrightarrow>
      v \<noteq> u \<and> ?a s" for s
    by (cases "s_user_id s = u"; cases "s_revoked_at s"; cases "d_now d < s_expires_at s"; cases "u = v")
       simp_all
  have tok: "s_token_hash (?m s) = s_token_hash s" for s by simp
  have "map s_token_hash (filter ?a (filter (\<lambda>s. \<not> (s_expires_at s < d_now d \<and> s_revoked_at s = None))
          (map ?m ss))) = (if v = u then [] else map s_token_hash (filter ?a ss))" for ss
    unfolding filter_map filter_filter map_map comp_def tok keep by (cases "v = u") simp_all
  then show ?thesis unfolding activeTokens_def rotate_sessions n .
qed

lemma rotate_tokens:
  assumes "t \<notin> s_token_hash ` set (d_sessions d)"
  shows "activeTokens v (rotateSession u t ver d) = (if v = u then [t] else activeTokens v d)"
proof -
  let ?d = "cleanup_expired_sessions (revoke_user_sessions u d)"
  have "s_token_hash ` set (d_sessions ?d) \<subseteq> s_token_hash ` set (d_sessions d)"
    unfolding rotate_sessions by auto
  then have "\<not> (\<exists>s \<in> set (d_sessions ?d). s_token_hash s = t)" using assms by auto
  then have "activeTokens v (rotateSession u t ver d) = activeTokens v ?d @ (if v = u then [t] else [])"
    by (simp add: rotateSession_def create_user_session_def activeTokens_def Let_def)
  then show ?thesis by (simp add: activeTokens_cleaned)
qed

definition loginsUnique :: "sql_env \<Rightarrow> dbase \<Rightarrow> bool" where
  "loginsUnique Q d \<longleftrightarrow> distinct (map (\<lambda>u. sql_lower Q (u_login u)) (d_users d))"

text \<open>
  The contract of a registration: exactly one user is added, under a login free up to case, with no
  failed attempts; it has one active session, everybody else's are untouched, and so are the characters.
\<close>

definition accountAdded ::
  "sql_env \<Rightarrow> string \<Rightarrow> string \<Rightarrow> int \<Rightarrow> string \<Rightarrow> dbase \<Rightarrow> dbase \<Rightarrow> bool" where
  "accountAdded Q login hash u token d d' \<longleftrightarrow>
     check_login_available Q login d = [] \<and> d_characters d' = d_characters d \<and>
     (\<exists>x. d_users d' = d_users d @ [x] \<and> u_id x = u \<and> u_login x = login \<and> u_password x = hash \<and>
          u_is_active x \<and> u_locked_until x = None \<and> u_failed_login_attempts x = 0) \<and>
     sq_users (d_seq d) \<le> u \<and>
     (token \<notin> s_token_hash ` set (d_sessions d) \<longrightarrow> activeTokens u d' = [token]) \<and>
     (\<forall>v. v \<noteq> u \<longrightarrow> token \<notin> s_token_hash ` set (d_sessions d) \<longrightarrow>
        set (activeTokens v d') \<subseteq> set (activeTokens v d))"

lemma activeTokens_later: "d_now d \<le> t \<Longrightarrow> set (activeTokens v (d\<lparr>d_now := t, d_seq := q\<rparr>)) \<subseteq> set (activeTokens v d)"
  by (auto simp: activeTokens_def)

lemma accountAdded_register:
  assumes free: "check_login_available Q login d = []" and s: "snapshotOf d e"
  shows "accountAdded Q login hash (sq_users (d_seq e)) token d
     (rotateSession (sq_users (d_seq e)) token ver (snd (register_user login hash email ip ver e)))"
proof -
  obtain t q where e: "e = d\<lparr>d_now := t, d_seq := q\<rparr>" "d_now d \<le> t" "seq_le (d_seq d) q"
    using s by (rule snapshotE)
  let ?e = "snd (register_user login hash email ip ver e)"
  have act: "activeTokens v ?e = activeTokens v e" for v
    by (simp add: register_user_def activeTokens_def Let_def)
  have same: "d_sessions ?e = d_sessions d" by (simp add: register_user_def e Let_def)
  show ?thesis
    using free e activeTokens_later [OF e(2), of _ q] rotate_tokens [of token ?e] act same
    unfolding accountAdded_def rotate_frame
    by (simp add: register_user_def Let_def seq_le_def)
qed

lemma accountAdded_unique:
  assumes "accountAdded Q login hash u t d d'" and "loginsUnique Q d"
  shows "loginsUnique Q d'"
proof -
  obtain x where x: "d_users d' = d_users d @ [x]" "u_login x = login"
    using assms(1) by (auto simp: accountAdded_def)
  have "\<forall>y \<in> set (d_users d). sql_lower Q (u_login y) \<noteq> sql_lower Q login"
    using assms(1) by (simp add: accountAdded_def check_login_available_def filter_empty_conv)
  then show ?thesis using assms(2) x by (auto simp: loginsUnique_def)
qed

lemma check_snapshot: "snapshotOf d e \<Longrightarrow> check_login_available Q login e = check_login_available Q login d"
  by (auto simp: snapshotOf_def check_login_available_def)

section \<open>Properties\<close>

definition registerPost ::
  "('w, 'c) senv \<Rightarrow> sql_env \<Rightarrow> ('w \<Rightarrow> dbase) \<Rightarrow> string \<Rightarrow> string \<Rightarrow> string \<Rightarrow> int \<Rightarrow> string
     \<Rightarrow> ('w, 'c) world \<Rightarrow> registration \<Rightarrow> ('w, 'c) world \<Rightarrow> bool" where
  "registerPost E Q db login pw ver u0 h0 s = (\<lambda>(res, u, h) s'.
     if res = REG_OK then
       (\<exists>k hash. hashPassword (se_evp E) k pw = Inr hash \<and>
          accountAdded Q login hash u h (db (w_out s)) (db (w_out s'))) \<and>
       (\<exists>now. w_sessions s' = storeClientData now
          (newClient\<lparr>cd_clientId := u, cd_login := login, cd_hash := h, cd_clientVersion := ver\<rparr>)
          (w_sessions s))
     else u = u0 \<and> h = h0 \<and> w_sessions s' = w_sessions s \<and>
       (db (w_out s') = db (w_out s) \<or>
        res = REG_ERR_DB \<and> (\<exists>hash u h. accountAdded Q login hash u h (db (w_out s)) (db (w_out s')))))"

context server
begin

lemma createAccount_wp:
  assumes r0: "ready txn n held s" and free: "check_login_available Q login (dbW s) = []"
  shows "wp (createAccount E c login hash email ip ver u0 h0)
    (\<lambda>r s'. ready txn n held s' \<and>
       (case r of
          Inl e \<Rightarrow> w_sessions s' = w_sessions s \<and>
            (dbW s' = dbW s \<or> (\<exists>u h. accountAdded Q login hash u h (dbW s) (dbW s')))
        | Inr (res, u, h) \<Rightarrow>
            if res = REG_OK then accountAdded Q login hash u h (dbW s) (dbW s') \<and>
              (\<exists>now. w_sessions s' = storeClientData now
                (newClient\<lparr>cd_clientId := u, cd_login := login, cd_hash := h, cd_clientVersion := ver\<rparr>)
                (w_sessions s))
            else res = REG_ERR_DB \<and> u = u0 \<and> h = h0 \<and> w_sessions s' = w_sessions s \<and>
              dbW s' = dbW s)) s"
proof -
  have t0: "txn (w_out s) = Map.empty" using r0 by (simp add: ready_def)
  have added: "accountAdded Q login hash (sq_users (d_seq d)) t (dbW s)
      (create_user_session (sq_users (d_seq d)) t ver (cleanup_expired_sessions
        (revoke_user_sessions (sq_users (d_seq d)) (snd (register_user login hash email ip ver d)))))"
    if "snapshotOf (dbW s) d" for d t
    using accountAdded_register [OF free that] by (simp add: rotateSession_def)
  have fst_reg: "fst (register_user login hash email ip ver d) = [[(''id'', CInt (sq_users (d_seq d)))]]" for d
    by (simp add: register_user_def Let_def)
  show ?thesis
    unfolding createAccount_def storeSession_def
    using r0 t0
    apply (auto simp: wp_simps ready_def fst_reg col_defs added intro!: db_rules)
     apply (rule exI, rule refl)
    apply (blast dest: added)
    done
qed

lemma register_wp:
  assumes r0: "ready txn n held s"
  shows "wp (registerAccount E c login pw email ip ver u0 h0)
    (\<lambda>r s'. case r of Inl e \<Rightarrow> False
       | Inr x \<Rightarrow> ready txn n held s' \<and> registerPost E Q db login pw ver u0 h0 s x s' \<and>
           (fst x \<in> {REG_OK, ERR_LOGIN_TAKEN, REG_ERR_DB} \<longleftrightarrow> validateRegistration login pw email = REG_OK)) s"
proof (cases "validateRegistration login pw email = REG_OK")
  case False
  then show ?thesis using r0
    by (cases "validateRegistration login pw email")
       (simp_all add: registerAccount_def wp_simps Let_def registerPost_def,
        simp_all add: validateRegistration_def split: if_splits)
next
  case True
  have t0: "txn (w_out s) = Map.empty" using r0 by (simp add: ready_def)
  have create: "wp (createAccount E c login hash email ip' ver u0 h0)
      (\<lambda>r t. case r of
          Inl e \<Rightarrow> ready txn n held t \<and> registerPost E Q db login pw ver u0 h0 s (REG_ERR_DB, u0, h0) t
        | Inr x \<Rightarrow> ready txn n held t \<and> registerPost E Q db login pw ver u0 h0 s x t \<and>
            fst x \<in> {REG_OK, REG_ERR_DB}) s1"
    if "ready txn n held s1" "w_sessions s1 = w_sessions s" "dbW s1 = dbW s"
      "check_login_available Q login (dbW s) = []" "hashPassword (se_evp E) k pw = Inr hash"
    for s1 k hash ip'
    by (rule wp_mono [OF createAccount_wp [OF that(1)]])
       (use that in \<open>auto simp: registerPost_def split: sum.splits if_splits\<close>)
  show ?thesis
    unfolding registerAccount_def hashPasswordW_def
    using r0 t0 True
    by (auto simp: wp_simps Let_def ready_def check_snapshot registerPost_def
        intro!: db_rules wp_mono [OF create] split: sum.split)
qed

end

lemmas rel_eval = rel_defs faulty_False relServer_def relWorld_def withWork_def exec_prepared_def commitT_def
  abortT_def onOut_def onNet_def tickW_def tick_def scopeExit_def tryCatch_def onSessions_def

text \<open>C4: a registration ends in a value on every path, with the connection idle. On success exactly one
  account was added, under a login free up to case, with the hash of the password and one active
  session, nothing of anybody else's changed, and the session is in memory. On failure the out
  parameters and the sessions are unchanged, and so is the database, unless the answer to the commit
  itself was lost. Logins stay unique up to case.\<close>

theorem register_atomic:
  assumes "server E Q db txn" and "ready txn n held s"
    and "registerAccount E c login pw email ip ver u0 h0 s = (r, s')"
  shows "\<exists>res u h. r = Inr (res, u, h) \<and> ready txn n held s' \<and>
     registerPost E Q db login pw ver u0 h0 s (res, u, h) s' \<and>
     (loginsUnique Q (db (w_out s)) \<longrightarrow> loginsUnique Q (db (w_out s')))"
proof -
  have p: "case r of Inl e \<Rightarrow> False
      | Inr x \<Rightarrow> ready txn n held s' \<and> registerPost E Q db login pw ver u0 h0 s x s'"
    using wpD [OF server.register_wp [OF assms(1,2)] assms(3)] by (auto split: sum.splits)
  then obtain res u h where x: "r = Inr (res, u, h)" "ready txn n held s'"
    "registerPost E Q db login pw ver u0 h0 s (res, u, h) s'"
    by (cases r) auto
  then show ?thesis
    by (auto simp: registerPost_def dest: accountAdded_unique split: if_splits)
qed

theorem register_atomic_witness:
  "\<exists>s'. registerAccount (relServer False) 0 ''anna'' ''password'' [] [] ''1.0.0'' 0 [] (relWorld noTables [])
       = (Inr (REG_OK, 1, ''1''), s') \<and>
     registerPost (relServer False) demoSql rl_db ''anna'' ''password'' ''1.0.0'' 0 []
       (relWorld noTables []) (REG_OK, 1, ''1'') s'"
proof -
  let ?m = "registerAccount (relServer False) 0 ''anna'' ''password'' [] [] ''1.0.0'' 0 [] (relWorld noTables [])"
  obtain r s' where m: "?m = (r, s')" by fastforce
  have "char_of (49 :: nat) = CHR ''1''" by code_simp
  then have "fst ?m = Inr (REG_OK, 1, ''1'')"
    by (simp add: rel_eval registerAccount_def createAccount_def validateRegistration_def loginRegex_def
        alnumClass_def inClass_def hashPasswordW_def hashPassword_def storeSession_def relEvp_def
        check_login_available_def register_user_def noTables_def newServices_def col_defs
        show_nat.simps digit_char_def in_int_def INT_MIN_def INT_MAX_def)
  then have r: "r = Inr (REG_OK, 1, ''1'')" by (simp add: m)
  show ?thesis
    using register_atomic [OF rel_server.server_axioms relWorld_ready m] m r by auto
qed

text \<open>
  Two requests for the same free login, each checking before the other inserts: both answers to the
  check are empty and both insertions succeed, and two accounts have the login.
\<close>

lemma racing_registrations:
  fixes c1 c2 :: nat
  defines "check \<equiv> (\<lambda>c. withWork (relServer False) c
      (andThen (exec_prepared (relServer False) c (CheckLoginAvailable ''anna'')) (\<lambda>r.
         andThen (abortT (relServer False) c) (\<lambda>_. ret (r \<noteq> [])))))"
    and "insert_row \<equiv> (\<lambda>c h. createAccount (relServer False) c ''anna'' h [] ''127.0.0.1'' [] 0 [])"
  defines "race \<equiv> andThen (check c1) (\<lambda>taken1. andThen (check c2) (\<lambda>taken2.
      andThen (insert_row c1 ''61'') (\<lambda>r1. andThen (insert_row c2 ''62'') (\<lambda>r2. ret (taken1, taken2, fst r1, fst r2)))))"
  shows "fst (race (relWorld noTables [])) = Inr (False, False, REG_OK, REG_OK)"
    and "map u_login (d_users (rl_db (w_out (snd (race (relWorld noTables [])))))) = [''anna'', ''anna'']"
  unfolding race_def check_def insert_row_def
  by (simp_all add: rel_eval createAccount_def storeSession_def check_login_available_def register_user_def
      revoke_user_sessions_def cleanup_expired_sessions_def create_user_session_def
      noTables_def newServices_def col_defs in_int_def INT_MIN_def INT_MAX_def)

text \<open>Whatever the digest calls do, two passwords hash to the same text exactly when their digests are
  equal, and the text is two lower-case hexadecimal digits for each byte of the digest.\<close>

lemma hashes_compare_digests:
  assumes "hashPassword evp k p = Inr h" and "hashPassword evp m q = Inr h'"
  shows "(h = h' \<longleftrightarrow> evp_sha256 evp p = evp_sha256 evp q) \<and>
     length h = 2 * length (evp_sha256 evp p) \<and> set h \<subseteq> set ''0123456789abcdef''"
proof -
  have h: "h = concat (map hexByte (evp_sha256 evp p))" "h' = concat (map hexByte (evp_sha256 evp q))"
    using assms by (auto simp: hashPassword_def split: if_splits)
  have len: "length (concat (map hexByte bs)) = 2 * length bs" for bs
    by (induction bs) (auto simp: hexByte_def)
  have "set (map hexDigit [0..<16]) = set ''0123456789abcdef''" by code_simp
  then have dig: "hexDigit d \<in> set ''0123456789abcdef''" if "d < 16" for d
    using that by (metis atLeast_upt image_eqI lessThan_iff set_map)
  have "unat (b :: 8 word) div 16 < 16" for b
    using unsigned_less [of b, where 'a = nat] by (simp add: less_mult_imp_div_less)
  then have "set (concat (map hexByte bs)) \<subseteq> set ''0123456789abcdef''" for bs
    using dig by (induction bs) (auto simp: hexByte_def)
  then show ?thesis using h len hexBytes_inject by metis
qed

lemma hashes_compare_digests_witness:
  "hashPassword relEvp 0 ''ab'' = Inr ''6162'' \<and> hashPassword relEvp 1 ''ac'' = Inr ''6163'' \<and>
   set ''6162'' \<subseteq> set ''0123456789abcdef''"
proof -
  have e: "hashPassword relEvp 0 ''ab'' = Inr ''6162'' \<and> hashPassword relEvp 1 ''ac'' = Inr ''6163''"
    by code_simp
  then show ?thesis using hashes_compare_digests [of relEvp 0 "''ab''" "''6162''" 1 "''ac''" "''6163''"] by auto
qed

end
