(* ===== verification/Authentication.thy ===== *)
theory Authentication
  imports Accounts
begin

text \<open>
  \<open>Authenticator::authenticate\<close> (\<open>src/services/Authenticator.cpp\<close>): the password check with the failure
  counter, the ban check and the creation of the session, in up to three transactions on one
  connection. A transaction object lives to the end of its C++ scope, also after it has committed.
\<close>

section \<open>Outcome\<close>

datatype AuthStatus = AUTH_OK | INVALID_CREDENTIALS | LOCKED | DB_ERROR | BANNED

record AuthOutcome =
  ao_status :: AuthStatus
  ao_userId :: int
  ao_banReason :: string
  ao_banExpiresAt :: string

definition outcome :: "AuthStatus \<Rightarrow> int \<Rightarrow> AuthOutcome" where
  "outcome status userId =
     \<lparr>ao_status = status, ao_userId = userId, ao_banReason = [], ao_banExpiresAt = []\<rparr>"

section \<open>The three stages\<close>

text \<open>
  The probe that is to tell a locked account from an unknown one. It opens its transaction while the
  caller's is still open. What it found survives an exception of the final \<open>abort\<close>.
\<close>

definition probeStatus :: "('w, 'c) senv \<Rightarrow> 'c \<Rightarrow> string \<Rightarrow> (('w, 'c) world, AuthStatus) eff" where
  "probeStatus E c login =
     tryCatch
       (withWork E c
         (andThen (exec_prepared E c (ProbeUserStatus login)) (\<lambda>rows.
          andThen
            (if rows = [] then ret INVALID_CREDENTIALS
             else andThen (lift_res (colBool ''is_active'' (hd rows))) (\<lambda>active.
                  andThen (lift_res (colOf ''locked_until'' (hd rows))) (\<lambda>until.
                    ret (if \<not> active \<or> until \<noteq> CNull then LOCKED else INVALID_CREDENTIALS)))) (\<lambda>status.
          andThen (tryCatch (abortT E c) (\<lambda>e. ret ())) (\<lambda>_. ret status)))))
       (\<lambda>e. ret INVALID_CREDENTIALS)"

definition checkBan :: "('w, 'c) senv \<Rightarrow> 'c \<Rightarrow> int \<Rightarrow> (('w, 'c) world, AuthOutcome option) eff" where
  "checkBan E c userID =
     withWork E c
       (andThen (exec_prepared E c (CheckActiveBan userID)) (\<lambda>rows.
        andThen (abortT E c) (\<lambda>_.
          if rows = [] then ret None
          else andThen (lift_res (colText ''reason'' (hd rows))) (\<lambda>reason.
               andThen (lift_res (colText ''expires_at'' (hd rows))) (\<lambda>expires.
                 ret (Some ((outcome BANNED 0)\<lparr>ao_banReason := reason, ao_banExpiresAt := expires\<rparr>)))))))"

definition openSession ::
  "('w, 'c) senv \<Rightarrow> 'c \<Rightarrow> int \<Rightarrow> string \<Rightarrow> int \<Rightarrow> string \<Rightarrow> (('w, 'c) world, AuthOutcome) eff" where
  "openSession E c userID login role clientVersion =
     andThen (tickW (se_uuid E)) (\<lambda>uniqueHash.
       withWork E c
         (andThen (exec_prepared E c (RevokeUserSessions userID)) (\<lambda>_.
          andThen (exec_prepared E c CleanupExpiredSessions) (\<lambda>_.
          andThen (exec_prepared E c (CreateUserSession userID uniqueHash clientVersion)) (\<lambda>_.
          andThen (commitT E c) (\<lambda>_.
          andThen (storeSession E
            (newClient\<lparr>cd_clientId := userID, cd_login := login, cd_hash := uniqueHash,
                       cd_role := role, cd_clientVersion := clientVersion\<rparr>)) (\<lambda>_.
            ret (outcome AUTH_OK userID))))))))"

text \<open>With the right password: the ban, then the session.\<close>

definition admitUser ::
  "('w, 'c) senv \<Rightarrow> 'c \<Rightarrow> int \<Rightarrow> string \<Rightarrow> int \<Rightarrow> string \<Rightarrow> (('w, 'c) world, AuthOutcome) eff" where
  "admitUser E c userID login role clientVersion =
     andThen (checkBan E c userID) (\<lambda>ban.
       case ban of
         Some b \<Rightarrow> ret b
       | None \<Rightarrow> openSession E c userID login role clientVersion)"

text \<open>After the row was found: the password and the counters.\<close>

definition checkUser ::
  "('w, 'c) senv \<Rightarrow> 'c \<Rightarrow> string \<Rightarrow> string \<Rightarrow> string \<Rightarrow> string \<Rightarrow> row \<Rightarrow> (('w, 'c) world, AuthOutcome) eff" where
  "checkUser E c login password clientIp clientVersion row =
     andThen (lift_res (colInt ''id'' row)) (\<lambda>userID.
     andThen (lift_res (colText ''password'' row)) (\<lambda>storedPassword.
     andThen (lift_res (colOr 0 asInt ''role'' row)) (\<lambda>role.
     andThen (hashPasswordW E password) (\<lambda>hashedInput.
       if storedPassword \<noteq> hashedInput then
         andThen (exec_prepared E c (IncrementFailedLogins login)) (\<lambda>_.
         andThen (commitT E c) (\<lambda>_. ret (outcome INVALID_CREDENTIALS 0)))
       else
         let ipStr = (if clientIp = [] then ''127.0.0.1'' else clientIp) in
         andThen (exec_prepared E c (ResetFailedLogins userID ipStr clientVersion)) (\<lambda>_.
         andThen (commitT E c) (\<lambda>_.
           admitUser E c userID login role clientVersion))))))"

definition authenticate ::
  "('w, 'c) senv \<Rightarrow> 'c \<Rightarrow> string \<Rightarrow> string \<Rightarrow> string \<Rightarrow> string \<Rightarrow> (('w, 'c) world, AuthOutcome) eff" where
  "authenticate E c login password clientIp clientVersion =
     tryCatch
       (withWork E c
         (andThen (exec_prepared E c (SearchUser login)) (\<lambda>rows.
            if rows = [] then
              andThen (probeStatus E c login) (\<lambda>status.
              andThen (abortT E c) (\<lambda>_. ret (outcome status 0)))
            else checkUser E c login password clientIp clientVersion (hd rows))))
       (\<lambda>e. ret (outcome DB_ERROR 0))"

lemma conserves_authenticate [simp]:
  "conserves freeW (authenticate E c login pw ip ver)"
  unfolding authenticate_def checkUser_def admitUser_def openSession_def checkBan_def probeStatus_def
    hashPasswordW_def storeSession_def
  by (auto simp: Let_def intro!: conserves_intros split: option.split)

section \<open>What a login does to the tables\<close>

definition mayLogin :: "user_row \<Rightarrow> string \<Rightarrow> dbase \<Rightarrow> bool" where
  "mayLogin u login d \<longleftrightarrow> u \<in> set (d_users d) \<and> u_login u = login \<and> u_is_active u \<and>
     (case u_locked_until u of None \<Rightarrow> True | Some t \<Rightarrow> t < d_now d)"

definition userRow :: "user_row \<Rightarrow> row" where
  "userRow u = [(''id'', CInt (u_id u)), (''login'', CText (u_login u)),
     (''password'', CText (u_password u)), (''role'', CInt (u_role u)),
     (''is_active'', CBool (u_is_active u)), (''locked_until'', timeCell (u_locked_until u)),
     (''failed_login_attempts'', CInt (u_failed_login_attempts u))]"

lemma search_user_found: "search_user login d \<noteq> [] \<Longrightarrow> \<exists>u. mayLogin u login d \<and> search_user login d = [userRow u]"
proof -
  let ?us = "filter (\<lambda>u. u_login u = login \<and> u_is_active u \<and>
           (case u_locked_until u of None \<Rightarrow> True | Some t \<Rightarrow> t < d_now d)) (d_users d)"
  assume "search_user login d \<noteq> []"
  moreover have s: "search_user login d = take 1 (map userRow ?us)"
    unfolding search_user_def userRow_def [abs_def] ..
  ultimately obtain u us where us: "?us = u # us" by (cases ?us) auto
  then have "u \<in> set ?us" by simp
  then have "mayLogin u login d" by (simp add: mayLogin_def)
  then show ?thesis using s us by auto
qed

lemma search_user_none: "search_user login d = [] \<longleftrightarrow> (\<nexists>u. mayLogin u login d)"
  by (auto simp: search_user_def mayLogin_def filter_empty_conv)

lemma userRow_cols:
  "colInt ''id'' (userRow u) = (if in_int (u_id u) then Inr (u_id u) else Inl (SqlFailure ''conversion to int''))"
  "colText ''password'' (userRow u) = Inr (u_password u)"
  "colOr 0 asInt ''role'' (userRow u) = (if in_int (u_role u) then Inr (u_role u) else Inl (SqlFailure ''conversion to int''))"
  by (simp_all add: userRow_def col_defs)

definition banned :: "int \<Rightarrow> dbase \<Rightarrow> bool" where
  "banned u d \<longleftrightarrow> (\<exists>b \<in> set (d_bans d). b_user_id b = u \<and> b_is_active b \<and>
     (case b_expires_at b of None \<Rightarrow> True | Some t \<Rightarrow> t > d_now d))"

lemma check_ban_iff: "check_active_ban Q u d = [] \<longleftrightarrow> \<not> banned u d"
proof -
  have "sort_key f xs = [] \<longleftrightarrow> xs = []" for f :: "ban_row \<Rightarrow> int" and xs
    by (metis length_0_conv length_sort)
  then show ?thesis by (auto simp: check_active_ban_def banned_def filter_empty_conv)
qed

lemma check_ban_cols:
  assumes "check_active_ban Q u d \<noteq> []"
  shows "\<exists>x y. colText ''reason'' (hd (check_active_ban Q u d)) = Inr x \<and>
    colText ''expires_at'' (hd (check_active_ban Q u d)) = Inr y"
  using assms by (auto simp: check_active_ban_def col_defs hd_map take_Suc split: if_splits)

text \<open>
  A login of user \<open>uid\<close>: nobody's password changes, the user's failures are forgotten, its active
  sessions are replaced by the new one, nobody else gains a session.
\<close>

definition sessionOpened :: "int \<Rightarrow> string \<Rightarrow> dbase \<Rightarrow> dbase \<Rightarrow> bool" where
  "sessionOpened uid token d d' \<longleftrightarrow>
     d_characters d' = d_characters d \<and>
     map (\<lambda>u. (u_id u, u_login u, u_password u)) (d_users d') =
       map (\<lambda>u. (u_id u, u_login u, u_password u)) (d_users d) \<and>
     (\<forall>u \<in> set (d_users d'). u_id u = uid \<longrightarrow> u_failed_login_attempts u = 0 \<and> u_locked_until u = None) \<and>
     (token \<notin> s_token_hash ` set (d_sessions d) \<longrightarrow>
        activeTokens uid d' = [token] \<and>
        (\<forall>v. v \<noteq> uid \<longrightarrow> set (activeTokens v d') \<subseteq> set (activeTokens v d)))"

lemma sessionOpened_rotate:
  assumes e: "snapshotOf d e" and f: "snapshotOf (reset_failed_logins uid ip ver e) f"
  shows "sessionOpened uid token d (rotateSession uid token ver' f)"
proof -
  obtain t q where e': "e = d\<lparr>d_now := t, d_seq := q\<rparr>" "d_now d \<le> t" using e by (rule snapshotE)
  obtain t' q' where f': "f = (reset_failed_logins uid ip ver e)\<lparr>d_now := t', d_seq := q'\<rparr>"
    "d_now (reset_failed_logins uid ip ver e) \<le> t'" using f by (rule snapshotE)
  have ss: "d_sessions f = d_sessions d" and t': "d_now d \<le> t'"
    using e' f' by (simp_all add: reset_failed_logins_def)
  have "activeTokens v f = activeTokens v (d\<lparr>d_now := t', d_seq := q'\<rparr>)" for v
    using ss f' by (simp add: activeTokens_def)
  then have act: "set (activeTokens v f) \<subseteq> set (activeTokens v d)" for v
    using activeTokens_later [OF t', of v q'] by simp
  have rot: "token \<notin> s_token_hash ` set (d_sessions d) \<Longrightarrow>
      activeTokens v (rotateSession uid token ver' f) = (if v = uid then [token] else activeTokens v f)" for v
    by (rule rotate_tokens) (simp add: ss)
  define g where "g = (\<lambda>u :: user_row. if u_id u = uid then u\<lparr>u_failed_login_attempts := 0,
      u_locked_until := None, u_last_login := d_now e, u_last_login_ip := Some ip,
      u_client_version := Some ver\<rparr> else u)"
  have users: "d_users f = map g (d_users d)"
    using e' f' by (simp add: reset_failed_logins_def g_def)
  have g: "u_id (g u) = u_id u" "u_login (g u) = u_login u" "u_password (g u) = u_password u"
    "u_id u = uid \<Longrightarrow> u_failed_login_attempts (g u) = 0"
    "u_id u = uid \<Longrightarrow> u_locked_until (g u) = None" for u
    by (cases "u_id u = uid"; simp add: g_def)+
  have "map (\<lambda>u. (u_id u, u_login u, u_password u)) (d_users f) =
      map (\<lambda>u. (u_id u, u_login u, u_password u)) (d_users d)"
    by (simp add: users g)
  moreover have "\<forall>u \<in> set (d_users f). u_id u = uid \<longrightarrow> u_failed_login_attempts u = 0 \<and> u_locked_until u = None"
    by (simp add: users g)
  moreover have "d_characters f = d_characters d" using e' f' by (simp add: reset_failed_logins_def)
  ultimately show ?thesis
    unfolding sessionOpened_def rotate_frame using rot act by simp
qed

section \<open>Every outcome\<close>

definition rightPassword :: "evp_lib \<Rightarrow> string \<Rightarrow> user_row \<Rightarrow> bool" where
  "rightPassword evp pw u \<longleftrightarrow> (\<exists>k. hashPassword evp k pw = Inr (u_password u))"

definition authPost ::
  "('w, 'c) senv \<Rightarrow> ('w \<Rightarrow> dbase) \<Rightarrow> string \<Rightarrow> string \<Rightarrow> string \<Rightarrow> ('w, 'c) world \<Rightarrow> AuthOutcome
     \<Rightarrow> ('w, 'c) world \<Rightarrow> bool" where
  "authPost E db login pw ver s o' s' =
     (let d = db (w_out s); d' = db (w_out s') in
      case ao_status o' of
        AUTH_OK \<Rightarrow>
          \<exists>u e b j role now. snapshotOf d e \<and> mayLogin u login e \<and> rightPassword (se_evp E) pw u \<and>
            ao_userId o' = u_id u \<and> d_bans b = d_bans d \<and> d_now d \<le> d_now b \<and> \<not> banned (u_id u) b \<and>
            sessionOpened (u_id u) (se_uuid E j) d d' \<and>
            w_sessions s' = storeClientData now
              (newClient\<lparr>cd_clientId := u_id u, cd_login := login, cd_hash := se_uuid E j, cd_role := role,
                         cd_clientVersion := ver\<rparr>) (w_sessions s)
      | BANNED \<Rightarrow>
          \<exists>u e b. snapshotOf d e \<and> mayLogin u login e \<and> rightPassword (se_evp E) pw u \<and>
            ao_userId o' = 0 \<and> d_bans b = d_bans d \<and> d_now d \<le> d_now b \<and> banned (u_id u) b \<and>
            d_sessions d' = d_sessions d \<and> w_sessions s' = w_sessions s
      | INVALID_CREDENTIALS \<Rightarrow>
          ao_userId o' = 0 \<and> w_sessions s' = w_sessions s \<and>
          (\<exists>e. snapshotOf d e \<and>
             ((\<nexists>u. mayLogin u login e) \<and> d' = d \<or>
              (\<exists>u h k. mayLogin u login e \<and> hashPassword (se_evp E) k pw = Inr h \<and> h \<noteq> u_password u \<and>
                 d' = increment_failed_logins login e)))
      | DB_ERROR \<Rightarrow> ao_userId o' = 0 \<and> w_sessions s' = w_sessions s
      | LOCKED \<Rightarrow> False)"

context server
begin

lemma probe_wp: "opened c (w_out s) \<Longrightarrow> R (Inr INVALID_CREDENTIALS) s \<Longrightarrow> wp (probeStatus E c login) R s"
  unfolding probeStatus_def wp_tryCatch by (rule withWork_busy) (simp_all add: wp_simps)

lemma checkBan_wp:
  assumes t: "txn (w_out s) = Map.empty"
  shows "wp (checkBan E c uid)
    (\<lambda>r s'. s' = s\<lparr>w_out := w_out s'\<rparr> \<and> dbW s' = dbW s \<and> txn (w_out s') = Map.empty \<and>
       (case r of Inl e \<Rightarrow> True
        | Inr None \<Rightarrow> \<exists>e. snapshotOf (dbW s) e \<and> \<not> banned uid e
        | Inr (Some o') \<Rightarrow> ao_status o' = BANNED \<and> ao_userId o' = 0 \<and>
            (\<exists>e. snapshotOf (dbW s) e \<and> banned uid e))) s"
proof -
  have cols: "\<exists>x. colText k (hd (check_active_ban Q uid e)) = Inr x"
    if "banned uid e" "k = ''reason'' \<or> k = ''expires_at''" for e k
    using check_ban_cols [of Q uid e] that by (auto simp: check_ban_iff)
  show ?thesis
    unfolding checkBan_def using t
    by (auto simp: wp_simps check_ban_iff outcome_def intro!: db_rules split: sum.split dest: cols)
       blast+
qed

lemma openSession_wp:
  assumes t: "txn (w_out s) = Map.empty"
  shows "wp (openSession E c uid login role ver)
    (\<lambda>r s'. w_pool s' = w_pool s \<and> txn (w_out s') = Map.empty \<and>
       (case r of
          Inl e \<Rightarrow> w_sessions s' = w_sessions s
        | Inr o' \<Rightarrow> o' = outcome AUTH_OK uid \<and>
            (\<exists>e j now. snapshotOf (dbW s) e \<and> dbW s' = rotateSession uid (se_uuid E j) ver e \<and>
               w_sessions s' = storeClientData now
                 (newClient\<lparr>cd_clientId := uid, cd_login := login, cd_hash := se_uuid E j, cd_role := role,
                            cd_clientVersion := ver\<rparr>) (w_sessions s)))) s"
  unfolding openSession_def storeSession_def rotateSession_def using t
  by (auto simp: wp_simps intro!: db_rules) blast

lemma admitUser_wp:
  assumes e: "snapshotOf (dbW s) e" and u: "mayLogin u login e" "rightPassword (se_evp E) pw u"
    and s1: "txn (w_out s1) = Map.empty" "w_sessions s1 = w_sessions s" "w_pool s1 = w_pool s"
      "dbW s1 = reset_failed_logins (u_id u) ip ver e"
  shows "wp (admitUser E c (u_id u) login role ver)
    (\<lambda>r s'. w_pool s' = w_pool s \<and> txn (w_out s') = Map.empty \<and>
       (case r of Inl x \<Rightarrow> w_sessions s' = w_sessions s
        | Inr o' \<Rightarrow> authPost E db login pw ver s o' s')) s1"
    (is "wp _ ?R s1")
proof -
  have now: "d_bans b = d_bans (dbW s) \<and> d_now (dbW s) \<le> d_now b" if "snapshotOf (dbW s1) b" for b
    using e that by (auto simp: snapshotOf_def reset_failed_logins_def s1(4))
  have sess: "d_sessions (dbW s1) = d_sessions (dbW s)"
    using e by (auto simp: snapshotOf_def reset_failed_logins_def s1(4))
  have opens: "?R r s'"
    if b: "snapshotOf (dbW s1) b" "\<not> banned (u_id u) b"
      and p: "w_pool s' = w_pool s1" "txn (w_out s') = Map.empty"
        "case r of Inl x \<Rightarrow> w_sessions s' = w_sessions s1
         | Inr o' \<Rightarrow> o' = outcome AUTH_OK (u_id u) \<and>
           (\<exists>f j now. snapshotOf (dbW s1) f \<and> dbW s' = rotateSession (u_id u) (se_uuid E j) ver f \<and>
               w_sessions s' = storeClientData now
                 (newClient\<lparr>cd_clientId := u_id u, cd_login := login, cd_hash := se_uuid E j, cd_role := role,
                            cd_clientVersion := ver\<rparr>) (w_sessions s1))"
    for r s' b
  proof (cases r)
    case (Inl x)
    then show ?thesis using p s1 by simp
  next
    case (Inr o')
    then obtain f j now where f: "o' = outcome AUTH_OK (u_id u)" "snapshotOf (dbW s1) f"
      "dbW s' = rotateSession (u_id u) (se_uuid E j) ver f"
      "w_sessions s' = storeClientData now (newClient\<lparr>cd_clientId := u_id u, cd_login := login,
         cd_hash := se_uuid E j, cd_role := role, cd_clientVersion := ver\<rparr>) (w_sessions s)"
      using p(3) s1(2) by auto
    have "sessionOpened (u_id u) (se_uuid E j) (dbW s) (dbW s')"
      using sessionOpened_rotate [OF e, of "u_id u" ip ver f "se_uuid E j" ver] f s1(4) by simp
    then have "authPost E db login pw ver s o' s'"
      using f e u b now [OF b(1)] unfolding authPost_def Let_def by (simp add: outcome_def) blast
    then show ?thesis using Inr p s1 by simp
  qed
  show ?thesis
    unfolding admitUser_def wp_andThen
  proof (rule wp_mono [OF checkBan_wp [OF s1(1)]], goal_cases)
    case (1 r s2)
    then have s2: "w_sessions s2 = w_sessions s" "w_pool s2 = w_pool s" "dbW s2 = dbW s1"
      "txn (w_out s2) = Map.empty"
      using s1 by (metis world.select_convs(1,2) world.surjective world.update_convs(3))+
    show ?case
    proof (cases r)
      case (Inl x)
      then show ?thesis using s2 by simp
    next
      case (Inr ban)
      show ?thesis
      proof (cases ban)
        case None
        then obtain b where "snapshotOf (dbW s1) b" "\<not> banned (u_id u) b" using 1 Inr by auto
        then show ?thesis
          unfolding Inr None sum.case option.case
          by (rule_tac wp_mono [OF openSession_wp [OF s2(4)]], rule_tac opens)
             (auto simp: s2 s1 split: sum.splits)
      next
        case (Some o')
        then obtain b where b: "snapshotOf (dbW s1) b" "banned (u_id u) b" "ao_status o' = BANNED"
          "ao_userId o' = 0" using 1 Inr by auto
        have "authPost E db login pw ver s o' s2"
          using b s2 e u now [OF b(1)] sess unfolding authPost_def Let_def by simp blast
        then show ?thesis using Inr Some s2 by (simp add: wp_simps)
      qed
    qed
  qed
qed

lemma checkUser_wp:
  assumes t: "txn (w_out s1) = [c \<mapsto> e]" and e: "snapshotOf (dbW s) e" and u: "mayLogin u login e"
    and s1: "w_sessions s1 = w_sessions s" "w_pool s1 = w_pool s" "dbW s1 = dbW s"
  shows "wp (checkUser E c login pw ip ver (userRow u))
    (\<lambda>r s'. w_pool s' = w_pool s \<and> closable c (w_out s') \<and>
       (case r of Inl x \<Rightarrow> w_sessions s' = w_sessions s
        | Inr o' \<Rightarrow> authPost E db login pw ver s o' s')) s1"
proof -
  have admit: "wp (admitUser E c (u_id u) login role ver)
      (\<lambda>r s'. w_pool s' = w_pool s \<and> closable c (w_out s') \<and>
       (case r of Inl x \<Rightarrow> w_sessions s' = w_sessions s
        | Inr o' \<Rightarrow> authPost E db login pw ver s o' s')) s2"
    if "txn (w_out s2) = Map.empty" "w_sessions s2 = w_sessions s" "w_pool s2 = w_pool s"
      "dbW s2 = reset_failed_logins (u_id u) ip' ver e" "hashPassword (se_evp E) k pw = Inr (u_password u)"
    for s2 ip' role k
    by (rule wp_mono [OF admitUser_wp [OF e u _ that(1-4)]]) (use that(5) in \<open>auto simp: rightPassword_def\<close>)
  have wrong: "authPost E db login pw ver s (outcome INVALID_CREDENTIALS 0) s'"
    if "w_sessions s' = w_sessions s" "dbW s' = increment_failed_logins login e"
      "hashPassword (se_evp E) k pw = Inr h" "h \<noteq> u_password u" for s' k h
    unfolding authPost_def Let_def using that e u by (simp add: outcome_def) blast
  show ?thesis
    unfolding checkUser_def hashPasswordW_def using t s1
    by (auto simp: wp_simps userRow_cols Let_def
        intro!: exec_prepared_wp commitT_wp wp_mono [OF admit] wrong split: sum.split)
qed

lemma authenticate_wp:
  assumes r: "ready txn n held s"
  shows "wp (authenticate E c login pw ip ver)
    (\<lambda>r s'. ready txn n held s' \<and> (\<exists>o'. r = Inr o' \<and> authPost E db login pw ver s o' s')) s"
proof -
  have t: "txn (w_out s) = Map.empty" and p: "pool_ok n (w_pool s) held" using r by (simp_all add: ready_def)
  have dbe: "authPost E db login pw ver s (outcome DB_ERROR 0) s'" if "w_sessions s' = w_sessions s" for s'
    using that by (simp add: authPost_def outcome_def Let_def)
  have none: "authPost E db login pw ver s (outcome INVALID_CREDENTIALS 0) s'"
    if "w_sessions s' = w_sessions s" "dbW s' = dbW s" "snapshotOf (dbW s) e" "search_user login e = []" for s' e
    unfolding authPost_def Let_def using that by (auto simp: outcome_def search_user_none)
  have post: "authPost E db login pw ver s o' (s'\<lparr>w_out := w\<rparr>) = authPost E db login pw ver s o' s'"
    if "db w = dbW s'" for o' s' w
    by (cases "ao_status o'") (simp_all add: authPost_def that)
  have check: "wp (checkUser E c login pw ip ver (hd (search_user login e))) R s1"
    if h: "txn (w_out s1) = [c \<mapsto> e]" "snapshotOf (dbW s) e" "search_user login e \<noteq> []"
      "w_sessions s1 = w_sessions s" "w_pool s1 = w_pool s" "dbW s1 = dbW s"
      "\<And>r s'. w_pool s' = w_pool s \<and> closable c (w_out s') \<and>
         (case r of Inl x \<Rightarrow> w_sessions s' = w_sessions s
          | Inr o' \<Rightarrow> authPost E db login pw ver s o' s') \<Longrightarrow> R r s'" for e s1 R
  proof -
    obtain u where "mayLogin u login e" "search_user login e = [userRow u]"
      using search_user_found [OF h(3)] by blast
    then show ?thesis using wp_mono [OF checkUser_wp [OF h(1,2) _ h(4-6)] h(7)] by simp
  qed
  show ?thesis
    unfolding authenticate_def using t p
    by (auto simp: wp_simps ready_def post intro!: db_rules probe_wp check dbe none split: sum.splits)
qed

end

context live_server
begin

text \<open>With a database that answers and numbers that fit, the outcome is never a database error.\<close>

lemma authenticate_live:
  assumes r: "ready txn n held s" and h: "\<And>k. \<exists>h. hashPassword (se_evp E) k pw = Inr h"
    and i: "\<And>u. u \<in> set (d_users (dbW s)) \<Longrightarrow> in_int (u_id u) \<and> in_int (u_role u)"
  shows "wp (authenticate E c login pw ip ver) (\<lambda>r s'. \<exists>o'. r = Inr o' \<and> ao_status o' \<noteq> DB_ERROR) s"
proof -
  have t: "txn (w_out s) = Map.empty" using r by (simp add: ready_def)
  have cols: "banned uid e \<Longrightarrow> colText ''reason'' (hd (check_active_ban Q uid e)) \<noteq> Inl x"
    "banned uid e \<Longrightarrow> colText ''expires_at'' (hd (check_active_ban Q uid e)) \<noteq> Inl x" for e uid x
    using check_ban_cols [of Q uid e] by (auto simp: check_ban_iff)
  have admit: "wp (admitUser E c uid login role ver) R s1"
    if "txn (w_out s1) = Map.empty"
      "\<And>o' s'. closable c (w_out s') \<Longrightarrow> ao_status o' \<noteq> DB_ERROR \<Longrightarrow> R (Inr o') s'" for s1 R uid role
    unfolding admitUser_def checkBan_def openSession_def storeSession_def using that(1)
    by (auto simp: wp_simps check_ban_iff outcome_def cols intro!: live_rules that(2) split: sum.split)
  have check: "wp (checkUser E c login pw ip ver (hd (search_user login e))) R s1"
    if h: "txn (w_out s1) = [c \<mapsto> e]" "snapshotOf (dbW s) e" "search_user login e \<noteq> []"
      and R: "\<And>o' s'. closable c (w_out s') \<Longrightarrow> ao_status o' \<noteq> DB_ERROR \<Longrightarrow> R (Inr o') s'" for s1 R e
  proof -
    obtain u where u: "mayLogin u login e" "search_user login e = [userRow u]"
      using search_user_found [OF h(3)] by blast
    then have "in_int (u_id u)" "in_int (u_role u)"
      using i h(2) by (auto simp: mayLogin_def snapshotOf_def)
    moreover obtain x where "hashPassword (se_evp E) (n_ticks (w_net s1)) pw = Inr x"
      using assms(2) by blast
    ultimately show ?thesis
      unfolding checkUser_def hashPasswordW_def u list.sel using h(1)
      by (auto simp: wp_simps userRow_cols outcome_def Let_def intro!: exec_prepared_live commitT_live admit R)
  qed
  show ?thesis
    unfolding authenticate_def using t
    by (auto simp: wp_simps outcome_def intro!: live_rules probe_wp check)
qed

end

section \<open>Properties\<close>

text \<open>C1: a login always ends in an outcome, with its connection idle. Only the right password of an
  active, unlocked, unbanned user gives \<open>OK\<close>, which then replaces all the user's active sessions by one
  and puts it in memory; a wrong one only counts a failure; a banned user gets no session; every other
  outcome leaves the sessions in memory as they were.\<close>

theorem login_outcomes:
  assumes "server E Q db txn" and "ready txn n held s"
    and "authenticate E c login pw ip ver s = (r, s')"
  shows "\<exists>o'. r = Inr o' \<and> ready txn n held s' \<and> authPost E db login pw ver s o' s'"
  using wpD [OF server.authenticate_wp [OF assms(1,2)] assms(3)] by auto

text \<open>Ann, with the password \<open>hunter22\<close> under the digest of \<open>relEvp\<close>.\<close>

definition annWorld :: "(rel, nat) world" where
  "annWorld = relWorld (noTables\<lparr>d_seq := (d_seq noTables)\<lparr>sq_users := 8\<rparr>, d_users :=
     [\<lparr>u_id = 7, u_login = ''ann'', u_password = ''6162'', u_email = None, u_role = 0, u_is_active = True,
       u_locked_until = None, u_failed_login_attempts = 0, u_last_login = 0, u_last_login_ip = None,
       u_registration_ip = None, u_client_version = None\<rparr>]\<rparr>) []"

lemmas auth_eval = rel_eval authenticate_def checkUser_def admitUser_def checkBan_def openSession_def
  probeStatus_def outcome_def search_user_def hashPasswordW_def hashPassword_def storeSession_def
  relEvp_def noTables_def newServices_def col_defs timeCell_def in_int_def INT_MIN_def INT_MAX_def
  check_active_ban_def hexByte_def hexDigit_def

lemma annWorld_ready: "ready relTxn 1 [] annWorld"
  unfolding annWorld_def by (rule relWorld_ready)

theorem login_outcomes_witness:
  "\<exists>s'. authenticate (relServer False) 0 ''ann'' ''ab'' [] ''1.0.0'' annWorld = (Inr (outcome AUTH_OK 7), s') \<and>
     authPost (relServer False) rl_db ''ann'' ''ab'' ''1.0.0'' annWorld (outcome AUTH_OK 7) s'"
proof -
  let ?m = "authenticate (relServer False) 0 ''ann'' ''ab'' [] ''1.0.0'' annWorld"
  obtain r s' where m: "?m = (r, s')" by fastforce
  have "char_of (54 :: nat) = CHR ''6''" "char_of (49 :: nat) = CHR ''1''" "char_of (50 :: nat) = CHR ''2''"
    by code_simp+
  then have "fst ?m = Inr (outcome AUTH_OK 7)"
    by (simp add: annWorld_def auth_eval reset_failed_logins_def)
  then have "r = Inr (outcome AUTH_OK 7)" by (simp add: m)
  then show ?thesis
    using login_outcomes [OF rel_server.server_axioms annWorld_ready m] m by auto
qed

text \<open>What the registry holds after a login: the new session, and the others as before.\<close>

lemma stored_login:
  fixes d :: ClientDataStruct and now :: int and m :: sessions
  assumes "cd_clientId d = i" "i \<noteq> 0" "cd_hash d \<noteq> []"
  defines "m' \<equiv> storeClientData now d m"
  shows "\<exists>e. getClientData i m' = Some e \<and> cd_login e = cd_login d \<and> cd_password e = [] \<and>
    validateSession i (cd_hash e) m' \<and> (\<forall>h. validateSession i h m' \<longrightarrow> h = cd_hash e) \<and>
    (\<forall>k h. k \<noteq> i \<longrightarrow> validateSession k h m' = validateSession k h m)"
proof -
  obtain e where e: "getClientData i m' = Some e" "cd_login e = cd_login d" "cd_password e = []"
    "cd_hash e = cd_hash d"
    using assms by (simp add: getClientData_def storeClientData_def)
  have "validateSession i (cd_hash d) m'"
    unfolding m'_def assms(1) [symmetric] by (rule registry.fresh_login_validates) (simp_all add: assms)
  moreover have "validateSession i h m' \<Longrightarrow> h = cd_hash d" for h
    using registry.relogin_invalidates_old_token [of d h now m] assms by simp
  moreover have "k \<noteq> i \<Longrightarrow> validateSession k h m' = validateSession k h m" for k h
    using registry.others_unaffected_by_login [of k d h now m] assms by simp
  ultimately show ?thesis using e by metis
qed



text \<open>The outcome \<open>LOCKED\<close> is never returned: the probe that is to find it out opens a transaction while
  the first is still open, which libpqxx refuses, and the refusal is swallowed. A locked or inactive
  account is answered like an unknown one.\<close>

lemma locked_never_reported:
  assumes "server E Q db txn" and "ready txn n held s"
    and "authenticate E c login pw ip ver s = (r, s')"
  shows "\<exists>o'. r = Inr o' \<and> ao_status o' \<noteq> LOCKED \<and>
     ((\<forall>u \<in> set (d_users (db (w_out s))). u_login u = login \<longrightarrow> \<not> u_is_active u) \<longrightarrow>
        ao_status o' = INVALID_CREDENTIALS \<or> ao_status o' = DB_ERROR)"
proof -
  obtain o' where o: "r = Inr o'" "authPost E db login pw ver s o' s'"
    using wpD [OF server.authenticate_wp [OF assms(1,2)] assms(3)] by auto
  have "\<not> mayLogin u login e"
    if "\<forall>u \<in> set (d_users (db (w_out s))). u_login u = login \<longrightarrow> \<not> u_is_active u"
      "snapshotOf (db (w_out s)) e" for u e
    using that by (auto simp: mayLogin_def snapshotOf_def)
  then show ?thesis using o by (cases "ao_status o'") (auto simp: authPost_def Let_def)
qed

text \<open>Ann's account locked until long after the time of the login.\<close>

definition lockedWorld :: "(rel, nat) world" where
  "lockedWorld = relWorld (noTables\<lparr>d_users :=
     [\<lparr>u_id = 7, u_login = ''ann'', u_password = ''6162'', u_email = None, u_role = 0, u_is_active = False,
       u_locked_until = Some 1000, u_failed_login_attempts = 5, u_last_login = 0, u_last_login_ip = None,
       u_registration_ip = None, u_client_version = None\<rparr>]\<rparr>) []"

lemma locked_never_reported_witness:
  "fst (authenticate (relServer False) 0 ''ann'' ''ab'' [] ''1.0.0'' lockedWorld)
     = Inr (outcome INVALID_CREDENTIALS 0) \<and> ao_status (outcome INVALID_CREDENTIALS 0) \<noteq> LOCKED"
proof -
  let ?m = "authenticate (relServer False) 0 ''ann'' ''ab'' [] ''1.0.0'' lockedWorld"
  have f: "fst ?m = Inr (outcome INVALID_CREDENTIALS 0)"
    by (simp add: lockedWorld_def auth_eval probe_user_status_def)
  obtain r s' where m: "?m = (r, s')" by fastforce
  have rdy: "ready relTxn 1 [] lockedWorld" unfolding lockedWorld_def by (rule relWorld_ready)
  show ?thesis using locked_never_reported [OF rel_server.server_axioms rdy m] f m by auto
qed

end
