(* ===== verification/Characters.thy ===== *)
theory Characters
  imports Authentication "HOL-Library.Sublist"
begin

text \<open>
  \<open>CharacterManager\<close> (\<open>src/services/CharacterManager.cpp\<close>). Containers filled row by row are returned as
  far as they were filled when an exception ends the filling, as the C++ vectors are.
\<close>

section \<open>Names\<close>

definition letters :: "(char \<times> char) list" where
  "letters = [(CHR ''A'', CHR ''Z''), (CHR ''a'', CHR ''z'')]"

text \<open>\<open>^[A-Za-z][A-Za-z ']{0,18}[A-Za-z]$|^[A-Za-z]{1,20}$\<close>.\<close>

definition nameRegex :: regex where
  "nameRegex =
     Alt (Cat (Rep letters 1 1)
           (Cat (Rep (letters @ [(CHR '' '', CHR '' ''), (CHR 0x27, CHR 0x27)]) 0 18) (Rep letters 1 1)))
         (Rep letters 1 20)"

text \<open>\<open>characterName.find("  ") != std::string::npos\<close>.\<close>

fun doubleSpace :: "string \<Rightarrow> bool" where
  "doubleSpace (a # b # s) \<longleftrightarrow> a = CHR '' '' \<and> b = CHR '' '' \<or> doubleSpace (b # s)"
| "doubleSpace _ \<longleftrightarrow> False"

section \<open>Reading characters\<close>

definition characterOfRow :: "row \<Rightarrow> exn + CharacterDataStruct" where
  "characterOfRow row =
     bindR (colInt ''character_id'' row) (\<lambda>i.
     bindR (colInt ''character_lvl'' row) (\<lambda>lvl.
     bindR (colText ''character_name'' row) (\<lambda>name.
     bindR (colText ''class_slug'' row) (\<lambda>cls.
     bindR (colText ''race_slug'' row) (\<lambda>race.
     bindR (colOr [] asText ''gender_slug'' row) (\<lambda>gender.
     bindR (colInt ''experience_points'' row) (\<lambda>xp.
     bindR (colOr False asBool ''is_online'' row) (\<lambda>online.
     bindR (colInt ''current_health'' row) (\<lambda>health.
     bindR (colInt ''current_mana'' row) (\<lambda>mana.
       Inr (newCharacter\<lparr>ch_characterId := i, ch_characterLevel := lvl, ch_characterName := name,
              ch_characterClass := cls, ch_characterRace := race, ch_characterGender := gender,
              ch_characterExperiencePoints := xp, ch_isOnline := online,
              ch_characterCurrentHealth := health, ch_characterCurrentMana := mana\<rparr>)))))))))))"

text \<open>The loop over the rows: what was pushed, and the exception that ended it, if one did.\<close>

fun readRows :: "(row \<Rightarrow> exn + 'a) \<Rightarrow> row list \<Rightarrow> exn option \<times> 'a list" where
  "readRows conv [] = (None, [])"
| "readRows conv (row # rows) =
     (case conv row of
        Inl e \<Rightarrow> (Some e, [])
      | Inr x \<Rightarrow> (case readRows conv rows of (e, xs) \<Rightarrow> (e, x # xs)))"

definition getCharactersList ::
  "('w, 'c) senv \<Rightarrow> 'c \<Rightarrow> int \<Rightarrow> (('w, 'c) world, CharacterDataStruct list) eff" where
  "getCharactersList E c accountId =
     tryCatch
       (withWork E c
         (andThen (exec_prepared E c (GetCharactersList accountId)) (\<lambda>rows.
            if rows = [] then andThen (abortT E c) (\<lambda>_. ret [])
            else case readRows characterOfRow rows of
              (Some e, charactersList) \<Rightarrow> ret charactersList
            | (None, charactersList) \<Rightarrow>
                andThen (tryCatch (commitT E c) (\<lambda>e. ret ())) (\<lambda>_. ret charactersList))))
       (\<lambda>e. ret [])"

text \<open>The fields of one struct filled in order, up to the first exception.\<close>

fun fillFields :: "('a \<Rightarrow> exn + 'a) list \<Rightarrow> 'a \<Rightarrow> exn option \<times> 'a" where
  "fillFields [] x = (None, x)"
| "fillFields (f # fs) x = (case f x of Inl e \<Rightarrow> (Some e, x) | Inr y \<Rightarrow> fillFields fs y)"

definition selectFields :: "row \<Rightarrow> (CharacterDataStruct \<Rightarrow> exn + CharacterDataStruct) list" where
  "selectFields row =
     [\<lambda>x. bindR (colInt ''character_id'' row) (\<lambda>v. Inr (x\<lparr>ch_characterId := v\<rparr>)),
      \<lambda>x. bindR (colInt ''character_lvl'' row) (\<lambda>v. Inr (x\<lparr>ch_characterLevel := v\<rparr>)),
      \<lambda>x. bindR (colText ''character_name'' row) (\<lambda>v. Inr (x\<lparr>ch_characterName := v\<rparr>)),
      \<lambda>x. bindR (colText ''character_class'' row) (\<lambda>v. Inr (x\<lparr>ch_characterClass := v\<rparr>)),
      \<lambda>x. bindR (colText ''race_name'' row) (\<lambda>v. Inr (x\<lparr>ch_characterRace := v\<rparr>)),
      \<lambda>x. bindR (colInt ''experience_points'' row) (\<lambda>v. Inr (x\<lparr>ch_characterExperiencePoints := v\<rparr>))]"

definition selectCharacter ::
  "('w, 'c) senv \<Rightarrow> 'c \<Rightarrow> int \<Rightarrow> int \<Rightarrow> (('w, 'c) world, CharacterDataStruct) eff" where
  "selectCharacter E c accountId characterId =
     tryCatch
       (withWork E c
         (andThen (exec_prepared E c (SelectCharacter accountId characterId)) (\<lambda>rows.
            if rows = [] then andThen (tryCatch (abortT E c) (\<lambda>e. ret ())) (\<lambda>_. ret newCharacter)
            else case fillFields (selectFields (hd rows)) newCharacter of
              (Some e, x) \<Rightarrow> ret x
            | (None, x) \<Rightarrow>
                andThen (tryCatch (andThen (commitT E c) (\<lambda>_.
                    andThen (tickW (se_steady E)) (\<lambda>now.
                      onSessions (updateClientDataCharacter now accountId x))))
                  (\<lambda>e. ret ())) (\<lambda>_. ret x))))
       (\<lambda>e. ret newCharacter)"

definition equipmentOfRow :: "row \<Rightarrow> exn + EquipmentPreviewItemStruct" where
  "equipmentOfRow row =
     bindR (colInt ''slot_id'' row) (\<lambda>slot.
     bindR (colText ''item_slug'' row) (\<lambda>slug. Inr \<lparr>eq_slotId = slot, eq_itemSlug = slug\<rparr>))"

definition getCharacterEquipmentPreview ::
  "('w, 'c) senv \<Rightarrow> 'c \<Rightarrow> int \<Rightarrow> (('w, 'c) world, EquipmentPreviewItemStruct list) eff" where
  "getCharacterEquipmentPreview E c characterId =
     tryCatch
       (withWork E c
         (andThen (exec_prepared E c (GetCharacterEquipmentPreview characterId)) (\<lambda>rows.
          andThen (commitT E c) (\<lambda>_. ret (snd (readRows equipmentOfRow rows))))))
       (\<lambda>e. ret [])"

section \<open>Creating and deleting\<close>

datatype CharacterCreateResult =
  ERR_MISSING_FIELD | ERR_NAME_INVALID | ERR_NAME_TAKEN | ERR_SLOT_FULL | CHAR_ERR_DB

fun createCode :: "CharacterCreateResult \<Rightarrow> int" where
  "createCode ERR_MISSING_FIELD = -1"
| "createCode ERR_NAME_INVALID = -2"
| "createCode ERR_NAME_TAKEN = -3"
| "createCode ERR_SLOT_FULL = -4"
| "createCode CHAR_ERR_DB = -5"

definition MAX_CHARS_PER_ACCOUNT :: int where "MAX_CHARS_PER_ACCOUNT = 4"

definition execIf :: "('w, 'c) senv \<Rightarrow> 'c \<Rightarrow> bool \<Rightarrow> query \<Rightarrow> (('w, 'c) world, unit) eff" where
  "execIf E c b q = (if b then andThen (exec_prepared E c q) (\<lambda>_. ret ()) else ret ())"

text \<open>After the row was inserted: state, position and the starter grants, then the commit.\<close>

definition initCharacter ::
  "('w, 'c) senv \<Rightarrow> 'c \<Rightarrow> int \<Rightarrow> string \<Rightarrow> (('w, 'c) world, int) eff" where
  "initCharacter E c newCharacterId characterClass =
     andThen (exec_prepared E c (GetClassIdBySlug characterClass)) (\<lambda>classResult.
     andThen (if classResult = [] then ret 0 else lift_res (colInt ''id'' (hd classResult))) (\<lambda>classId.
     andThen (exec_prepared E c (InitCharacterState newCharacterId)) (\<lambda>_.
     andThen (exec_prepared E c (InitCharacterPosition newCharacterId)) (\<lambda>_.
     andThen (execIf E c (classId > 0) (InitCharacterDefaultSkills newCharacterId classId)) (\<lambda>_.
     andThen (execIf E c (classId > 0) (InitCharacterStarterItems newCharacterId classId)) (\<lambda>_.
     andThen (execIf E c (classId > 0) (InitCharacterStarterCurrencies newCharacterId classId)) (\<lambda>_.
     andThen (commitT E c) (\<lambda>_. ret newCharacterId))))))))"

definition insertCharacterRow ::
  "('w, 'c) senv \<Rightarrow> 'c \<Rightarrow> int \<Rightarrow> string \<Rightarrow> string \<Rightarrow> string \<Rightarrow> string \<Rightarrow> (('w, 'c) world, int) eff" where
  "insertCharacterRow E c accountId characterName characterClass characterRace characterGender =
     andThen (exec_prepared E c
       (CreateCharacter accountId characterName characterClass characterRace characterGender)) (\<lambda>createResult.
       if createResult = [] then andThen (abortT E c) (\<lambda>_. ret (createCode CHAR_ERR_DB))
       else andThen (lift_res (colInt ''id'' (hd createResult))) (\<lambda>newCharacterId.
            initCharacter E c newCharacterId characterClass))"

definition createCharacter ::
  "('w, 'c) senv \<Rightarrow> 'c \<Rightarrow> int \<Rightarrow> string \<Rightarrow> string \<Rightarrow> string \<Rightarrow> string \<Rightarrow> (('w, 'c) world, int) eff" where
  "createCharacter E c accountId characterName characterClass characterRace characterGender =
     (if characterName = [] \<or> characterClass = [] \<or> characterRace = [] \<or> characterGender = []
      then ret (createCode ERR_MISSING_FIELD)
      else if \<not> regex_match nameRegex characterName then ret (createCode ERR_NAME_INVALID)
      else if doubleSpace characterName then ret (createCode ERR_NAME_INVALID)
      else tryCatch
        (withWork E c
          (andThen (exec_prepared E c (GetCharacterSlotCount accountId)) (\<lambda>slotResult.
           andThen (if slotResult = [] then ret False
                    else andThen (lift_res (asInt (snd (hd (hd slotResult))))) (\<lambda>slotCount.
                         ret (slotCount \<ge> MAX_CHARS_PER_ACCOUNT))) (\<lambda>full.
             if full then andThen (abortT E c) (\<lambda>_. ret (createCode ERR_SLOT_FULL))
             else andThen (exec_prepared E c (CheckCharacterNameExists characterName)) (\<lambda>nameCheck.
               if nameCheck \<noteq> [] then andThen (abortT E c) (\<lambda>_. ret (createCode ERR_NAME_TAKEN))
               else insertCharacterRow E c accountId characterName characterClass characterRace
                      characterGender)))))
        (\<lambda>e. ret (createCode CHAR_ERR_DB)))"

definition deleteCharacter :: "('w, 'c) senv \<Rightarrow> 'c \<Rightarrow> int \<Rightarrow> int \<Rightarrow> (('w, 'c) world, bool) eff" where
  "deleteCharacter E c accountId characterId =
     tryCatch
       (withWork E c
         (andThen (exec_prepared E c (DeleteCharacter characterId accountId)) (\<lambda>result.
          andThen (commitT E c) (\<lambda>_. ret (result \<noteq> [])))))
       (\<lambda>e. ret False)"

lemma conserves_characters [simp]:
  "conserves freeW (getCharactersList E c a)" "conserves freeW (selectCharacter E c a i)"
  "conserves freeW (getCharacterEquipmentPreview E c i)"
  "conserves freeW (createCharacter E c a n k r g)" "conserves freeW (deleteCharacter E c a i)"
  unfolding getCharactersList_def selectCharacter_def getCharacterEquipmentPreview_def createCharacter_def
    insertCharacterRow_def initCharacter_def execIf_def deleteCharacter_def
  by (auto intro!: conserves_intros split: prod.split option.split)

section \<open>What a creation does to the tables\<close>

text \<open>The catalogue's slugs are unique, as the creation screen assumes when it offers them.\<close>

definition catalogue_ok :: "dbase \<Rightarrow> bool" where
  "catalogue_ok d \<longleftrightarrow> distinct (map cc_slug (filter (\<lambda>k. cc_slug k \<noteq> None) (d_classes d))) \<and>
     distinct (map r_slug (d_races d)) \<and> distinct (map g_name (d_genders d))"

lemma filter_unique:
  assumes "distinct (map f xs)"
  shows "filter (\<lambda>x. f x = k) xs = [] \<or> (\<exists>x \<in> set xs. f x = k \<and> filter (\<lambda>x. f x = k) xs = [x])"
  using assms by (induction xs) (auto simp: filter_empty_conv image_iff)

lemma class_unique:
  assumes "distinct (map cc_slug (filter (\<lambda>k. cc_slug k \<noteq> None) xs))"
  shows "filter (\<lambda>x. cc_slug x = Some k) xs = [] \<or>
    (\<exists>x \<in> set xs. cc_slug x = Some k \<and> filter (\<lambda>x. cc_slug x = Some k) xs = [x])"
proof -
  have "filter (\<lambda>x. cc_slug x = Some k) (filter (\<lambda>k. cc_slug k \<noteq> None) xs) = filter (\<lambda>x. cc_slug x = Some k) xs"
    by (simp add: conj_commute cong: filter_cong) (metis (mono_tags, lifting) option.distinct(1))
  then show ?thesis using filter_unique [OF assms, of "Some k"] by auto
qed

definition matchOf :: "string \<Rightarrow> string \<Rightarrow> string \<Rightarrow> dbase \<Rightarrow> int \<times> int \<times> int \<Rightarrow> bool" where
  "matchOf cls race gender d = (\<lambda>(k, r, g).
     (\<exists>x \<in> set (d_classes d). cc_slug x = Some cls \<and> cc_id x = k) \<and>
     (\<exists>x \<in> set (d_races d). r_slug x = race \<and> r_id x = r) \<and>
     (\<exists>x \<in> set (d_genders d). g_name x = gender \<and> g_id x = g))"

lemma concat_nils [simp]: "concat (map (\<lambda>x. []) xs) = []"
  by (induction xs) auto

lemma create_character_one:
  assumes "catalogue_ok d"
  shows "create_character o' n cls race gender d = ([], d) \<or>
    (\<exists>kc. matchOf cls race gender d kc \<and> get_class_id_by_slug cls d = [[(''id'', CInt (fst kc))]] \<and>
       create_character o' n cls race gender d =
         ([[(''id'', CInt (sq_characters (d_seq d)))]], insertCharacter o' n (nextSlot o' d) kc d))"
proof -
  note c = assms [unfolded catalogue_ok_def]
  consider "filter (\<lambda>x. cc_slug x = Some cls) (d_classes d) = []"
    | "filter (\<lambda>x. r_slug x = race) (d_races d) = []"
    | "filter (\<lambda>x. g_name x = gender) (d_genders d) = []"
    | x y z where "x \<in> set (d_classes d)" "cc_slug x = Some cls" "filter (\<lambda>x. cc_slug x = Some cls) (d_classes d) = [x]"
      "y \<in> set (d_races d)" "r_slug y = race" "filter (\<lambda>x. r_slug x = race) (d_races d) = [y]"
      "z \<in> set (d_genders d)" "g_name z = gender" "filter (\<lambda>x. g_name x = gender) (d_genders d) = [z]"
    using class_unique [of "d_classes d" cls] filter_unique [of r_slug "d_races d" race]
      filter_unique [of g_name "d_genders d" gender] c by blast
  then show ?thesis
  proof cases
    case 4
    then show ?thesis
      by (intro disjI2 exI [of _ "(cc_id x, r_id y, g_id z)"])
         (auto simp: create_character_def matchOf_def get_class_id_by_slug_def Let_def)
  qed (simp_all add: create_character_def Let_def)
qed

text \<open>Everything the creation grants after the row: state, position, skills, items, currencies.\<close>

definition startKit :: "int \<Rightarrow> int \<Rightarrow> dbase \<Rightarrow> dbase" where
  "startKit i k d =
     (let e = init_character_position i (init_character_state i d)
      in if k > 0 then init_character_starter_currencies i k (init_character_starter_items i k
                         (init_character_default_skills i k e))
         else e)"

definition sameCatalogue :: "dbase \<Rightarrow> dbase \<Rightarrow> bool" where
  "sameCatalogue d e \<longleftrightarrow> d_classes e = d_classes d \<and> d_races e = d_races d \<and> d_genders e = d_genders d"

definition keptByKit :: "dbase \<Rightarrow> dbase \<Rightarrow> bool" where
  "keptByKit d e \<longleftrightarrow> d_characters e = d_characters d \<and> d_users e = d_users d \<and> d_sessions e = d_sessions d \<and>
     d_classSkills e = d_classSkills d \<and> d_states e = d_states d \<and> d_positions e = d_positions d \<and>
     sameCatalogue d e"

definition skillKeys :: "dbase \<Rightarrow> (int \<times> int) set" where
  "skillKeys d = (\<lambda>s. (sk_character_id s, sk_skill_id s)) ` set (d_skills d)"

lemma skillKeys_insert: "skillKeys (insertSkill i k d) = insert (i, k) (skillKeys d)"
  by (auto simp: insertSkill_def skillKeys_def Let_def image_iff)

lemma skillKeys_fold: "skillKeys (fold (insertSkill i) ks d) = (\<lambda>k. (i, k)) ` set ks \<union> skillKeys d"
  by (induction ks arbitrary: d) (auto simp: skillKeys_insert)

lemma kit_keeps:
  "keptByKit d (init_character_default_skills i k d)"
  "keptByKit d (init_character_starter_items i k d) \<and> skillKeys (init_character_starter_items i k d) = skillKeys d"
  "keptByKit d (init_character_starter_currencies i k d) \<and>
     skillKeys (init_character_starter_currencies i k d) = skillKeys d"
proof -
  show "keptByKit d (init_character_default_skills i k d)"
    unfolding init_character_default_skills_def
    by (rule fold_keeps) (auto simp: keptByKit_def sameCatalogue_def insertSkill_def Let_def)
  show "keptByKit d (init_character_starter_items i k d) \<and> skillKeys (init_character_starter_items i k d) = skillKeys d"
    unfolding init_character_starter_items_def
    by (rule fold_keeps [where I = "\<lambda>e. keptByKit d e \<and> skillKeys e = skillKeys d"])
       (auto simp: keptByKit_def sameCatalogue_def skillKeys_def insertItem_def Let_def)
  show "keptByKit d (init_character_starter_currencies i k d) \<and>
     skillKeys (init_character_starter_currencies i k d) = skillKeys d"
    unfolding init_character_starter_currencies_def
    by (rule fold_keeps [where I = "\<lambda>e. keptByKit d e \<and> skillKeys e = skillKeys d"])
       (auto simp: keptByKit_def sameCatalogue_def skillKeys_def grantCurrency_def)
qed

lemma startKit_frame:
  "d_characters (startKit i k d) = d_characters d" "d_users (startKit i k d) = d_users d"
  "d_sessions (startKit i k d) = d_sessions d" "sameCatalogue d (startKit i k d)"
  "i \<in> st_character_id ` set (d_states (startKit i k d))"
  "i \<in> p_character_id ` set (d_positions (startKit i k d))"
  "0 < k \<Longrightarrow> t \<in> set (d_classSkills d) \<Longrightarrow> cs_class_id t = k \<Longrightarrow> cs_is_default t \<Longrightarrow>
     (i, cs_skill_id t) \<in> skillKeys (startKit i k d)"
proof -
  define e where "e = init_character_position i (init_character_state i d)"
  have e: "d_characters e = d_characters d" "d_users e = d_users d" "d_sessions e = d_sessions d"
    "d_classSkills e = d_classSkills d" "i \<in> st_character_id ` set (d_states e)"
    "i \<in> p_character_id ` set (d_positions e)" "sameCatalogue d e"
    by (auto simp: e_def sameCatalogue_def init_character_position_def init_character_state_def Let_def image_iff)
  have sk: "startKit i k d = (if k > 0 then init_character_starter_currencies i k (init_character_starter_items i k
      (init_character_default_skills i k e)) else e)"
    by (simp add: startKit_def e_def Let_def)
  have kept: "keptByKit e (startKit i k d)"
    using kit_keeps unfolding sk keptByKit_def sameCatalogue_def by auto
  then show "d_characters (startKit i k d) = d_characters d" "d_users (startKit i k d) = d_users d"
    "d_sessions (startKit i k d) = d_sessions d" "sameCatalogue d (startKit i k d)" "i \<in> st_character_id ` set (d_states (startKit i k d))"
    "i \<in> p_character_id ` set (d_positions (startKit i k d))"
    using e by (simp_all add: keptByKit_def sameCatalogue_def)
  show "0 < k \<Longrightarrow> t \<in> set (d_classSkills d) \<Longrightarrow> cs_class_id t = k \<Longrightarrow> cs_is_default t \<Longrightarrow>
     (i, cs_skill_id t) \<in> skillKeys (startKit i k d)"
    using kit_keeps e(4) unfolding sk
    by (auto simp: init_character_default_skills_def skillKeys_fold)
qed

text \<open>
  The contract of a creation: the name was free and the account had room; one character of level 1 is
  added, of the class, race and gender asked for, in a slot above the account's others, with its state,
  position and default skills; accounts and sessions are untouched.
\<close>

definition characterAdded ::
  "sql_env \<Rightarrow> int \<Rightarrow> string \<Rightarrow> string \<Rightarrow> string \<Rightarrow> string \<Rightarrow> int \<Rightarrow> dbase \<Rightarrow> dbase \<Rightarrow> bool" where
  "characterAdded Q owner name cls race gender i d d' \<longleftrightarrow>
     check_character_name_exists Q name d = [] \<and> int (length (liveOf owner d)) < MAX_CHARS_PER_ACCOUNT \<and>
     sq_characters (d_seq d) \<le> i \<and> d_users d' = d_users d \<and> d_sessions d' = d_sessions d \<and>
     sameCatalogue d d' \<and>
     (\<exists>x. d_characters d' = d_characters d @ [x] \<and> c_id x = i \<and> c_owner_id x = owner \<and> c_name x = name \<and>
        c_level x = 1 \<and> c_deleted_at x = None \<and> (\<forall>y \<in> set (liveOf owner d). c_account_slot y < c_account_slot x) \<and>
        matchOf cls race gender d (c_class_id x, c_race_id x, c_gender x) \<and>
        (0 < c_class_id x \<longrightarrow> (\<forall>t \<in> set (d_classSkills d). cs_class_id t = c_class_id x \<and> cs_is_default t \<longrightarrow>
           (i, cs_skill_id t) \<in> skillKeys d'))) \<and>
     i \<in> st_character_id ` set (d_states d') \<and> i \<in> p_character_id ` set (d_positions d')"

lemma characterAdded_create:
  assumes s: "snapshotOf d e" and m: "matchOf cls race gender e kc"
    and free: "check_character_name_exists Q name e = []" and room: "int (length (liveOf o' e)) < MAX_CHARS_PER_ACCOUNT"
  shows "characterAdded Q o' name cls race gender (sq_characters (d_seq e)) d
     (startKit (sq_characters (d_seq e)) (fst kc) (insertCharacter o' name (nextSlot o' e) kc e))"
proof -
  obtain t q where e: "e = d\<lparr>d_now := t, d_seq := q\<rparr>" "seq_le (d_seq d) q" using s by (rule snapshotE)
  obtain k r g where kc: "kc = (k, r, g)" by (cases kc)
  have same: "liveOf o' e = liveOf o' d" "check_character_name_exists Q name e = check_character_name_exists Q name d"
    "matchOf cls race gender e = matchOf cls race gender d"
    by (simp_all add: e liveOf_def check_character_name_exists_def matchOf_def)
  have slots: "\<forall>y \<in> set (liveOf o' d). c_account_slot y < nextSlot o' e"
    using nextSlot_above [of _ o' e] same by simp
  let ?f = "insertCharacter o' name (nextSlot o' e) kc e"
  let ?x = "\<lparr>c_id = sq_characters q, c_owner_id = o', c_name = name, c_class_id = k,
              c_race_id = r, c_gender = g, c_account_slot = nextSlot o' e, c_level = 1,
              c_experience_points = 0, c_is_online = False, c_deleted_at = None\<rparr>"
  have f: "d_characters ?f = d_characters d @ [?x]" "d_users ?f = d_users d" "d_sessions ?f = d_sessions d"
    "d_classSkills ?f = d_classSkills d"
    by (simp_all add: insertCharacter_def kc Let_def e)
  have q: "sq_characters (d_seq e) = sq_characters q" "sq_characters (d_seq d) \<le> sq_characters q"
    using e by (simp_all add: seq_le_def)
  have cat: "sameCatalogue d (startKit i k ?f)" for i
    using startKit_frame(4) [of ?f i k] by (simp add: sameCatalogue_def insertCharacter_def kc Let_def e)
  have skills: "0 < k \<longrightarrow> (\<forall>t \<in> set (d_classSkills d). cs_class_id t = k \<and> cs_is_default t \<longrightarrow>
      (sq_characters q, cs_skill_id t) \<in> skillKeys (startKit (sq_characters q) k ?f))"
    using startKit_frame(7) [of k _ ?f] f(4) by simp
  show ?thesis
    unfolding characterAdded_def startKit_frame(1,2,3) f
    using free room same slots q m startKit_frame(5,6) skills cat
    by (intro conjI exI [of _ ?x]) (simp_all add: kc f)
qed

text \<open>The answers of \<open>createCharacter\<close> and what each leaves; -5 leaves the database in doubt only when the
  answer to the commit was lost.\<close>

definition createPost ::
  "sql_env \<Rightarrow> int \<Rightarrow> string \<Rightarrow> string \<Rightarrow> string \<Rightarrow> string \<Rightarrow> int \<Rightarrow> dbase \<Rightarrow> dbase \<Rightarrow> bool" where
  "createPost Q owner name cls race gender v d d' \<longleftrightarrow>
     d' = d \<and> (v = -1 \<or> v = -2 \<or> v = -5 \<or> v = -3 \<and> check_character_name_exists Q name d \<noteq> [] \<or>
               v = -4 \<and> int (length (liveOf owner d)) \<ge> MAX_CHARS_PER_ACCOUNT) \<or>
     characterAdded Q owner name cls race gender v d d' \<or>
     v = -5 \<and> (\<exists>i. characterAdded Q owner name cls race gender i d d')"

definition ownsLive :: "int \<Rightarrow> int \<Rightarrow> character_row \<Rightarrow> bool" where
  "ownsLive owner i c \<longleftrightarrow> c_id c = i \<and> c_owner_id c = owner \<and> c_deleted_at c = None"

text \<open>At most the account's own live character is marked deleted; nothing else changes.\<close>

definition deletePost :: "int \<Rightarrow> int \<Rightarrow> bool \<Rightarrow> dbase \<Rightarrow> dbase \<Rightarrow> bool" where
  "deletePost owner i deleted d d' \<longleftrightarrow>
     (deleted \<longrightarrow> (\<exists>c \<in> set (d_characters d). ownsLive owner i c)) \<and>
     (\<not> deleted \<and> d' = d \<or>
      d_users d' = d_users d \<and> d_sessions d' = d_sessions d \<and> sameCatalogue d d' \<and>
      (\<exists>t. d_characters d' =
         map (\<lambda>c. if ownsLive owner i c then c\<lparr>c_deleted_at := Some t\<rparr> else c) (d_characters d)))"

abbreviation onlyOut :: "('w, 'c) world \<Rightarrow> ('w, 'c) world \<Rightarrow> bool" where
  "onlyOut s s' \<equiv> w_sessions s' = w_sessions s \<and> w_pool s' = w_pool s \<and> w_net s' = w_net s"

context server
begin

lemma initCharacter_wp:
  assumes t: "txn (w_out s) = [c \<mapsto> d]" and cls: "get_class_id_by_slug cls d = [[(''id'', CInt k)]]"
  shows "wp (initCharacter E c i cls)
    (\<lambda>r s'. onlyOut s s' \<and>
       (case r of
          Inl x \<Rightarrow> closable c (w_out s') \<and> (dbW s' = dbW s \<or> dbW s' = startKit i k d)
        | Inr v \<Rightarrow> v = i \<and> txn (w_out s') = Map.empty \<and> dbW s' = startKit i k d)) s"
  unfolding initCharacter_def execIf_def startKit_def using t cls
  by (auto simp: wp_simps Let_def col_defs get_class_id_by_slug_def init_character_state_def
      init_character_position_def intro!: db_rules)

lemma insertCharacterRow_wp:
  assumes t: "txn (w_out s) = [c \<mapsto> e]" and c: "catalogue_ok e" and e: "snapshotOf (dbW s) e"
    and free: "check_character_name_exists Q name e = []" and room: "int (length (liveOf o' e)) < MAX_CHARS_PER_ACCOUNT"
  shows "wp (insertCharacterRow E c o' name cls race gender)
    (\<lambda>r s'. onlyOut s s' \<and> closable c (w_out s') \<and>
       (case r of
          Inl x \<Rightarrow> dbW s' = dbW s \<or> (\<exists>i. characterAdded Q o' name cls race gender i (dbW s) (dbW s'))
        | Inr v \<Rightarrow> v = -5 \<and> dbW s' = dbW s \<or> characterAdded Q o' name cls race gender v (dbW s) (dbW s'))) s"
proof -
  let ?i = "sq_characters (d_seq e)"
  have init: "wp (initCharacter E c ?i cls)
      (\<lambda>r s'. onlyOut s1 s' \<and> closable c (w_out s') \<and>
       (case r of
          Inl x \<Rightarrow> dbW s' = dbW s \<or> (\<exists>i. characterAdded Q o' name cls race gender i (dbW s) (dbW s'))
        | Inr v \<Rightarrow> characterAdded Q o' name cls race gender v (dbW s) (dbW s'))) s1"
    if s1: "txn (w_out s1) = [c \<mapsto> insertCharacter o' name (nextSlot o' e) kc e]" "dbW s1 = dbW s"
      and kc: "matchOf cls race gender e kc" "get_class_id_by_slug cls e = [[(''id'', CInt (fst kc))]]"
    for s1 kc
  proof -
    have g: "get_class_id_by_slug cls (insertCharacter o' name (nextSlot o' e) kc e) = [[(''id'', CInt (fst kc))]]"
      using kc(2) by (simp add: get_class_id_by_slug_def insertCharacter_def Let_def split: prod.split)
    show ?thesis
      by (rule wp_mono [OF initCharacter_wp [OF s1(1) g]])
         (use characterAdded_create [OF e kc(1) free room] s1(2) in \<open>auto split: sum.splits\<close>)
  qed
  from create_character_one [OF c, of o' name cls race gender] show ?thesis
  proof (elim disjE exE conjE)
    assume "create_character o' name cls race gender e = ([], e)"
    then show ?thesis
      unfolding insertCharacterRow_def using t by (auto simp: wp_simps intro!: db_rules)
  next
    fix kc assume "matchOf cls race gender e kc" "get_class_id_by_slug cls e = [[(''id'', CInt (fst kc))]]"
      "create_character o' name cls race gender e = ([[(''id'', CInt ?i)]],
         insertCharacter o' name (nextSlot o' e) kc e)"
    then show ?thesis
      unfolding insertCharacterRow_def using t
      by (cases "in_int ?i")
         (auto simp: wp_simps col_defs intro!: db_rules wp_mono [OF init] split: sum.splits)
  qed
qed

lemma createCharacter_wp:
  assumes r0: "ready txn n held s" and c: "catalogue_ok (dbW s)"
  shows "wp (createCharacter E c o' name cls race gender)
    (\<lambda>r s'. case r of Inl x \<Rightarrow> False
       | Inr v \<Rightarrow> ready txn n held s' \<and> onlyOut s s' \<and>
           createPost Q o' name cls race gender v (dbW s) (dbW s')) s"
proof (cases "name = [] \<or> cls = [] \<or> race = [] \<or> gender = [] \<or> \<not> regex_match nameRegex name \<or> doubleSpace name")
  case True
  then show ?thesis using r0 by (auto simp: createCharacter_def wp_simps createPost_def)
next
  case False
  have same: "liveOf o' e = liveOf o' (dbW s)"
    "check_character_name_exists Q name e = check_character_name_exists Q name (dbW s)"
    "catalogue_ok e" if "snapshotOf (dbW s) e" for e
    using c that by (auto simp: snapshotOf_def liveOf_def check_character_name_exists_def catalogue_ok_def)
  have row: "wp (insertCharacterRow E c o' name cls race gender)
      (\<lambda>r s'. onlyOut s s' \<and> closable c (w_out s') \<and>
         (case r of Inl x \<Rightarrow> createPost Q o' name cls race gender (-5) (dbW s) (dbW s')
          | Inr v \<Rightarrow> createPost Q o' name cls race gender v (dbW s) (dbW s'))) s1"
    if "txn (w_out s1) = [c \<mapsto> e]" "snapshotOf (dbW s) e" "onlyOut s s1" "dbW s1 = dbW s"
      "check_character_name_exists Q name (dbW s) = []"
      "int (length (liveOf o' (dbW s))) < MAX_CHARS_PER_ACCOUNT" for s1 e
    by (rule wp_mono [OF insertCharacterRow_wp [OF that(1)]])
       (use that c same [OF that(2)] in \<open>auto simp: createPost_def split: sum.splits\<close>)
  show ?thesis
    unfolding createCharacter_def using r0 False
    apply (auto simp: wp_simps ready_def get_character_slot_count_def same createPost_def
        intro!: db_rules)
    subgoal for w d wa wb
      by (rule wp_mono [OF row [where e = d]]) (auto simp: wp_simps ready_def split: sum.splits)
    done
qed

lemma deleteCharacter_wp:
  assumes r0: "ready txn n held s"
  shows "wp (deleteCharacter E c o' i)
    (\<lambda>r s'. case r of Inl x \<Rightarrow> False
       | Inr b \<Rightarrow> ready txn n held s' \<and> onlyOut s s' \<and>
           deletePost o' i b (dbW s) (dbW s')) s"
proof -
  have del: "deletePost o' i (fst (delete_character i o' e) \<noteq> []) d (snd (delete_character i o' e))"
    "deletePost o' i False d (snd (delete_character i o' e))" if "snapshotOf d e" for d e
    using that unfolding deletePost_def delete_character_def Let_def
    by (auto simp: snapshotOf_def filter_empty_conv ownsLive_def sameCatalogue_def)
  have "deletePost o' i False d d" for d by (simp add: deletePost_def)
  then show ?thesis
    unfolding deleteCharacter_def using r0
    by (auto simp: wp_simps ready_def del intro!: db_rules)
qed

end

section \<open>The roster\<close>

text \<open>Live names are unique up to case; an account has at most four live characters, in distinct slots.\<close>

definition live :: "character_row \<Rightarrow> bool" where
  "live c \<longleftrightarrow> c_deleted_at c = None"

definition rosterOk :: "sql_env \<Rightarrow> dbase \<Rightarrow> bool" where
  "rosterOk Q d \<longleftrightarrow>
     distinct (map (\<lambda>c. sql_lower Q (c_name c)) (filter live (d_characters d))) \<and>
     (\<forall>c \<in> set (d_characters d).
        int (length (liveOf (c_owner_id c) d)) \<le> MAX_CHARS_PER_ACCOUNT \<and>
        distinct (map c_account_slot (liveOf (c_owner_id c) d)))"

lemma rosterOk_all:
  assumes "rosterOk Q d"
  shows "int (length (liveOf o' d)) \<le> MAX_CHARS_PER_ACCOUNT \<and> distinct (map c_account_slot (liveOf o' d))"
proof (cases "liveOf o' d = []")
  case True
  then show ?thesis by (simp add: MAX_CHARS_PER_ACCOUNT_def)
next
  case False
  then obtain c where "c \<in> set (liveOf o' d)" by (meson list.set_sel(1))
  then have "c \<in> set (d_characters d)" "c_owner_id c = o'" by (auto simp: liveOf_def)
  then show ?thesis using assms by (auto simp: rosterOk_def)
qed

lemma rosterOkI:
  assumes "distinct (map (\<lambda>c. sql_lower Q (c_name c)) (filter live (d_characters d)))"
    and "\<And>o'. int (length (liveOf o' d)) \<le> MAX_CHARS_PER_ACCOUNT \<and> distinct (map c_account_slot (liveOf o' d))"
  shows "rosterOk Q d"
  using assms by (simp add: rosterOk_def)

lemma characterAdded_roster:
  assumes a: "characterAdded Q owner name cls race gender i d d'" and r: "rosterOk Q d"
  shows "rosterOk Q d'"
proof -
  obtain x where x: "d_characters d' = d_characters d @ [x]" "c_owner_id x = owner" "c_name x = name"
    "c_deleted_at x = None" "\<forall>y \<in> set (liveOf owner d). c_account_slot y < c_account_slot x"
    "check_character_name_exists Q name d = []" "int (length (liveOf owner d)) < MAX_CHARS_PER_ACCOUNT"
    using a unfolding characterAdded_def by blast
  have l: "liveOf o' d' = liveOf o' d @ (if o' = owner then [x] else [])" for o'
    using x by (auto simp: liveOf_def)
  have free: "\<forall>c \<in> set (d_characters d). live c \<longrightarrow> sql_lower Q (c_name c) \<noteq> sql_lower Q name"
    using x(6) by (auto simp: check_character_name_exists_def filter_empty_conv live_def)
  show ?thesis
  proof (rule rosterOkI)
    show "distinct (map (\<lambda>c. sql_lower Q (c_name c)) (filter live (d_characters d')))"
      using r free x by (auto simp: rosterOk_def live_def)
    show "int (length (liveOf o' d')) \<le> MAX_CHARS_PER_ACCOUNT \<and> distinct (map c_account_slot (liveOf o' d'))" for o'
      using rosterOk_all [OF r, of o'] x unfolding l by auto
  qed
qed

lemma filter_marked:
  assumes "\<And>c. P (f c) \<longleftrightarrow> P c \<and> \<not> M c" and "\<And>c. P (f c) \<Longrightarrow> f c = c"
  shows "filter P (map f xs) = filter (\<lambda>c. P c \<and> \<not> M c) xs"
  using assms by (induction xs) auto

lemma deletePost_roster:
  assumes a: "deletePost owner i b d d'" and r: "rosterOk Q d"
  shows "rosterOk Q d'"
proof (cases "d' = d")
  case False
  then obtain t where "d_characters d' =
      map (\<lambda>c. if ownsLive owner i c then c\<lparr>c_deleted_at := Some t\<rparr> else c) (d_characters d)"
    using a by (auto simp: deletePost_def)
  moreover define f where "f = (\<lambda>c. if ownsLive owner i c then c\<lparr>c_deleted_at := Some t\<rparr> else c)"
  ultimately have d': "d_characters d' = map f (d_characters d)" by simp
  have live_f: "live (f c) \<longleftrightarrow> live c \<and> \<not> ownsLive owner i c" "live (f c) \<Longrightarrow> f c = c"
    "c_owner_id (f c) = c_owner_id c" for c
    by (auto simp: f_def live_def ownsLive_def)
  have names: "filter live (d_characters d') = filter (\<lambda>c. live c \<and> \<not> ownsLive owner i c) (d_characters d)"
    unfolding d' by (rule filter_marked) (fact live_f)+
  have l: "liveOf o' d' = filter (\<lambda>c. \<not> ownsLive owner i c) (liveOf o' d)" for o'
  proof -
    have "liveOf o' d' = filter (\<lambda>c. (c_owner_id c = o' \<and> live c) \<and> \<not> ownsLive owner i c) (d_characters d)"
      unfolding liveOf_def d' live_def [symmetric] by (rule filter_marked) (use live_f in auto)
    then show ?thesis by (simp add: liveOf_def live_def conj_ac cong: filter_cong)
  qed
  show ?thesis
  proof (rule rosterOkI)
    have "filter live (d_characters d') = filter (\<lambda>c. \<not> ownsLive owner i c) (filter live (d_characters d))"
      unfolding names by (simp add: conj_commute)
    then show "distinct (map (\<lambda>c. sql_lower Q (c_name c)) (filter live (d_characters d')))"
      by (metis r rosterOk_def distinct_map_filter)
    show "int (length (liveOf o' d')) \<le> MAX_CHARS_PER_ACCOUNT \<and> distinct (map c_account_slot (liveOf o' d'))" for o'
      using rosterOk_all [OF r, of o'] unfolding l
      by (auto simp: distinct_map_filter intro: order_trans [OF of_nat_mono [OF length_filter_le]])
  qed
qed (simp add: r)

lemma createPost_keeps:
  assumes "createPost Q owner name cls race gender v d d'"
  shows "(rosterOk Q d \<longrightarrow> rosterOk Q d') \<and> (catalogue_ok d \<longrightarrow> catalogue_ok d')"
  using assms characterAdded_roster
  by (auto simp: createPost_def) (auto simp: characterAdded_def sameCatalogue_def catalogue_ok_def)

lemma deletePost_catalogue: "deletePost owner i b d d' \<Longrightarrow> catalogue_ok d \<Longrightarrow> catalogue_ok d'"
  by (auto simp: deletePost_def sameCatalogue_def catalogue_ok_def)

section \<open>Properties\<close>

definition isLetter :: "char \<Rightarrow> bool" where
  "isLetter c \<longleftrightarrow> CHR ''A'' \<le> c \<and> c \<le> CHR ''Z'' \<or> CHR ''a'' \<le> c \<and> c \<le> CHR ''z''"

definition legalName :: "string \<Rightarrow> bool" where
  "legalName n \<longleftrightarrow> n \<noteq> [] \<and> length n \<le> 20 \<and>
     (\<forall>c \<in> set n. isLetter c \<or> c = CHR '' '' \<or> c = CHR 0x27) \<and>
     isLetter (hd n) \<and> isLetter (last n) \<and> \<not> sublist ''  '' n"

lemma inClass_letters: "inClass letters c \<longleftrightarrow> isLetter c"
  by (simp add: inClass_def letters_def isLetter_def less_eq_char_def)

lemma inClass_middle:
  "inClass (letters @ [(CHR '' '', CHR '' ''), (CHR 0x27, CHR 0x27)]) c \<longleftrightarrow>
     isLetter c \<or> c = CHR '' '' \<or> c = CHR 0x27"
proof -
  have "inClass (xs @ ys) c \<longleftrightarrow> inClass xs c \<or> inClass ys c" for xs ys
    by (simp add: inClass_def)
  moreover have "inClass [(x, x), (y, y)] c \<longleftrightarrow> c = x \<or> c = y" for x y
    by (auto simp: inClass_def less_eq_char_def [symmetric])
  ultimately show ?thesis by (simp add: inClass_letters)
qed

lemma doubleSpace_iff: "doubleSpace s \<longleftrightarrow> sublist ''  '' s"
  by (induction s rule: doubleSpace.induct) (auto simp: sublist_Cons_right)

lemma nameRegex_iff:
  "regex_match nameRegex s \<longleftrightarrow> s \<noteq> [] \<and> length s \<le> 20 \<and>
     (\<forall>c \<in> set s. isLetter c \<or> c = CHR '' '' \<or> c = CHR 0x27) \<and> isLetter (hd s) \<and> isLetter (last s)"
  (is "_ \<longleftrightarrow> ?R")
proof
  assume "regex_match nameRegex s"
  then consider x y z where "s = x @ y @ z" "regex_match (Rep letters 1 1) x" "regex_match (Rep letters 1 1) z"
      "regex_match (Rep (letters @ [(CHR '' '', CHR '' ''), (CHR 0x27, CHR 0x27)]) 0 18) y"
    | "regex_match (Rep letters 1 20) s"
    unfolding nameRegex_def regex_match.simps(3) match_Cat by blast
  then consider a u b where "s = a # u @ [b]" "isLetter a" "isLetter b" "length u \<le> 18"
      "\<forall>c \<in> set u. isLetter c \<or> c = CHR '' '' \<or> c = CHR 0x27"
    | "s \<noteq> []" "length s \<le> 20" "\<forall>c \<in> set s. isLetter c"
  proof cases
    case 1
    then obtain a b where "x = [a]" "z = [b]" "isLetter a" "isLetter b"
      unfolding match_one inClass_letters by blast
    then show ?thesis using 1 that(1) [of a y b] by (simp add: list_all_iff inClass_middle)
  next
    case 2
    then show ?thesis using that(2) by (cases s) (simp_all add: list_all_iff inClass_letters)
  qed
  then show ?R
    by cases (auto simp: hd_in_set last_in_set)
next
  assume r: ?R
  show "regex_match nameRegex s"
  proof (cases "length s = 1")
    case True
    then show ?thesis
      using r by (auto simp: nameRegex_def inClass_letters list_all_iff length_Suc_conv)
  next
    case False
    then obtain a u b where s: "s = a # u @ [b]"
      using r by (metis One_nat_def length_Cons list.exhaust list.size(3) rev_exhaust)
    then show ?thesis
      using r unfolding nameRegex_def regex_match.simps(3) match_Cat match_one
      by (intro disjI1 exI [of _ "[a]"] exI [of _ "u @ [b]"] conjI exI [of _ u] exI [of _ "[b]"])
         (auto simp: inClass_letters inClass_middle list_all_iff)
  qed
qed

text \<open>C39: a name passes exactly when it has 1 to 20 characters, all letters, spaces or apostrophes, begins and
  ends with a letter and has no two spaces in a row; any other is refused before the database is asked.
  (The comment and the API say 2 to 20; one letter passes through the second alternative.)\<close>

theorem name_rule:
  "(regex_match nameRegex name \<and> \<not> doubleSpace name \<longleftrightarrow> legalName name) \<and>
   (\<not> legalName name \<longrightarrow>
      createCharacter E c owner name cls race gender s = (Inr (-1), s) \<or>
      createCharacter E c owner name cls race gender s = (Inr (-2), s))"
  by (auto simp: nameRegex_iff doubleSpace_iff legalName_def createCharacter_def)

theorem name_rule_witness:
  "legalName ''A'' \<and> regex_match nameRegex ''A'' \<and> \<not> legalName ''Bo  b'' \<and>
   (\<exists>v. createCharacter (relServer False) 0 1 ''Bo  b'' ''mage'' ''elf'' ''male'' (relWorld noTables [])
      = (Inr v, relWorld noTables []))"
proof -
  have l: "legalName ''A''" by (simp add: legalName_def isLetter_def less_eq_char_def sublist_Cons_right)
  have n: "\<not> legalName ''Bo  b''" by (simp add: legalName_def sublist_Cons_right)
  have a: "regex_match nameRegex ''A''" using name_rule [of "''A''"] l by simp
  show ?thesis
    using name_rule [of "''Bo  b''" "relServer False" 0 1 "''mage''" "''elf''" "''male''" "relWorld noTables []"]
      l n a by (elim conjE impE disjE) simp_all
qed


text \<open>A catalogue with one class, race and gender, and one default skill.\<close>

definition demoCatalogue :: dbase where
  "demoCatalogue = noTables\<lparr>
     d_classes := [\<lparr>cc_id = 2, cc_name = ''Mage'', cc_slug = Some ''mage'', cc_description = None\<rparr>],
     d_races := [\<lparr>r_id = 3, r_name = ''Elf'', r_slug = ''elf''\<rparr>],
     d_genders := [\<lparr>g_id = 1, g_name = ''male'', g_label = ''Male''\<rparr>],
     d_classSkills := [\<lparr>cs_class_id = 2, cs_skill_id = 8, cs_is_default = True\<rparr>]\<rparr>"

lemma demoCatalogue_ok: "catalogue_ok (rl_db (w_out (relWorld demoCatalogue fs)))"
  by (simp add: catalogue_ok_def demoCatalogue_def noTables_def relWorld_def)

lemmas character_eval = rel_eval createCharacter_def insertCharacterRow_def initCharacter_def execIf_def
  deleteCharacter_def get_character_slot_count_def liveOf_def check_character_name_exists_def
  create_character_def insertCharacter_def get_class_id_by_slug_def init_character_state_def
  init_character_position_def init_character_default_skills_def insertSkill_def
  init_character_starter_items_def init_character_starter_currencies_def nextSlot_def delete_character_def
  demoCatalogue_def noTables_def demoSql_def col_defs MAX_CHARS_PER_ACCOUNT_def in_int_def INT_MIN_def
  INT_MAX_def Let_def


text \<open>
  Two requests for the same free name, each checking before the other inserts: both checks find
  nothing, no index refuses the second insertion, and two live characters have the name.
\<close>

lemma racing_creations:
  fixes create check
  defines "create \<equiv> (\<lambda>owner. runQuery demoSql (CreateCharacter owner ''Ann'' ''mage'' ''elf'' ''male''))"
    and "check \<equiv> runQuery demoSql (CheckCharacterNameExists ''Ann'')"
  shows "fst (check demoCatalogue) = []"
    and "fst (create 8 (snd (create 7 demoCatalogue))) \<noteq> []"
    and "rosterOk demoSql demoCatalogue \<and> \<not> rosterOk demoSql (snd (create 8 (snd (create 7 demoCatalogue))))"
  unfolding create_def check_def
  by (simp_all add: character_eval rosterOk_def live_def)

text \<open>C21: a deletion marks at most the caller's own live character; a positive answer means it was there, and
  every other character, account and session stays as it was.\<close>

theorem delete_only_own:
  assumes "server E Q db txn" and "ready txn n held s" and "deleteCharacter E c owner i s = (r, s')"
  shows "\<exists>b. r = Inr b \<and> ready txn n held s' \<and> w_sessions s' = w_sessions s \<and>
     deletePost owner i b (db (w_out s)) (db (w_out s')) \<and>
     (\<forall>x \<in> set (d_characters (db (w_out s))). \<not> ownsLive owner i x \<longrightarrow>
        x \<in> set (d_characters (db (w_out s')))) \<and>
     (b \<longrightarrow> \<not> (\<exists>x \<in> set (d_characters (db (w_out s'))). ownsLive owner i x))"
proof -
  obtain b where b: "r = Inr b" "ready txn n held s'" "w_sessions s' = w_sessions s"
    "deletePost owner i b (db (w_out s)) (db (w_out s'))"
    using wpD [OF server.deleteCharacter_wp [OF assms(1,2)] assms(3)] by (cases r) auto
  have gone: "\<not> ownsLive owner i (x\<lparr>c_deleted_at := Some t\<rparr>)" for x t by (simp add: ownsLive_def)
  have "(\<forall>x \<in> set (d_characters (db (w_out s))). \<not> ownsLive owner i x \<longrightarrow>
        x \<in> set (d_characters (db (w_out s')))) \<and>
     (b \<longrightarrow> \<not> (\<exists>x \<in> set (d_characters (db (w_out s'))). ownsLive owner i x))"
    using b(4) gone unfolding deletePost_def by (auto intro: image_eqI)
  then show ?thesis using b by blast
qed

text \<open>The demo catalogue with a character of account 7.\<close>

definition oneCharacter :: dbase where
  "oneCharacter = demoCatalogue\<lparr>d_characters :=
     [\<lparr>c_id = 5, c_owner_id = 7, c_name = ''Ann'', c_class_id = 2, c_race_id = 3, c_gender = 1,
       c_account_slot = 1, c_level = 1, c_experience_points = 0, c_is_online = False, c_deleted_at = None\<rparr>],
     d_seq := (d_seq demoCatalogue)\<lparr>sq_characters := 6\<rparr>\<rparr>"

theorem delete_only_own_witness:
  "\<exists>s' t'. deleteCharacter (relServer False) 0 7 5 (relWorld oneCharacter []) = (Inr True, s') \<and>
     deletePost 7 5 True oneCharacter (rl_db (w_out s')) \<and>
     deleteCharacter (relServer False) 0 8 5 (relWorld oneCharacter []) = (Inr False, t')"
proof -
  let ?m = "\<lambda>u. deleteCharacter (relServer False) 0 u 5 (relWorld oneCharacter [])"
  obtain r s' where m: "?m 7 = (r, s')" by fastforce
  have "fst (?m 7) = Inr True" "fst (?m 8) = Inr False"
    by (simp_all add: character_eval oneCharacter_def)
  then have r: "r = Inr True" "?m 8 = (Inr False, snd (?m 8))" using m by (simp_all add: prod_eq_iff)
  show ?thesis
    using delete_only_own [OF rel_server.server_axioms relWorld_ready m] r m
    by (auto simp: relWorld_def)
qed

end
