(* ===== verification/Handlers.thy ===== *)
theory Handlers
  imports Characters
begin

text \<open>
  \<open>EventHandler\<close> (\<open>src/events/EventHandler.cpp\<close>): one handler per event type, run by a worker of the
  thread pool. Logging is left out; what only logs is \<open>ret ()\<close>. A pool guard lives to the end of the
  block that declares it, so it is released after the answer was queued, also when an exception passes.
\<close>

section \<open>Answers\<close>

text \<open>Header fields in the order the handlers set them, then the body.\<close>

fun setHeaders :: "(string \<times> json) list \<Rightarrow> builder \<Rightarrow> builder" where
  "setHeaders [] b = b"
| "setHeaders ((k, v) # kvs) b = setHeaders kvs (setHeader k v b)"

definition reply :: "string \<Rightarrow> string \<Rightarrow> int \<Rightarrow> string \<Rightarrow> builder" where
  "reply message hash clientId eventType =
     setHeaders [(''message'', JStr message), (''hash'', JStr hash), (''clientId'', JInt clientId),
                 (''eventType'', JStr eventType)] newBuilder"

definition emptyBody :: "builder \<Rightarrow> builder" where
  "emptyBody = setBody [] (JStr [])"

definition authReply :: "string \<Rightarrow> ClientDataStruct \<Rightarrow> builder" where
  "authReply message passed =
     setHeaders [(''message'', JStr message), (''hash'', JStr (cd_hash passed)),
                 (''login'', JStr (cd_login passed)), (''clientId'', JInt (cd_clientId passed)),
                 (''eventType'', JStr ''authentificationClient'')] newBuilder"

text \<open>An object filled key by key: \<open>j["k"] = v\<close>.\<close>

definition objOf :: "(string \<times> json) list \<Rightarrow> json" where
  "objOf kvs = JObj (fold (\<lambda>(k, v). obj_put k v) kvs [])"

fun mapE :: "'a list \<Rightarrow> ('a \<Rightarrow> ('s, 'b) eff) \<Rightarrow> ('s, 'b list) eff" where
  "mapE [] f = ret []"
| "mapE (x # xs) f = andThen (f x) (\<lambda>y. andThen (mapE xs f) (\<lambda>ys. ret (y # ys)))"

text \<open>\<open>try { ... } catch (const std::bad_variant_access &ex) { log }\<close>.\<close>

definition catchVariant :: "('s, unit) eff \<Rightarrow> ('s, unit) eff" where
  "catchVariant m = tryCatch m (\<lambda>e. if e = BadVariantAccess then ret () else throw e)"

text \<open>\<open>if (std::holds_alternative<ClientDataStruct>(data))\<close>; otherwise the handler only logs.\<close>

definition withClient :: "Event \<Rightarrow> (ClientDataStruct \<Rightarrow> ('s, unit) eff) \<Rightarrow> ('s, unit) eff" where
  "withClient ev body = (case ev_data ev of ED_client passed \<Rightarrow> body passed | _ \<Rightarrow> ret ())"

section \<open>Authentication\<close>

definition clientIpOf :: "('w, 'c) senv \<Rightarrow> sock option \<Rightarrow> (('w, 'c) world, string) eff" where
  "clientIpOf E so =
     (case so of
        None \<Rightarrow> ret ''127.0.0.1''
      | Some s \<Rightarrow>
          andThen (readS (\<lambda>w. s \<in> set (io_open (n_io (w_net w))))) (\<lambda>is_open.
            if \<not> is_open then ret ''127.0.0.1''
            else andThen (tickW (ne_peer (se_net E) s)) (\<lambda>endpoint.
                 ret (case endpoint of None \<Rightarrow> ''127.0.0.1'' | Some ip \<Rightarrow> ip))))"

fun authCode :: "AuthStatus \<Rightarrow> string" where
  "authCode LOCKED = ''ERR_ACCOUNT_LOCKED''"
| "authCode BANNED = ''ERR_ACCOUNT_BANNED''"
| "authCode DB_ERROR = ''ERR_DB''"
| "authCode _ = ''Authentication failed for user!''"

definition loginSuccess :: "ClientDataStruct \<Rightarrow> builder" where
  "loginSuccess cur =
     emptyBody (setBody ''framing'' (JInt kFramingV2)
       (setHeaders [(''message'', JStr ''Authentication success for user!''), (''hash'', JStr (cd_hash cur)),
                    (''login'', JStr (cd_login cur)), (''clientId'', JInt (cd_clientId cur)),
                    (''role'', JStr (to_string (cd_role cur))),
                    (''eventType'', JStr ''authentificationClient'')] newBuilder))"

text \<open>With a connection in hand.\<close>

definition authenticateClient ::
  "('w, 'c) senv \<Rightarrow> nat \<Rightarrow> ClientDataStruct \<Rightarrow> (('w, 'c) world, unit) eff" where
  "authenticateClient E k passed =
     andThen (clientIpOf E (cd_socket passed)) (\<lambda>clientIp.
     andThen (guardGet k) (\<lambda>c.
     andThen (authenticate E c (cd_login passed) (cd_password passed) clientIp (cd_clientVersion passed)) (\<lambda>outcome.
       if ao_status outcome \<noteq> AUTH_OK then
         respond E (cd_socket passed) ''error''
           (setBody ''banExpiresAt'' (JStr (ao_banExpiresAt outcome))
             (setBody ''banReason'' (JStr (ao_banReason outcome))
               (authReply (authCode (ao_status outcome)) passed)))
       else
         andThen (readS (\<lambda>w. getClientData (ao_userId outcome) (w_sessions w))) (\<lambda>currentClientData.
           if ao_userId outcome = 0 \<or> currentClientData = None then
             respond E (cd_socket passed) ''error'' (emptyBody (authReply ''ERR_INTERNAL'' passed))
           else
             respond E (cd_socket passed) ''success'' (loginSuccess (the currentClientData))))))"

text \<open>Only here is a failing \<open>acquire\<close> answered: with \<open>ERR_DB\<close>.\<close>

definition handleAuthentificateClientEvent :: "('w, 'c) senv \<Rightarrow> Event \<Rightarrow> (('w, 'c) world, unit) eff" where
  "handleAuthentificateClientEvent E ev =
     catchVariant (withClient ev (\<lambda>passed.
       andThen
         (tryCatch (andThen (acquireW E) (\<lambda>k. ret (Some k)))
           (\<lambda>ex. andThen (respond E (cd_socket passed) ''error'' (emptyBody (authReply ''ERR_DB'' passed)))
                   (\<lambda>_. ret None))) (\<lambda>poolGuard.
         case poolGuard of
           None \<Rightarrow> ret ()
         | Some k \<Rightarrow> scopeExit (authenticateClient E k passed) (releaseW k))))"

section \<open>Requests of a session\<close>

text \<open>The shape check and the check of the token against the registry that four handlers begin with.\<close>

definition sessionGuard ::
  "('w, 'c) senv \<Rightarrow> string \<Rightarrow> builder \<Rightarrow> ClientDataStruct \<Rightarrow> (('w, 'c) world, unit) eff
     \<Rightarrow> (('w, 'c) world, unit) eff" where
  "sessionGuard E eventType unauthorized passed body =
     (if cd_clientId passed = 0 \<or> cd_hash passed = [] then
        respond E (cd_socket passed) ''error'' (emptyBody unauthorized)
      else andThen (readS (\<lambda>w. validateSession (cd_clientId passed) (cd_hash passed) (w_sessions w))) (\<lambda>valid.
        if \<not> valid then
          respond E (cd_socket passed) ''error''
            (emptyBody (reply ''ERR_SESSION_INVALID'' (cd_hash passed) (cd_clientId passed) eventType))
        else body))"

definition equipmentJson :: "EquipmentPreviewItemStruct \<Rightarrow> json" where
  "equipmentJson item = objOf [(''slotId'', JInt (eq_slotId item)), (''itemSlug'', JStr (eq_itemSlug item))]"

definition characterJson ::
  "('w, 'c) senv \<Rightarrow> nat \<Rightarrow> CharacterDataStruct \<Rightarrow> (('w, 'c) world, json) eff" where
  "characterJson E k character =
     andThen (guardGet k) (\<lambda>c.
     andThen (getCharacterEquipmentPreview E c (ch_characterId character)) (\<lambda>equip.
       ret (objOf [(''characterId'', JInt (ch_characterId character)),
                   (''characterName'', JStr (ch_characterName character)),
                   (''classSlug'', JStr (ch_characterClass character)),
                   (''raceSlug'', JStr (ch_characterRace character)),
                   (''genderSlug'', JStr (ch_characterGender character)),
                   (''characterLevel'', JInt (ch_characterLevel character)),
                   (''isOnline'', JBool (ch_isOnline character)),
                   (''equipment'', JArr (map equipmentJson equip))])))"

definition listCharacters ::
  "('w, 'c) senv \<Rightarrow> int \<Rightarrow> ClientDataStruct \<Rightarrow> ClientDataStruct \<Rightarrow> (('w, 'c) world, unit) eff" where
  "listCharacters E clientID passed cur =
     withGuard E (\<lambda>k.
       andThen (guardGet k) (\<lambda>c.
       andThen (getCharactersList E c clientID) (\<lambda>charactersList.
       andThen (mapE charactersList (characterJson E k)) (\<lambda>charactersListJson.
         respond E (cd_socket passed) ''success''
           (setBody ''charactersList'' (JArr charactersListJson)
             (reply ''Characters list retrieved successfully!'' (cd_hash cur) (cd_clientId cur)
                ''getCharactersList''))))))"

definition handleGetCharactersListEvent :: "('w, 'c) senv \<Rightarrow> Event \<Rightarrow> (('w, 'c) world, unit) eff" where
  "handleGetCharactersListEvent E ev =
     catchVariant (withClient ev (\<lambda>passed.
       sessionGuard E ''getCharactersList''
         (reply ''Authentication failed for user!'' (cd_hash passed) (cd_clientId passed) ''getCharactersList'') passed
         (andThen (tickW (se_steady E)) (\<lambda>now.
          andThen (onSessions (\<lambda>m. snd (touchSession now (cd_clientId passed) 0 m))) (\<lambda>_.
          andThen (readS (\<lambda>w. getClientData (cd_clientId passed) (w_sessions w))) (\<lambda>currentClientData.
            case currentClientData of
              None \<Rightarrow>
                respond E (cd_socket passed) ''error''
                  (emptyBody (reply ''ERR_SESSION_INVALID'' (cd_hash passed) (cd_clientId passed) ''getCharactersList''))
            | Some cur \<Rightarrow> listCharacters E (ev_clientID ev) passed cur))))))"

text \<open>\<open>switch (static_cast<CharacterCreateResult>(result))\<close>.\<close>

definition createError :: "int \<Rightarrow> string" where
  "createError result =
     (if result = createCode ERR_NAME_TAKEN then ''ERR_CHAR_NAME_TAKEN''
      else if result = createCode ERR_NAME_INVALID then ''ERR_CHAR_NAME_INVALID''
      else if result = createCode ERR_SLOT_FULL then ''ERR_CHAR_SLOT_FULL''
      else if result = createCode ERR_MISSING_FIELD then ''ERR_CHAR_MISSING_FIELD''
      else ''ERR_CHAR_CREATE_FAILED'')"

definition handleCreateCharacterEvent :: "('w, 'c) senv \<Rightarrow> Event \<Rightarrow> (('w, 'c) world, unit) eff" where
  "handleCreateCharacterEvent E ev =
     catchVariant (withClient ev (\<lambda>passed.
       sessionGuard E ''createCharacter''
         (reply ''Unauthorized'' (cd_hash passed) (cd_clientId passed) ''createCharacter'') passed
         (withGuard E (\<lambda>k.
            andThen (guardGet k) (\<lambda>c.
            andThen (let charData = cd_characterData passed in
                     createCharacter E c (cd_clientId passed) (ch_characterName charData)
                       (ch_characterClass charData) (ch_characterRace charData)
                       (ch_characterGender charData)) (\<lambda>result.
              if result \<le> 0 then
                respond E (cd_socket passed) ''error''
                  (emptyBody (reply (createError result) (cd_hash passed) (cd_clientId passed) ''createCharacter''))
              else
                respond E (cd_socket passed) ''success''
                  (setBody ''characterId'' (JInt result)
                    (reply ''Character created successfully'' (cd_hash passed) (cd_clientId passed)
                       ''createCharacter''))))))))"

definition handleDeleteCharacterEvent :: "('w, 'c) senv \<Rightarrow> Event \<Rightarrow> (('w, 'c) world, unit) eff" where
  "handleDeleteCharacterEvent E ev =
     catchVariant (withClient ev (\<lambda>passed.
       sessionGuard E ''deleteCharacter'' (reply ''Unauthorized'' [] 0 ''deleteCharacter'') passed
         (let characterId = ch_characterId (cd_characterData passed);
              answer = (\<lambda>message. reply message (cd_hash passed) (cd_clientId passed) ''deleteCharacter'')
          in if characterId \<le> 0 then
               respond E (cd_socket passed) ''error'' (emptyBody (answer ''ERR_INVALID_CHARACTER_ID''))
             else
               withGuard E (\<lambda>k.
                 andThen (guardGet k) (\<lambda>c.
                 andThen (deleteCharacter E c (cd_clientId passed) characterId) (\<lambda>deleted.
                   if \<not> deleted then
                     respond E (cd_socket passed) ''error'' (emptyBody (answer ''ERR_CHARACTER_NOT_FOUND''))
                   else
                     respond E (cd_socket passed) ''success''
                       (setBody ''characterId'' (JInt characterId) (answer ''Character deleted successfully''))))))))"

text \<open>The rows of the creation screen, converted after the commit and before the transaction's scope ends.\<close>

definition classJson :: "row \<Rightarrow> exn + json" where
  "classJson row =
     bindR (colInt ''id'' row) (\<lambda>i. bindR (colText ''name'' row) (\<lambda>name.
     bindR (colOr [] asText ''slug'' row) (\<lambda>slug. bindR (colOr [] asText ''description'' row) (\<lambda>description.
       Inr (objOf [(''id'', JInt i), (''name'', JStr name), (''slug'', JStr slug),
                   (''description'', JStr description)])))))"

definition raceJson :: "row \<Rightarrow> exn + json" where
  "raceJson row =
     bindR (colInt ''id'' row) (\<lambda>i. bindR (colText ''name'' row) (\<lambda>name. bindR (colText ''slug'' row) (\<lambda>slug.
       Inr (objOf [(''id'', JInt i), (''name'', JStr name), (''slug'', JStr slug)]))))"

definition genderJson :: "row \<Rightarrow> exn + json" where
  "genderJson row =
     bindR (colInt ''id'' row) (\<lambda>i. bindR (colText ''name'' row) (\<lambda>slug. bindR (colText ''label'' row) (\<lambda>label.
       Inr (objOf [(''id'', JInt i), (''slug'', JStr slug), (''label'', JStr label)]))))"

definition creationOptions ::
  "('w, 'c) senv \<Rightarrow> 'c \<Rightarrow> ClientDataStruct \<Rightarrow> (('w, 'c) world, unit) eff" where
  "creationOptions E c passed =
     withWork E c
       (andThen (exec_prepared E c GetCharacterClasses) (\<lambda>classRows.
        andThen (exec_prepared E c GetCharacterRaces) (\<lambda>raceRows.
        andThen (exec_prepared E c GetCharacterGenders) (\<lambda>genderRows.
        andThen (commitT E c) (\<lambda>_.
        andThen (mapE classRows (\<lambda>row. lift_res (classJson row))) (\<lambda>classes.
        andThen (mapE raceRows (\<lambda>row. lift_res (raceJson row))) (\<lambda>races.
        andThen (mapE genderRows (\<lambda>row. lift_res (genderJson row))) (\<lambda>genders.
          respond E (cd_socket passed) ''success''
            (setBody ''genders'' (JArr genders) (setBody ''races'' (JArr races) (setBody ''classes'' (JArr classes)
              (reply ''Options retrieved successfully'' (cd_hash passed) (cd_clientId passed)
                 ''getCharacterCreationOptions''))))))))))))"

definition handleGetCharacterCreationOptionsEvent ::
  "('w, 'c) senv \<Rightarrow> Event \<Rightarrow> (('w, 'c) world, unit) eff" where
  "handleGetCharacterCreationOptionsEvent E ev =
     tryCatch
       (withClient ev (\<lambda>passed.
          sessionGuard E ''getCharacterCreationOptions'' (reply ''Unauthorized'' [] 0 ''getCharacterCreationOptions'')
            passed
            (withGuard E (\<lambda>k. andThen (guardGet k) (\<lambda>c. creationOptions E c passed)))))
       (\<lambda>ex. ret ())"

section \<open>Disconnecting and pinging\<close>

definition broadcast :: "('w, 'c) senv \<Rightarrow> string \<Rightarrow> (('w, 'c) world, unit) eff" where
  "broadcast E responseData =
     andThen (readS (\<lambda>w. getClientsDataMap (w_sessions w))) (\<lambda>clients.
       forEach clients (\<lambda>(i, client). onNet (sendResponse (se_net E) (cd_socket client) responseData)))"

definition handleDisconnectClientEvent :: "('w, 'c) senv \<Rightarrow> Event \<Rightarrow> (('w, 'c) world, unit) eff" where
  "handleDisconnectClientEvent E ev =
     catchVariant (withClient ev (\<lambda>passed.
       andThen (readS (\<lambda>w. validateSession (cd_clientId passed) (cd_hash passed) (w_sessions w))) (\<lambda>valid.
       andThen
         (if cd_clientId passed \<noteq> 0 \<and> cd_hash passed \<noteq> [] \<and> \<not> valid then ret ()
          else onSessions (\<lambda>m. snd (removeClientData (cd_clientId passed) m))) (\<lambda>_.
       andThen (onNet (genResponse (se_net E) ''success''
           (build (emptyBody (reply ''Client disconnected!'' [] (cd_clientId passed) ''disconnectClient''))))) (\<lambda>responseData.
         broadcast E responseData)))))"

definition pong :: builder where
  "pong = setHeaders [(''message'', JStr ''Pong!''), (''eventType'', JStr ''pingClient'')] newBuilder"

definition handlePingClientEvent :: "('w, 'c) senv \<Rightarrow> Event \<Rightarrow> (('w, 'c) world, unit) eff" where
  "handlePingClientEvent E ev =
     catchVariant (withClient ev (\<lambda>passed.
       andThen
         (tryCatch (if ev_hasTimestamps ev then andThen (lift_res (getTimestamps ev)) (\<lambda>ts. ret (Some ts))
                    else ret None) (\<lambda>e. ret None)) (\<lambda>timestamps.
         case timestamps of
           Some ts \<Rightarrow>
             onNet (andThen (genResponseTs (se_net E) ''success'' (build (emptyBody (setTimestamps ts pong))) ts)
                      (sendResponse (se_net E) (cd_socket passed)))
         | None \<Rightarrow> respond E (cd_socket passed) ''success'' (emptyBody pong))))"

section \<open>Registration\<close>

fun registerError :: "AccountRegisterResult \<Rightarrow> string" where
  "registerError ERR_LOGIN_TAKEN = ''ERR_LOGIN_TAKEN''"
| "registerError ERR_LOGIN_INVALID = ''ERR_LOGIN_INVALID''"
| "registerError ERR_PASSWORD_SHORT = ''ERR_PASSWORD_TOO_SHORT''"
| "registerError ERR_PASSWORD_LONG = ''ERR_PASSWORD_TOO_LONG''"
| "registerError ERR_EMAIL_INVALID = ''ERR_EMAIL_INVALID''"
| "registerError _ = ''ERR_REGISTER_FAILED''"

definition registerClient ::
  "('w, 'c) senv \<Rightarrow> RegistrationDataStruct \<Rightarrow> (('w, 'c) world, unit) eff" where
  "registerClient E reg =
     withGuard E (\<lambda>k.
       andThen (guardGet k) (\<lambda>c.
       andThen (registerAccount E c (reg_login reg) (reg_password reg) (reg_email reg) (reg_registrationIp reg)
                  (reg_clientVersion reg) 0 []) (\<lambda>(result, userId, sessionHash).
         if result \<noteq> REG_OK then
           respond E (reg_socket reg) ''error'' (emptyBody (reply (registerError result) [] 0 ''registerAccount''))
         else
           respond E (reg_socket reg) ''success''
             (emptyBody (setHeaders [(''message'', JStr ''Registration successful''), (''hash'', JStr sessionHash),
                                     (''clientId'', JInt userId), (''login'', JStr (reg_login reg)),
                                     (''eventType'', JStr ''registerAccount'')] newBuilder)))))"

definition handleRegisterAccountEvent :: "('w, 'c) senv \<Rightarrow> Event \<Rightarrow> (('w, 'c) world, unit) eff" where
  "handleRegisterAccountEvent E ev =
     (case ev_data ev of
        ED_registration reg \<Rightarrow>
          tryCatch (registerClient E reg)
            (\<lambda>ex. tryCatch
               (if reg_socket reg = None then ret ()
                else respond E (reg_socket reg) ''error'' (emptyBody (reply ''ERR_INTERNAL'' [] 0 ''registerAccount'')))
               (\<lambda>ex. ret ()))
      | _ \<Rightarrow> ret ())"

section \<open>Dispatch\<close>

definition dispatchEvent :: "('w, 'c) senv \<Rightarrow> Event \<Rightarrow> (('w, 'c) world, unit) eff" where
  "dispatchEvent E ev =
     (case ev_type ev of
        PING_CLIENT \<Rightarrow> handlePingClientEvent E ev
      | AUTH_CLIENT \<Rightarrow> handleAuthentificateClientEvent E ev
      | REGISTER_ACCOUNT \<Rightarrow> handleRegisterAccountEvent E ev
      | GET_CHARACTERS_LIST \<Rightarrow> handleGetCharactersListEvent E ev
      | CREATE_CHARACTER \<Rightarrow> handleCreateCharacterEvent E ev
      | DELETE_CHARACTER \<Rightarrow> handleDeleteCharacterEvent E ev
      | GET_CHARACTER_CREATION_OPTIONS \<Rightarrow> handleGetCharacterCreationOptionsEvent E ev
      | DISCONNECT_CLIENT \<Rightarrow> handleDisconnectClientEvent E ev)"

section \<open>Keeping an invariant\<close>

lemma keeps_lifted [intro!]:
  "(\<And>s x. I (s\<lparr>w_net := x\<rparr>) = I s) \<Longrightarrow> keeps I (onNet m)"
  by (auto simp: keeps_def onNet_def split: prod.split)

lemma keeps_mapE: "(\<And>x. keeps I (f x)) \<Longrightarrow> keeps I (mapE xs f)"
  by (induction xs) (auto intro!: keeps_andThen)

lemma keeps_guardGet [intro!, simp]: "keeps I (guardGet k)"
  by (auto simp: guardGet_def intro!: keeps_andThen split: sum.split option.split)

lemma keeps_withClient: "(\<And>d. keeps I (body d)) \<Longrightarrow> keeps I (withClient ev body)"
  by (auto simp: withClient_def split: EventData.split)

lemma keeps_catchVariant: "keeps I m \<Longrightarrow> keeps I (catchVariant m)"
  by (auto simp: catchVariant_def intro!: keeps_tryCatch)

lemma keeps_onSessions: "(\<And>s. I s \<Longrightarrow> I (s\<lparr>w_sessions := f (w_sessions s)\<rparr>)) \<Longrightarrow> keeps I (onSessions f)"
  by (simp add: onSessions_def keeps_updS)

lemma keeps_from_wp:
  assumes "\<And>s. I s \<Longrightarrow> wp m (R s) s" and "\<And>s r t. R s r t \<Longrightarrow> I t"
  shows "keeps I m"
  unfolding keeps_wp using assms wp_mono by metis

lemma withGuard_keeps:
  assumes acq: "\<And>s. I held s \<Longrightarrow> wp (acquireW E) (\<lambda>r t. case r of Inl e \<Rightarrow> I held t | Inr k \<Rightarrow> I (k # held) t) s"
    and body: "\<And>k. keeps (I (k # held)) (body k)"
    and rel: "\<And>k s. I (k # held) s \<Longrightarrow> I held (releaseW k s)"
  shows "keeps (I held) (withGuard E body)"
  unfolding keeps_wp withGuard_def wp_andThen
proof (intro allI impI)
  fix s assume "I held s"
  show "wp (acquireW E) (\<lambda>r t. case r of Inl e \<Rightarrow> I held t
      | Inr k \<Rightarrow> wp (scopeExit (body k) (releaseW k)) (\<lambda>r. I held) t) s"
    by (rule wp_mono [OF acq [OF \<open>I held s\<close>]])
       (auto simp: wp_scopeExit rel split: sum.splits
         intro!: wp_mono [OF body [unfolded keeps_wp, rule_format]])
qed

text \<open>The same when a failing \<open>acquire\<close> is caught and answered.\<close>

lemma caughtGuard_keeps:
  assumes acq: "\<And>s. I held s \<Longrightarrow> wp (acquireW E) (\<lambda>r t. case r of Inl e \<Rightarrow> I held t | Inr k \<Rightarrow> I (k # held) t) s"
    and body: "\<And>k. keeps (I (k # held)) (body k)"
    and rel: "\<And>k s. I (k # held) s \<Longrightarrow> I held (releaseW k s)"
    and err: "keeps (I held) err"
  shows "keeps (I held)
    (andThen (tryCatch (andThen (acquireW E) (\<lambda>k. ret (Some k))) (\<lambda>ex. andThen err (\<lambda>_. ret None)))
       (\<lambda>g. case g of None \<Rightarrow> ret () | Some k \<Rightarrow> scopeExit (body k) (releaseW k)))"
  unfolding keeps_wp wp_andThen wp_tryCatch
proof (intro allI impI, rule wp_mono [OF acq], assumption, goal_cases)
  case (1 s r t)
  then show ?case
    by (cases r)
       (auto simp: wp_simps rel split: sum.splits
         intro!: wp_mono [OF body [unfolded keeps_wp, rule_format]] wp_mono [OF err [unfolded keeps_wp, rule_format]])
qed

lemma keeps_sessionGuard:
  "(\<And>so b. keeps I (respond E so ''error'' b)) \<Longrightarrow> keeps I body \<Longrightarrow> keeps I (sessionGuard E et u d body)"
  by (auto simp: sessionGuard_def intro!: keeps_andThen)

section \<open>What every handler keeps\<close>

text \<open>
  An invariant that does not look at the sessions or the network, that a connection may be taken and
  given back under, and that the transactions of the managers keep: \<open>held\<close> are the slots taken.
\<close>

locale handler_inv =
  fixes E :: "('w, 'c) senv" and I :: "nat list \<Rightarrow> ('w, 'c) world \<Rightarrow> bool"
  assumes net: "I held (s\<lparr>w_net := x\<rparr>) = I held s"
    and sessions: "I held (s\<lparr>w_sessions := y\<rparr>) = I held s"
    and acquires: "I held s \<Longrightarrow> wp (acquireW E) (\<lambda>r t. case r of Inl e \<Rightarrow> I held t | Inr k \<Rightarrow> I (k # held) t) s"
    and releases: "I (k # held) s \<Longrightarrow> I held (releaseW k s)"
    and login: "keeps (I held) (authenticate E c login pw ip ver)"
    and registers: "keeps (I held) (registerAccount E c login pw email ip ver u h)"
    and lists: "keeps (I held) (getCharactersList E c a)"
    and previews: "keeps (I held) (getCharacterEquipmentPreview E c i)"
    and offers: "keeps (I held) (creationOptions E c d)"
    and cleans: "keeps (I held) (withWork E c (andThen (exec_prepared E c CleanupExpiredSessions) (\<lambda>_. commitT E c)))"
begin

lemma lifted:
  "keeps (I held) (onNet m)" "keeps (I held) (tickW g)" "keeps (I held) (onSessions f)"
  "keeps (I held) (respond E so status b)"
  unfolding tickW_def respond_def by (auto intro!: keeps_onSessions simp: net sessions)

lemmas guarded = withGuard_keeps [where I = I, OF acquires _ releases]

lemmas handler_intros = lifted guarded login registers lists previews offers keeps_catchVariant keeps_withClient
  keeps_andThen keeps_tryCatch keeps_sessionGuard keeps_mapE keeps_forEach

lemma character_json: "keeps (I held) (characterJson E k ch)"
  unfolding characterJson_def by (auto intro!: handler_intros)

lemma login_handler: "keeps (I held) (handleAuthentificateClientEvent E ev)"
proof -
  have "keeps (I held) (authenticateClient E k d)" for held k d
    by (auto simp: authenticateClient_def clientIpOf_def intro!: handler_intros split: option.split)
  then show ?thesis
    unfolding handleAuthentificateClientEvent_def
    by (intro keeps_catchVariant keeps_withClient caughtGuard_keeps [where I = I, OF acquires _ releases] lifted)
qed

lemma quiet_handlers:
  "keeps (I held) (handlePingClientEvent E ev)" "keeps (I held) (handleDisconnectClientEvent E ev)"
  "keeps (I held) (handleRegisterAccountEvent E ev)" "keeps (I held) (handleGetCharacterCreationOptionsEvent E ev)"
  "keeps (I held) (handleGetCharactersListEvent E ev)"
proof -
  show "keeps (I held) (handlePingClientEvent E ev)"
    by (auto simp: handlePingClientEvent_def intro!: handler_intros split: option.split)
  show "keeps (I held) (handleDisconnectClientEvent E ev)"
    by (auto simp: handleDisconnectClientEvent_def broadcast_def intro!: handler_intros)
  show "keeps (I held) (handleRegisterAccountEvent E ev)"
    by (auto simp: handleRegisterAccountEvent_def registerClient_def intro!: handler_intros split: EventData.split)
  show "keeps (I held) (handleGetCharacterCreationOptionsEvent E ev)"
    by (auto simp: handleGetCharacterCreationOptionsEvent_def intro!: handler_intros)
  show "keeps (I held) (handleGetCharactersListEvent E ev)"
    by (auto simp: handleGetCharactersListEvent_def listCharacters_def intro!: handler_intros character_json
        split: option.split)
qed

lemma quiet_dispatch:
  "ev_type ev \<notin> {CREATE_CHARACTER, DELETE_CHARACTER} \<Longrightarrow> keeps (I held) (dispatchEvent E ev)"
  by (auto simp: dispatchEvent_def quiet_handlers login_handler split: EventType.split)

lemma full_dispatch:
  assumes "\<And>held c d. ev_data ev = ED_client d \<Longrightarrow>
      keeps (I held) (createCharacter E c (cd_clientId d) (ch_characterName (cd_characterData d))
        (ch_characterClass (cd_characterData d)) (ch_characterRace (cd_characterData d))
        (ch_characterGender (cd_characterData d)))"
    and "\<And>held c d i. ev_data ev = ED_client d \<Longrightarrow> keeps (I held) (deleteCharacter E c (cd_clientId d) i)"
  shows "keeps (I held) (dispatchEvent E ev)"
proof -
  have "keeps (I held) (handleCreateCharacterEvent E ev)"
    using assms(1) by (auto simp: handleCreateCharacterEvent_def Let_def withClient_def intro!: handler_intros
        split: EventData.split)
  moreover have "keeps (I held) (handleDeleteCharacterEvent E ev)"
    using assms(2) by (auto simp: handleDeleteCharacterEvent_def Let_def withClient_def intro!: handler_intros
        split: EventData.split)
  ultimately show ?thesis
    by (auto simp: dispatchEvent_def quiet_handlers login_handler split: EventType.split)
qed

end

section \<open>Connections come back\<close>

context server
begin

lemma list_wp:
  assumes r0: "ready txn n held s"
  shows "wp (getCharactersList E c a)
    (\<lambda>r s'. ready txn n held s' \<and> onlyOut s s' \<and> snapshotOf (dbW s) (dbW s')) s"
proof -
  have refl: "snapshotOf d d" for d
    unfolding snapshotOf_def by (intro exI [of _ "d_now d"] exI [of _ "d_seq d"]) (simp add: seq_le_def)
  show ?thesis
    unfolding getCharactersList_def using r0
    by (auto simp: wp_simps ready_def refl intro!: db_rules split: prod.split option.split)
qed

lemma preview_wp:
  assumes r0: "ready txn n held s"
  shows "wp (getCharacterEquipmentPreview E c i)
    (\<lambda>r s'. ready txn n held s' \<and> onlyOut s s' \<and> snapshotOf (dbW s) (dbW s')) s"
proof -
  have refl: "snapshotOf d d" for d
    unfolding snapshotOf_def by (intro exI [of _ "d_now d"] exI [of _ "d_seq d"]) (simp add: seq_le_def)
  show ?thesis
    unfolding getCharacterEquipmentPreview_def using r0
    by (auto simp: wp_simps ready_def refl intro!: db_rules)
qed

text \<open>Rules that only follow whether a transaction is open.\<close>

lemma exec_opened:
  assumes "opened c (w_out s)" and "\<And>r w. opened c w \<Longrightarrow> R r (s\<lparr>w_out := w\<rparr>)"
  shows "wp (exec_prepared E c q) R s"
  using assms by (auto intro!: exec_prepared_wp)

lemma commit_opened:
  assumes "opened c (w_out s)" and "\<And>r w. txn w = Map.empty \<Longrightarrow> R r (s\<lparr>w_out := w\<rparr>)"
  shows "wp (commitT E c) R s"
  using assms by (auto intro!: commitT_wp)

lemma abort_opened:
  assumes "opened c (w_out s)" and "\<And>r w. txn w = Map.empty \<Longrightarrow> R r (s\<lparr>w_out := w\<rparr>)"
  shows "wp (abortT E c) R s"
  using assms by (auto intro!: abortT_wp)

lemmas open_rules = exec_opened commit_opened abort_opened

lemma init_closable:
  assumes "opened c (w_out s)"
  shows "wp (initCharacter E c i cls) (\<lambda>r s'. w_pool s' = w_pool s \<and> closable c (w_out s')) s"
proof -
  have optional: "wp (execIf E c b q) R s1"
    if "opened c (w_out s1)" "\<And>r w. opened c w \<Longrightarrow> R r (s1\<lparr>w_out := w\<rparr>)" for b q R s1
    using that(2) [of "w_out s1" "Inr ()"] that
    by (auto simp: execIf_def wp_simps intro!: exec_opened split: sum.split)
  show ?thesis
    unfolding initCharacter_def using assms
    by (auto simp: wp_simps intro!: open_rules optional split: sum.split)
qed

lemma insert_closable:
  assumes "opened c (w_out s)"
  shows "wp (insertCharacterRow E c o' name cls race gender)
    (\<lambda>r s'. w_pool s' = w_pool s \<and> closable c (w_out s')) s"
  unfolding insertCharacterRow_def using assms
  by (auto simp: wp_simps intro!: open_rules wp_mono [OF init_closable] split: sum.split)

lemma work_ready:
  assumes r0: "ready txn n held s"
    and body: "\<And>s1. opened c (w_out s1) \<Longrightarrow> w_pool s1 = w_pool s \<Longrightarrow>
      wp body (\<lambda>r s'. w_pool s' = w_pool s \<and> closable c (w_out s')) s1"
  shows "wp (tryCatch (withWork E c body) (\<lambda>e. ret (f e))) (\<lambda>r s'. ready txn n held s') s"
proof -
  have "wp (withWork E c body) (\<lambda>r s'. ready txn n held s') s"
    using r0 by (auto simp: ready_def intro!: withWork_wp wp_mono [OF body])
  then show ?thesis unfolding wp_tryCatch by (rule wp_mono) (auto simp: wp_simps split: sum.split)
qed

lemma create_ready:
  assumes r0: "ready txn n held s"
  shows "wp (createCharacter E c o' name cls race gender) (\<lambda>r s'. ready txn n held s') s"
proof (cases "name = [] \<or> cls = [] \<or> race = [] \<or> gender = [] \<or> \<not> regex_match nameRegex name \<or> doubleSpace name")
  case True
  then show ?thesis using r0 by (auto simp: createCharacter_def wp_simps)
next
  case False
  then have def: "createCharacter E c o' name cls race gender = tryCatch (withWork E c
      (andThen (exec_prepared E c (GetCharacterSlotCount o')) (\<lambda>slotResult.
           andThen (if slotResult = [] then ret False
                    else andThen (lift_res (asInt (snd (hd (hd slotResult))))) (\<lambda>slotCount.
                         ret (slotCount \<ge> MAX_CHARS_PER_ACCOUNT))) (\<lambda>full.
             if full then andThen (abortT E c) (\<lambda>_. ret (createCode ERR_SLOT_FULL))
             else andThen (exec_prepared E c (CheckCharacterNameExists name)) (\<lambda>nameCheck.
               if nameCheck \<noteq> [] then andThen (abortT E c) (\<lambda>_. ret (createCode ERR_NAME_TAKEN))
               else insertCharacterRow E c o' name cls race gender)))))
        (\<lambda>e. ret (createCode CHAR_ERR_DB))"
    unfolding createCharacter_def by (simp only: de_Morgan_disj simp_thms if_False)
  show ?thesis
    unfolding def
    by (rule work_ready [OF r0])
       (auto simp: wp_simps intro!: open_rules wp_mono [OF insert_closable] split: sum.split)
qed

lemma options_wp:
  assumes r0: "ready txn n held s"
  shows "wp (creationOptions E c d)
    (\<lambda>r s'. ready txn n held s' \<and> w_sessions s' = w_sessions s \<and> w_pool s' = w_pool s \<and>
       snapshotOf (dbW s) (dbW s') \<and> n_queue (w_net s') = n_queue (w_net s) \<and> n_stats (w_net s') = n_stats (w_net s)) s"
proof -
  have refl: "snapshotOf d d" for d
    unfolding snapshotOf_def by (intro exI [of _ "d_now d"] exI [of _ "d_seq d"]) (simp add: seq_le_def)
  have pure: "mapE rows (\<lambda>row. lift_res (conv row)) s1 = (fst (mapE rows (\<lambda>row. lift_res (conv row)) s1), s1)"
    for rows :: "row list" and conv :: "row \<Rightarrow> exn + json" and s1 :: "('w, 'c) world"
    by (induction rows) (auto simp: andThen_def split: sum.split prod.splits)
  have conv: "wp (mapE rows (\<lambda>row. lift_res (conv row))) R s1" if "\<And>r. R r s1"
    for rows :: "row list" and conv :: "row \<Rightarrow> exn + json" and R and s1 :: "('w, 'c) world"
    unfolding wp_def by (subst pure) (simp add: that)
  show ?thesis
    unfolding creationOptions_def using r0
    by (auto simp: wp_simps ready_def refl intro!: db_rules conv respond_wp split: sum.split)
qed

lemma keeps_ready_lifted [intro!]:
  "keeps (ready txn n held) (onNet m)" "keeps (ready txn n held) (tickW g)"
  "keeps (ready txn n held) (onSessions f)" "keeps (ready txn n held) (respond E so status b)"
  unfolding tickW_def respond_def by (auto intro!: keeps_onSessions)

lemma keeps_ready_services [intro!]:
  shows "keeps (ready txn n held) (authenticate E c login pw ip ver)"
    and "keeps (ready txn n held) (registerAccount E c login pw email ip ver u h)"
    and "keeps (ready txn n held) (createCharacter E c o' name cls race gender)"
    and "keeps (ready txn n held) (deleteCharacter E c o' i)"
    and "keeps (ready txn n held) (getCharactersList E c a)"
    and "keeps (ready txn n held) (getCharacterEquipmentPreview E c i)"
    and "keeps (ready txn n held) (creationOptions E c d)"
  by ((rule keeps_from_wp [OF authenticate_wp], assumption, blast)
    | (rule keeps_from_wp [OF register_wp], assumption, simp split: sum.splits)
    | (rule keeps_from_wp [OF create_ready], assumption, assumption)
    | (rule keeps_from_wp [OF deleteCharacter_wp], assumption, simp split: sum.splits)
    | (rule keeps_from_wp [OF list_wp], assumption, blast)
    | (rule keeps_from_wp [OF preview_wp], assumption, blast)
    | (rule keeps_from_wp [OF options_wp], assumption, blast))+

lemma acquire_ready:
  "ready txn n held s \<Longrightarrow>
     wp (acquireW E) (\<lambda>r t. case r of Inl e \<Rightarrow> ready txn n held t | Inr k \<Rightarrow> ready txn n (k # held) t) s"
  by (rule acquire_wp) simp_all

lemma ready_cleanup:
  "keeps (ready txn n held) (withWork E c (andThen (exec_prepared E c CleanupExpiredSessions) (\<lambda>_. commitT E c)))"
  unfolding keeps_wp by (auto simp: wp_simps ready_def intro!: db_rules)

end

sublocale server \<subseteq> idle: handler_inv E "ready txn n" for n
  by unfold_locales (simp_all add: acquire_ready release_ready ready_cleanup keeps_ready_services)

context server
begin

lemma dispatch_ready: "keeps (ready txn n held) (dispatchEvent E ev)"
  by (intro idle.full_dispatch keeps_ready_services)

end

section \<open>A session acts for its own account\<close>

text \<open>The users and every other account's characters are as before.\<close>

definition ownEffect :: "int \<Rightarrow> dbase \<Rightarrow> dbase \<Rightarrow> bool" where
  "ownEffect owner d d' \<longleftrightarrow> d_users d' = d_users d \<and> (\<forall>x. x \<noteq> owner \<longrightarrow> liveOf x d' = liveOf x d)"

lemma ownEffect_snapshot: "ownEffect owner d e \<Longrightarrow> snapshotOf e f \<Longrightarrow> ownEffect owner d f"
  by (auto simp: ownEffect_def snapshotOf_def liveOf_def)

lemma ownEffect_added: "ownEffect owner d e \<Longrightarrow> characterAdded Q owner nm cls race gender i e f \<Longrightarrow> ownEffect owner d f"
  by (auto simp: ownEffect_def characterAdded_def liveOf_def)

lemma ownEffect_create: "ownEffect owner d e \<Longrightarrow> createPost Q owner nm cls race gender v e f \<Longrightarrow> ownEffect owner d f"
  by (auto simp: createPost_def intro: ownEffect_added)

lemma filter_unmarked:
  "(\<And>c. P (f c) = P c) \<Longrightarrow> (\<And>c. P c \<Longrightarrow> f c = c) \<Longrightarrow> filter P (map f xs) = filter P xs"
  by (induction xs) auto

lemma ownEffect_delete:
  assumes "ownEffect owner d e" and "deletePost owner i b e f"
  shows "ownEffect owner d f"
proof (cases "f = e")
  case False
  then obtain t where f: "d_users f = d_users e"
    "d_characters f = map (\<lambda>c. if ownsLive owner i c then c\<lparr>c_deleted_at := Some t\<rparr> else c) (d_characters e)"
    using assms(2) by (auto simp: deletePost_def)
  have "liveOf x f = liveOf x e" if "x \<noteq> owner" for x
    unfolding liveOf_def f by (rule filter_unmarked) (use that in \<open>auto simp: ownsLive_def\<close>)
  then show ?thesis using assms(1) f(1) by (simp add: ownEffect_def)
qed (use assms in simp)

context server
begin

definition within :: "nat \<Rightarrow> int \<Rightarrow> ('w, 'c) world \<Rightarrow> nat list \<Rightarrow> ('w, 'c) world \<Rightarrow> bool" where
  "within n owner s0 held s \<longleftrightarrow>
     ready txn n held s \<and> catalogue_ok (dbW s) \<and> ownEffect owner (dbW s0) (dbW s) \<and>
     (\<forall>k. k \<noteq> owner \<longrightarrow> map_of (w_sessions s) k = map_of (w_sessions s0) k) \<and>
     n_queue (w_net s) = n_queue (w_net s0) \<and> n_stats (w_net s) = n_stats (w_net s0)"

lemma within_step:
  assumes "within n owner s0 held s" and "ready txn n held t" "onlyOut s t"
    and "ownEffect owner (dbW s0) (dbW t)" "catalogue_ok (dbW t)"
  shows "within n owner s0 held t"
  using assms by (simp add: within_def)

lemma catalogue_snapshot: "catalogue_ok d \<Longrightarrow> snapshotOf d e \<Longrightarrow> catalogue_ok e"
  by (auto simp: catalogue_ok_def snapshotOf_def)

lemma within_read:
  assumes "\<And>s. ready txn n held s \<Longrightarrow> wp m (\<lambda>r t. ready txn n held t \<and> w_sessions t = w_sessions s \<and>
     snapshotOf (dbW s) (dbW t) \<and> n_queue (w_net t) = n_queue (w_net s) \<and> n_stats (w_net t) = n_stats (w_net s)) s"
  shows "keeps (within n owner s0 held) m"
  unfolding keeps_wp
proof (intro allI impI)
  fix s assume s: "within n owner s0 held s"
  then have "ready txn n held s" by (simp add: within_def)
  then show "wp m (\<lambda>r. within n owner s0 held) s"
    by (rule wp_mono [OF assms])
       (use s in \<open>auto simp: within_def intro: ownEffect_snapshot catalogue_snapshot\<close>)
qed

lemma within_services [intro!]:
  shows "keeps (within n owner s0 held) (respond E so status b)"
    and "keeps (within n owner s0 held) (tickW g)"
    and "keeps (within n owner s0 held) (onSessions (\<lambda>m. snd (touchSession t owner u m)))"
    and "keeps (within n owner s0 held) (onSessions (\<lambda>m. snd (removeClientData owner m)))"
    and "keeps (within n owner s0 held) (createCharacter E c owner nm cls race gender)"
    and "keeps (within n owner s0 held) (deleteCharacter E c owner i)"
    and "keeps (within n owner s0 held) (getCharactersList E c a)"
    and "keeps (within n owner s0 held) (getCharacterEquipmentPreview E c i)"
    and "keeps (within n owner s0 held) (creationOptions E c d)"
proof -
  show "keeps (within n owner s0 held) (respond E so status b)"
    unfolding keeps_wp by (auto intro!: respond_wp simp: within_def)
  show "keeps (within n owner s0 held) (tickW g)"
    unfolding keeps_wp by (auto simp: within_def wp_simps)
  show "keeps (within n owner s0 held) (onSessions (\<lambda>m. snd (touchSession t owner u m)))"
    "keeps (within n owner s0 held) (onSessions (\<lambda>m. snd (removeClientData owner m)))"
    by (auto intro!: keeps_onSessions simp: within_def map_of_touch)
  show "keeps (within n owner s0 held) (createCharacter E c owner nm cls race gender)"
    unfolding keeps_wp
  proof (intro allI impI)
    fix s assume s: "within n owner s0 held s"
    then show "wp (createCharacter E c owner nm cls race gender) (\<lambda>r. within n owner s0 held) s"
      by (intro wp_mono [OF createCharacter_wp [where n = n and held = held]])
         (auto simp: within_def intro: ownEffect_create dest: createPost_keeps split: sum.splits)
  qed
  show "keeps (within n owner s0 held) (deleteCharacter E c owner i)"
    unfolding keeps_wp
  proof (intro allI impI)
    fix s assume s: "within n owner s0 held s"
    then show "wp (deleteCharacter E c owner i) (\<lambda>r. within n owner s0 held) s"
      by (intro wp_mono [OF deleteCharacter_wp [where n = n and held = held]])
         (auto simp: within_def intro: ownEffect_delete dest: deletePost_catalogue split: sum.splits)
  qed
  show "keeps (within n owner s0 held) (getCharactersList E c a)"
    by (rule within_read, rule wp_mono [OF list_wp]) auto
  show "keeps (within n owner s0 held) (getCharacterEquipmentPreview E c i)"
    by (rule within_read, rule wp_mono [OF preview_wp]) auto
  show "keeps (within n owner s0 held) (creationOptions E c d)"
    by (rule within_read, rule wp_mono [OF options_wp]) auto
qed

lemma acquire_within:
  "within n owner s0 held s \<Longrightarrow>
     wp (acquireW E) (\<lambda>r t. case r of Inl e \<Rightarrow> within n owner s0 held t | Inr k \<Rightarrow> within n owner s0 (k # held) t) s"
  by (rule acquire_wp [where n = n and held = held]) (auto simp: within_def)

lemma release_within: "within n owner s0 (k # held) s \<Longrightarrow> within n owner s0 held (releaseW k s)"
  by (auto simp: within_def intro: release_ready)

lemmas within_guard = withGuard_keeps [where I = "within n owner s0" for n owner s0, OF acquire_within _ release_within]

lemma within_net [intro!]: "(\<And>x. n_queue (snd (m x)) = n_queue x \<and> n_stats (snd (m x)) = n_stats x) \<Longrightarrow>
    keeps (within n owner s0 held) (onNet m)"
  by (auto simp: keeps_def onNet_def within_def split: prod.split) (metis snd_conv)+

lemma send_frame: "n_queue (snd (sendResponse N so r x)) = n_queue x \<and> n_stats (snd (sendResponse N so r x)) = n_stats x"
  by (simp add: sendResponse_def split: option.split)

lemma gen_frame: "n_queue (snd (genResponse N st j x)) = n_queue x \<and> n_stats (snd (genResponse N st j x)) = n_stats x"
  by (simp add: genResponse_result)

lemma dispatch_within:
  assumes "ev_data ev = ED_client d" and "ev_type ev \<notin> {AUTH_CLIENT, PING_CLIENT}"
  shows "keeps (within n (cd_clientId d) s0 held) (dispatchEvent E ev)"
proof -
  have "keeps (within n (cd_clientId d) s0 held) (handleDisconnectClientEvent E ev)"
    using assms by (auto simp: handleDisconnectClientEvent_def broadcast_def withClient_def send_frame gen_frame
        intro!: keeps_catchVariant keeps_andThen keeps_forEach)
  moreover have "keeps (within n (cd_clientId d) s0 held) (handleGetCharacterCreationOptionsEvent E ev)"
    using assms by (auto simp: handleGetCharacterCreationOptionsEvent_def withClient_def
        intro!: keeps_andThen keeps_tryCatch within_guard keeps_sessionGuard)
  moreover have "keeps (within n (cd_clientId d) s0 held) (handleDeleteCharacterEvent E ev)"
    using assms by (auto simp: handleDeleteCharacterEvent_def Let_def withClient_def
        intro!: keeps_catchVariant keeps_andThen within_guard keeps_sessionGuard)
  moreover have "keeps (within n (cd_clientId d) s0 held) (handleCreateCharacterEvent E ev)"
    using assms by (auto simp: handleCreateCharacterEvent_def Let_def withClient_def
        intro!: keeps_catchVariant keeps_andThen within_guard keeps_sessionGuard)
  moreover have "keeps (within n (cd_clientId d) s0 held) (handleGetCharactersListEvent E ev)"
    using assms by (auto simp: handleGetCharactersListEvent_def listCharacters_def withClient_def characterJson_def
        intro!: keeps_catchVariant keeps_andThen within_guard keeps_sessionGuard keeps_mapE split: option.split)
  moreover have "handleRegisterAccountEvent E ev = ret ()"
    using assms by (simp add: handleRegisterAccountEvent_def)
  ultimately show ?thesis using assms by (auto simp: dispatchEvent_def split: EventType.split)
qed

end

section \<open>Answers on the wire\<close>

text \<open>\<open>dump\<close> does not throw: it only does on text that is not UTF-8.\<close>

definition prints :: "net_env \<Rightarrow> bool" where
  "prints N \<longleftrightarrow> (\<forall>j. \<exists>d. json_dump (ne_json N) j = Inr d)"

definition eventName :: "EventType \<Rightarrow> string" where
  "eventName t = (case t of
      PING_CLIENT \<Rightarrow> ''pingClient'' | AUTH_CLIENT \<Rightarrow> ''authentificationClient''
    | DISCONNECT_CLIENT \<Rightarrow> ''disconnectClient'' | GET_CHARACTERS_LIST \<Rightarrow> ''getCharactersList''
    | CREATE_CHARACTER \<Rightarrow> ''createCharacter'' | DELETE_CHARACTER \<Rightarrow> ''deleteCharacter''
    | REGISTER_ACCOUNT \<Rightarrow> ''registerAccount''
    | GET_CHARACTER_CREATION_OPTIONS \<Rightarrow> ''getCharacterCreationOptions'')"

text \<open>An answer about events of a type, and one that reports the error \<open>code\<close>.\<close>

definition answerTo :: "EventType \<Rightarrow> json \<Rightarrow> bool" where
  "answerTo t j \<longleftrightarrow> jidx (jidx j ''header'') ''eventType'' = JStr (eventName t)"

definition reports :: "string \<Rightarrow> json \<Rightarrow> bool" where
  "reports code j \<longleftrightarrow> jidx (jidx j ''header'') ''status'' = JStr ''error'' \<and>
     jidx (jidx j ''header'') ''message'' = JStr code \<and> jidx (jidx j ''body'') ''errorCode'' = JStr code"

text \<open>Exactly one message was posted to the socket, unless it exceeds the frame limit and is dropped.\<close>

definition answered ::
  "net_env \<Rightarrow> sock \<Rightarrow> (json \<Rightarrow> bool) \<Rightarrow> services \<Rightarrow> services \<Rightarrow> bool" where
  "answered N so P n n' \<longleftrightarrow>
     (\<exists>j d. json_dump (ne_json N) j = Inr d \<and> P j \<and>
        posted n' = posted n @ (if length d \<le> kMaxFrameBytes then [(so, packFramedMessage d)] else []))"

lemma send_answered:
  assumes "prints N" and "P j" and "posted n = posted n0"
    and "line = (case json_dump (ne_json N) j of Inr d \<Rightarrow> d @ [CHR 0x0A])"
  shows "\<exists>n'. sendResponse N (Some so) line n = (Inr (), n') \<and> answered N so P n0 n'"
proof -
  obtain d where d: "json_dump (ne_json N) j = Inr d" using assms(1) by (auto simp: prints_def)
  obtain n' where n': "sendResponse N (Some so) line n = (Inr (), n')"
    "posted n' = posted n @ (case frameResponse line of None \<Rightarrow> [] | Some f \<Rightarrow> [(so, f)])"
    using sendResponse_posted [of N so line n] by blast
  then have "answered N so P n0 n'"
    unfolding answered_def using assms d
    by (intro exI [of _ j] exI [of _ d]) (auto simp: frameResponse_line)
  then show ?thesis using n' by blast
qed

lemma posted_ticks [simp]: "posted (n\<lparr>n_ticks := x\<rparr>) = posted n"
  by (simp add: posted_def)

lemma respond_answered:
  assumes p: "prints (se_net E)" and h: "map_of (rb_header b) ''eventType'' = Some (JStr (eventName t))"
  shows "wp (respond E (Some so) st b) (\<lambda>r s'. r = Inr () \<and> answered (se_net E) so
      (\<lambda>j. answerTo t j \<and> (\<forall>code. st = ''error'' \<and> map_of (rb_header b) ''message'' = Some (JStr code) \<and>
         map_of (rb_body b) ''errorCode'' = None \<longrightarrow> reports code j)) (w_net s) (w_net s')) s"
    (is "wp _ (\<lambda>r s'. r = Inr () \<and> answered _ _ ?P _ _) s")
proof -
  let ?ts = "getCurrentTimestamp (ne_puttime (se_net E)) (ne_clock (se_net E) (n_ticks (w_net s)))"
  let ?n = "(w_net s)\<lparr>n_ticks := Suc (n_ticks (w_net s))\<rparr>"
  obtain hd b' where j: "responseJson st ?ts (build b) = Inr (JObj [(''body'', JObj b'), (''header'', JObj hd)])"
    "map_of hd = (map_of (rb_header b))(''status'' \<mapsto> JStr st, ''timestamp'' \<mapsto> JStr ?ts,
                      ''version'' \<mapsto> JStr kProtocolVersion)"
    using responseJson_build [of st ?ts b] by blast
  let ?j = "JObj [(''body'', JObj b'), (''header'', JObj hd)]"
  have err: "map_of b' ''errorCode'' = Some (JStr code)"
    if "st = ''error''" "map_of (rb_header b) ''message'' = Some (JStr code)" "map_of (rb_body b) ''errorCode'' = None" for code
    using j(1) that
    by (auto simp: responseJson_def responseHeader_obj build_def mirrorErrorCode_def split: if_splits)
  have P: "?P ?j" using h j(2) err by (auto simp: answerTo_def reports_def)
  obtain d where d: "json_dump (ne_json (se_net E)) ?j = Inr d" using p by (auto simp: prints_def)
  have g: "genResponse (se_net E) st (build b) (w_net s) = (Inr (d @ [CHR 0x0A]), ?n)"
    by (simp add: genResponse_result generateResponseMessage_def j(1) dumpLine_def d)
  obtain n' where "sendResponse (se_net E) (Some so) (d @ [CHR 0x0A]) ?n = (Inr (), n')"
    "answered (se_net E) so ?P (w_net s) n'"
    using send_answered [OF p, of ?P ?j ?n "w_net s" "d @ [CHR 0x0A]" so] P d by auto
  then show ?thesis by (simp add: wp_def respond_def onNet_def g)
qed

text \<open>The builders of the handlers name their event and their message.\<close>

lemma setHeader_fields [simp]:
  "rb_header (setHeader k v b) = obj_put k v (rb_header b)" "rb_body (setHeader k v b) = rb_body b"
  "rb_header (setBody k v b) = rb_header b" "rb_body (setBody k v b) = obj_put k v (rb_body b)"
  "rb_header newBuilder = []" "rb_body newBuilder = []"
  by (simp_all add: setHeader_def setBody_def newBuilder_def)

lemmas builder_defs = reply_def authReply_def emptyBody_def loginSuccess_def pong_def eventName_def

declare obj_put.simps [simp del]

text \<open>An effect that posts nothing and returns, and one that ends in exactly one answer.\<close>

definition silent :: "(('w, 'c) world \<Rightarrow> bool) \<Rightarrow> (('w, 'c) world, 'a) eff \<Rightarrow> bool" where
  "silent I m \<longleftrightarrow> (\<forall>s. I s \<longrightarrow> wp m (\<lambda>r t. (\<exists>x. r = Inr x) \<and> I t \<and> posted (w_net t) = posted (w_net s)) s)"

definition answers ::
  "net_env \<Rightarrow> sock \<Rightarrow> (json \<Rightarrow> bool) \<Rightarrow> (('w, 'c) world \<Rightarrow> bool) \<Rightarrow> (('w, 'c) world, unit) eff \<Rightarrow> bool" where
  "answers N so P I m \<longleftrightarrow> (\<forall>s. I s \<longrightarrow> wp m (\<lambda>r t. r = Inr () \<and> answered N so P (w_net s) (w_net t)) s)"

lemma answered_from: "posted n = posted n0 \<Longrightarrow> answered N so P n n' \<Longrightarrow> answered N so P n0 n'"
  by (simp add: answered_def)

lemma answered_mono: "answered N so P n n' \<Longrightarrow> (\<And>j. P j \<Longrightarrow> P' j) \<Longrightarrow> answered N so P' n n'"
  unfolding answered_def by blast

lemma silentD: "silent I m \<Longrightarrow> I s \<Longrightarrow> \<exists>x t. m s = (Inr x, t) \<and> I t \<and> posted (w_net t) = posted (w_net s)"
  by (cases "m s") (auto simp: silent_def wp_def dest!: spec [of _ s])

lemma answersD: "answers N so P I m \<Longrightarrow> I s \<Longrightarrow> \<exists>t. m s = (Inr (), t) \<and> answered N so P (w_net s) (w_net t)"
  by (cases "m s") (auto simp: answers_def wp_def dest!: spec [of _ s])

lemma silent_andThen:
  assumes "silent I m" and "\<And>x. silent I (f x)"
  shows "silent I (andThen m f)"
  unfolding silent_def
proof (intro allI impI)
  fix s assume "I s"
  then obtain x t where t: "m s = (Inr x, t)" "I t" "posted (w_net t) = posted (w_net s)"
    using silentD [OF assms(1)] by blast
  then show "wp (andThen m f) (\<lambda>r t. (\<exists>x. r = Inr x) \<and> I t \<and> posted (w_net t) = posted (w_net s)) s"
    using silentD [OF assms(2) t(2), of x] by (auto simp: wp_def)
qed

lemma answers_andThen:
  assumes "silent I m" and "\<And>x. answers N so P I (f x)"
  shows "answers N so P I (andThen m f)"
  unfolding answers_def
proof (intro allI impI)
  fix s assume "I s"
  then obtain x t where t: "m s = (Inr x, t)" "I t" "posted (w_net t) = posted (w_net s)"
    using silentD [OF assms(1)] by blast
  then show "wp (andThen m f) (\<lambda>r t. r = Inr () \<and> answered N so P (w_net s) (w_net t)) s"
    using answersD [OF assms(2) t(2), of x] by (auto simp: wp_def intro: answered_from)
qed

lemma answers_if: "answers N so P I m \<Longrightarrow> answers N so P I m' \<Longrightarrow> answers N so P I (if b then m else m')"
  by simp

lemma silent_pure [simp]: "silent I (ret x)" "silent I (readS f)"
  by (simp_all add: silent_def wp_simps)

lemma silent_mapE: "(\<And>x. silent I (f x)) \<Longrightarrow> silent I (mapE xs f)"
  by (induction xs) (auto intro!: silent_andThen)

lemma silentI:
  assumes "keeps I m" and "conserves (\<lambda>s. posted (w_net s)) m" and "\<And>s. I s \<Longrightarrow> \<exists>x. fst (m s) = Inr x"
  shows "silent I m"
  unfolding silent_def
proof (intro allI impI)
  fix s assume s: "I s"
  obtain r t where m: "m s = (r, t)" by fastforce
  have "posted (w_net t) = posted (w_net s)"
    using assms(2) [unfolded conserves_def, rule_format, of s] by (simp add: m)
  then show "wp m (\<lambda>r t. (\<exists>x. r = Inr x) \<and> I t \<and> posted (w_net t) = posted (w_net s)) s"
    using keepsD [OF assms(1) s] assms(3) [OF s] by (simp add: m wp_def)
qed

lemma answers_respond:
  assumes "prints (se_net E)" and "map_of (rb_header b) ''eventType'' = Some (JStr (eventName t))"
  shows "answers (se_net E) so (answerTo t) I (respond E (Some so) st b)"
  unfolding answers_def
  by (intro allI impI wp_mono [OF respond_answered [OF assms]]) (auto intro: answered_mono)

abbreviation wire :: "('w, 'c) world \<Rightarrow> (sock \<times> string) list" where
  "wire s \<equiv> posted (w_net s)"

lemma conserves_wire [simp]:
  "conserves wire (onOut m)" "conserves wire (onSessions f)" "conserves wire (tickW g)"
  "conserves wire (guardGet k)" "conserves wire (exec_prepared E c q)" "conserves wire (commitT E c)"
  "conserves wire (abortT E c)" "conserves wire (acquireW E)"
  by (auto simp: conserves_def onOut_def onSessions_def tickW_def onNet_def guardGet_def andThen_def
      exec_prepared_def commitT_def abortT_def acquireW_def split: prod.split sum.split option.split)

lemma wire_withWork: "conserves wire body \<Longrightarrow> conserves wire (withWork E c body)"
  unfolding withWork_def by (auto intro!: conserves_andThen conserves_scopeExit)

lemmas wire_intros = conserves_andThen conserves_tryCatch wire_withWork conserves_if

lemma conserves_wire_services [simp]:
  "conserves wire (authenticate E c login pw ip ver)"
  "conserves wire (registerAccount E c login pw email ip ver u h)"
  "conserves wire (getCharactersList E c a)" "conserves wire (getCharacterEquipmentPreview E c i)"
  "conserves wire (createCharacter E c o' nm cls race gender)" "conserves wire (deleteCharacter E c o' i)"
proof -
  show "conserves wire (authenticate E c login pw ip ver)"
    unfolding authenticate_def checkUser_def admitUser_def openSession_def checkBan_def probeStatus_def
      hashPasswordW_def storeSession_def
    by (auto simp: Let_def intro!: wire_intros split: option.split)
  show "conserves wire (registerAccount E c login pw email ip ver u h)"
    unfolding registerAccount_def createAccount_def hashPasswordW_def storeSession_def
    by (auto simp: Let_def intro!: wire_intros split: option.split)
  show "conserves wire (getCharactersList E c a)" "conserves wire (getCharacterEquipmentPreview E c i)"
    "conserves wire (createCharacter E c o' nm cls race gender)" "conserves wire (deleteCharacter E c o' i)"
    unfolding getCharactersList_def getCharacterEquipmentPreview_def createCharacter_def
      insertCharacterRow_def initCharacter_def execIf_def deleteCharacter_def
    by (auto intro!: wire_intros split: prod.split option.split)
qed

text \<open>Pings: the timestamps are merged into the header after the fields the handler set.\<close>

lemma getTimestamps_has: "ev_hasTimestamps ev \<Longrightarrow> getTimestamps ev = Inr (ev_timestamps ev)"
  by (simp add: getTimestamps_def)

lemma responseJsonTs_build:
  "\<exists>h b'. responseJsonTs ''success'' ts ms (build b) t = Inr (JObj [(''body'', b'), (''header'', JObj h)]) \<and>
     map_of h ''eventType'' = map_of (rb_header b) ''eventType''"
  by (simp add: responseJsonTs_def responseHeader_obj addTimestampsToHeader_def build_def mirrorErrorCode_def
      Let_def obj_put.simps(2) [of _ _ "''header''"])

lemma pong_answers:
  assumes p: "prints (se_net E)"
  shows "answers (se_net E) so (answerTo PING_CLIENT) I
     (onNet (andThen (genResponseTs (se_net E) ''success'' (build (emptyBody (setTimestamps ts pong))) ts)
        (sendResponse (se_net E) (Some so))))"
  unfolding answers_def
proof (intro allI impI)
  fix s assume "I s"
  let ?N = "se_net E" and ?b = "emptyBody (setTimestamps ts pong)" and ?k = "n_ticks (w_net s)"
  let ?t = "getCurrentTimestamp (ne_puttime ?N) (ne_clock ?N ?k)"
  let ?n = "(w_net s)\<lparr>n_ticks := Suc (Suc ?k)\<rparr>"
  obtain h b' where j: "responseJsonTs ''success'' ?t (ne_clock ?N (Suc ?k)) (build ?b) ts =
      Inr (JObj [(''body'', b'), (''header'', JObj h)])"
    "map_of h ''eventType'' = map_of (rb_header ?b) ''eventType''"
    using responseJsonTs_build by blast
  let ?j = "JObj [(''body'', b'), (''header'', JObj h)]"
  have a: "answerTo PING_CLIENT ?j"
    using j(2) by (simp add: answerTo_def builder_defs setTimestamps_def)
  obtain d where d: "json_dump (ne_json ?N) ?j = Inr d" using p by (auto simp: prints_def)
  have g: "genResponseTs ?N ''success'' (build ?b) ts (w_net s) = (Inr (d @ [CHR 0x0A]), ?n)"
    by (simp add: genResponseTs_def generateResponseMessageTs_def j(1) dumpLine_def d)
  obtain n' where "sendResponse ?N (Some so) (d @ [CHR 0x0A]) ?n = (Inr (), n')"
    "answered ?N so (answerTo PING_CLIENT) (w_net s) n'"
    using send_answered [OF p, of "answerTo PING_CLIENT" ?j ?n "w_net s" "d @ [CHR 0x0A]" so] a d by auto
  then show "wp (onNet (andThen (genResponseTs ?N ''success'' (build ?b) ts) (sendResponse ?N (Some so))))
      (\<lambda>r t. r = Inr () \<and> answered ?N so (answerTo PING_CLIENT) (w_net s) (w_net t)) s"
    by (simp add: wp_def onNet_def g)
qed

text \<open>A connection can be had: \<open>acquire\<close> returns one. It looks at the pool and the database only.\<close>

definition acquires :: "('w, 'c) senv \<Rightarrow> ('w, 'c) world \<Rightarrow> bool" where
  "acquires E s \<longleftrightarrow> (\<exists>k p. acquire (dl_conn (se_db E)) 5000 (w_pool s, w_out s) = (Inr k, p))"

lemma acquires_iff: "acquires E s \<longleftrightarrow> (\<exists>k s1. acquireW E s = (Inr k, s1))"
  by (auto simp: acquires_def acquireW_def split: prod.splits)

lemma answers_catch: "answers N so P I m \<Longrightarrow> answers N so P I (catchVariant m)"
  by (subst answers_def, intro allI impI, drule answersD, assumption) (auto simp: catchVariant_def wp_def)

lemma answers_sessionGuard:
  assumes "prints (se_net E)" and "map_of (rb_header u) ''eventType'' = Some (JStr (eventName t))"
    and "cd_socket d = Some so" and "answers (se_net E) so (answerTo t) I body"
  shows "answers (se_net E) so (answerTo t) I (sessionGuard E (eventName t) u d body)"
  unfolding sessionGuard_def using assms
  by (auto intro!: answers_respond answers_andThen simp: builder_defs)

lemma silent_clientIp: "(\<And>s x. I (s\<lparr>w_net := x\<rparr>) = I s) \<Longrightarrow> silent I (clientIpOf E so)"
  by (auto simp: clientIpOf_def silent_def wp_simps split: option.split)

context server
begin

lemma silent_guardGet: "silent (ready txn n (k # held)) (guardGet k)"
  unfolding silent_def by (auto intro!: guardGet_wp)

lemma silent_services:
  shows "silent (ready txn n held) (authenticate E c login pw ip ver)"
    and "silent (ready txn n held) (registerAccount E c login pw email ip ver u h)"
    and "silent (ready txn n held) (getCharactersList E c a)"
    and "silent (ready txn n held) (getCharacterEquipmentPreview E c i)"
    and "silent (ready txn n held) (createCharacter E c o' nm cls race gender)"
    and "silent (ready txn n held) (deleteCharacter E c o' i)"
proof -
  have total: "\<exists>x. fst (tryCatch m (\<lambda>e. ret (f e)) s) = Inr x" for m :: "(('w, 'c) world, 'x) eff" and f s
    using tryCatch_total [of "\<lambda>e. ret (f e)" m s] by (metis fst_conv ret_app)
  show "silent (ready txn n held) (authenticate E c login pw ip ver)"
    by (rule silentI; (rule keeps_ready_services conserves_wire_services)?; simp add: authenticate_def total)
  show "silent (ready txn n held) (registerAccount E c login pw email ip ver u h)"
  proof (rule silentI)
    fix s assume "ready txn n held s"
    from register_wp [OF this, of c login pw email ip ver u h]
    show "\<exists>x. fst (registerAccount E c login pw email ip ver u h s) = Inr x"
      by (auto simp: wp_def split: prod.splits sum.splits)
  qed auto
  show "silent (ready txn n held) (getCharactersList E c a)"
    by (rule silentI; (rule keeps_ready_services conserves_wire_services)?; simp add: getCharactersList_def total)
  show "silent (ready txn n held) (getCharacterEquipmentPreview E c i)"
    by (rule silentI; (rule keeps_ready_services conserves_wire_services)?; simp add: getCharacterEquipmentPreview_def total)
  show "silent (ready txn n held) (createCharacter E c o' nm cls race gender)"
    by (rule silentI; (rule keeps_ready_services conserves_wire_services)?; simp add: createCharacter_def total)
  show "silent (ready txn n held) (deleteCharacter E c o' i)"
    by (rule silentI; (rule keeps_ready_services conserves_wire_services)?; simp add: deleteCharacter_def total)
qed

lemma released_answers:
  "answers N so P (ready txn n (k # held)) m \<Longrightarrow> answers N so P (ready txn n (k # held)) (scopeExit m (releaseW k))"
  unfolding answers_def wp_scopeExit by simp

lemma guard_answers:
  assumes "\<And>k. answers N so P (ready txn n (k # held)) (body k)"
  shows "answers N so P (\<lambda>s. ready txn n held s \<and> acquires E s) (withGuard E body)"
  unfolding answers_def
proof (intro allI impI)
  fix s assume s: "ready txn n held s \<and> acquires E s"
  then obtain k s1 where a: "acquireW E s = (Inr k, s1)" by (auto simp: acquires_iff)
  have "wp (acquireW E) (\<lambda>r t. case r of Inl e \<Rightarrow> True | Inr k \<Rightarrow> ready txn n (k # held) t \<and> w_net t = w_net s) s"
    by (rule acquire_wp) (use s in auto)
  then have s1: "ready txn n (k # held) s1" "w_net s1 = w_net s" using a by (simp_all add: wp_def)
  have "wp (scopeExit (body k) (releaseW k)) (\<lambda>r t. r = Inr () \<and> answered N so P (w_net s1) (w_net t)) s1"
    using released_answers [OF assms] s1(1) unfolding answers_def by blast
  then show "wp (withGuard E body) (\<lambda>r t. r = Inr () \<and> answered N so P (w_net s) (w_net t)) s"
    by (simp add: withGuard_def wp_def a s1(2))
qed

text \<open>Every request but the creation options and the disconnect ends in one answer once it has a connection.\<close>

lemma login_answers:
  assumes p: "prints (se_net E)" and d: "ev_data ev = ED_client d" "cd_socket d = Some so"
  shows "answers (se_net E) so (answerTo AUTH_CLIENT) (\<lambda>s. ready txn n held s \<and> acquires E s)
    (handleAuthentificateClientEvent E ev)"
proof -
  have body: "answers (se_net E) so (answerTo AUTH_CLIENT) (ready txn n (k # held)) (authenticateClient E k d)" for k
    unfolding authenticateClient_def d(2)
    by (auto intro!: answers_andThen silent_clientIp silent_guardGet silent_services answers_if answers_respond p
        simp: builder_defs)
  have same: "andThen (tryCatch (andThen (acquireW E) (\<lambda>k. ret (Some k))) (\<lambda>ex. andThen err (\<lambda>_. ret None)))
      (case_option (ret ()) (\<lambda>k. scopeExit (authenticateClient E k d) (releaseW k))) s =
      withGuard E (\<lambda>k. authenticateClient E k d) s"
    if "acquires E s" for s err
    using that by (auto simp: acquires_iff withGuard_def)
  then show ?thesis
    using guard_answers [where body = "\<lambda>k. authenticateClient E k d", OF body]
    unfolding handleAuthentificateClientEvent_def withClient_def d(1) EventData.case
    by (intro answers_catch) (simp add: answers_def wp_def same)
qed

lemma register_answers:
  assumes p: "prints (se_net E)" and d: "ev_data ev = ED_registration g" "reg_socket g = Some so"
  shows "answers (se_net E) so (answerTo REGISTER_ACCOUNT) (\<lambda>s. ready txn n held s \<and> acquires E s)
    (handleRegisterAccountEvent E ev)"
proof -
  have m: "answers (se_net E) so (answerTo REGISTER_ACCOUNT) (\<lambda>s. ready txn n held s \<and> acquires E s) (registerClient E g)"
    unfolding registerClient_def d(2)
    by (auto intro!: guard_answers answers_andThen silent_guardGet silent_services answers_if answers_respond p
        simp: builder_defs split: prod.split)
  have "answers N so' P I (tryCatch m h)" if "answers N so' P I m" for N so' P I m
    and h :: "exn \<Rightarrow> (('w, 'c) world, unit) eff"
    by (subst answers_def, intro allI impI, drule answersD [OF that]) (auto simp: wp_def)
  then show ?thesis using m by (simp add: handleRegisterAccountEvent_def d)
qed

lemma session_answers:
  assumes p: "prints (se_net E)" and d: "ev_data ev = ED_client d" "cd_socket d = Some so"
  shows "answers (se_net E) so (answerTo GET_CHARACTERS_LIST) (\<lambda>s. ready txn n held s \<and> acquires E s)
      (handleGetCharactersListEvent E ev)"
    and "answers (se_net E) so (answerTo CREATE_CHARACTER) (\<lambda>s. ready txn n held s \<and> acquires E s)
      (handleCreateCharacterEvent E ev)"
    and "answers (se_net E) so (answerTo DELETE_CHARACTER) (\<lambda>s. ready txn n held s \<and> acquires E s)
      (handleDeleteCharacterEvent E ev)"
    and "answers (se_net E) so (answerTo PING_CLIENT) (\<lambda>s. True) (handlePingClientEvent E ev)"
proof -
  note rules = answers_catch guard_answers answers_andThen silent_guardGet silent_services answers_if
    answers_respond p
  have guard: "answers (se_net E) so (answerTo t) I (sessionGuard E et u d body)"
    if "et = eventName t" "map_of (rb_header u) ''eventType'' = Some (JStr (eventName t))"
      "answers (se_net E) so (answerTo t) I body" for et t u body I
    using answers_sessionGuard [OF p that(2) d(2) that(3)] that(1) by simp
  have ping: "map_of (rb_header (emptyBody pong)) ''eventType'' = Some (JStr (eventName PING_CLIENT))"
    by (simp add: builder_defs)
  have touch: "silent (\<lambda>s. ready txn n held s \<and> acquires E s) (onSessions f)"
    "silent (\<lambda>s. ready txn n held s \<and> acquires E s) (tickW g)" for f g
    by (auto simp: silent_def wp_simps acquires_def)
  show "answers (se_net E) so (answerTo GET_CHARACTERS_LIST) (\<lambda>s. ready txn n held s \<and> acquires E s)
      (handleGetCharactersListEvent E ev)"
    unfolding handleGetCharactersListEvent_def listCharacters_def withClient_def d EventData.case characterJson_def
    by (auto intro!: rules guard touch silent_mapE silent_andThen simp: builder_defs split: option.split)
  show "answers (se_net E) so (answerTo CREATE_CHARACTER) (\<lambda>s. ready txn n held s \<and> acquires E s)
      (handleCreateCharacterEvent E ev)"
    unfolding handleCreateCharacterEvent_def withClient_def d EventData.case Let_def
    by (auto intro!: rules guard simp: builder_defs)
  show "answers (se_net E) so (answerTo DELETE_CHARACTER) (\<lambda>s. ready txn n held s \<and> acquires E s)
      (handleDeleteCharacterEvent E ev)"
    unfolding handleDeleteCharacterEvent_def withClient_def d EventData.case Let_def
    by (auto intro!: rules guard simp: builder_defs)
  show "answers (se_net E) so (answerTo PING_CLIENT) (\<lambda>s. True) (handlePingClientEvent E ev)"
    unfolding handlePingClientEvent_def withClient_def d EventData.case
    by (cases "ev_hasTimestamps ev")
       (auto intro!: answers_catch answers_andThen answers_respond [OF p ping] pong_answers p
         simp: getTimestamps_has silent_def wp_simps split: option.split)
qed

end

text \<open>And when no connection can be had.\<close>

definition noConnection :: "('w, 'c) senv \<Rightarrow> ('w, 'c) world \<Rightarrow> bool" where
  "noConnection E s \<longleftrightarrow> (\<exists>e p. acquire (dl_conn (se_db E)) 5000 (w_pool s, w_out s) = (Inl e, p))"

lemma acquire_fails_wp:
  assumes "noConnection E s" and "\<And>e t. w_net t = w_net s \<Longrightarrow> R (Inl e) t"
  shows "wp (acquireW E) R s"
  using assms by (auto simp: noConnection_def acquireW_def wp_def split: prod.splits)

lemma guard_fails_wp:
  assumes "noConnection E s" and "\<And>e t. w_net t = w_net s \<Longrightarrow> R (Inl e) t"
  shows "wp (withGuard E body) R s"
  unfolding withGuard_def wp_andThen by (rule acquire_fails_wp [OF assms(1)]) (simp add: assms(2))

lemma wire_kept_catch: "wp m (\<lambda>r t. wire t = x) s \<Longrightarrow> wp (catchVariant m) (\<lambda>r t. wire t = x) s"
  unfolding catchVariant_def wp_tryCatch by (erule wp_mono) (auto simp: wp_simps split: sum.split)

lemma sessionGuard_valid:
  "validateSession (cd_clientId d) (cd_hash d) (w_sessions s) \<Longrightarrow> wp body R s \<Longrightarrow> wp (sessionGuard E et u d body) R s"
  by (simp add: sessionGuard_def wp_simps validateSession_iff)

lemma unanswered:
  assumes d: "ev_data ev = ED_client d" and v: "validateSession (cd_clientId d) (cd_hash d) (w_sessions s)"
    and f: "noConnection E s"
    and t: "ev_type ev \<in> {GET_CHARACTERS_LIST, CREATE_CHARACTER, GET_CHARACTER_CREATION_OPTIONS} \<or>
      ev_type ev = DELETE_CHARACTER \<and> 0 < ch_characterId (cd_characterData d)"
  shows "wp (dispatchEvent E ev) (\<lambda>r t. wire t = wire s) s"
proof -
  have f': "noConnection E (s\<lparr>w_net := x, w_sessions := y\<rparr>)" for x y using f by (simp add: noConnection_def)
  have list: "wp (handleGetCharactersListEvent E ev) (\<lambda>r t. wire t = wire s) s"
    unfolding handleGetCharactersListEvent_def withClient_def d EventData.case listCharacters_def
    by (intro wire_kept_catch sessionGuard_valid [OF v])
       (use v f' in \<open>auto simp: wp_simps validateSession_iff getClientData_def map_of_touch
          intro!: guard_fails_wp\<close>)
  have create: "wp (handleCreateCharacterEvent E ev) (\<lambda>r t. wire t = wire s) s"
    unfolding handleCreateCharacterEvent_def withClient_def d EventData.case
    by (intro wire_kept_catch sessionGuard_valid [OF v] guard_fails_wp [OF f]) simp
  have delete: "0 < ch_characterId (cd_characterData d) \<Longrightarrow>
      wp (handleDeleteCharacterEvent E ev) (\<lambda>r t. wire t = wire s) s"
    unfolding handleDeleteCharacterEvent_def withClient_def d EventData.case Let_def
    by (intro wire_kept_catch sessionGuard_valid [OF v]) (auto intro!: guard_fails_wp [OF f])
  have options: "wp (handleGetCharacterCreationOptionsEvent E ev) (\<lambda>r t. wire t = wire s) s"
    unfolding handleGetCharacterCreationOptionsEvent_def withClient_def d EventData.case wp_tryCatch
    by (intro sessionGuard_valid [OF v] guard_fails_wp [OF f]) (simp add: wp_simps)
  show ?thesis using t list create delete options by (auto simp: dispatchEvent_def)
qed

lemma respond_reports:
  assumes "prints (se_net E)" and "map_of (rb_header b) ''eventType'' = Some (JStr (eventName t))"
    and "map_of (rb_header b) ''message'' = Some (JStr code)" and "map_of (rb_body b) ''errorCode'' = None"
    and "w_net s1 = w_net s"
  shows "wp (respond E (Some so) ''error'' b)
    (\<lambda>r t. r = Inr () \<and> answered (se_net E) so (reports code) (w_net s) (w_net t)) s1"
  by (rule wp_mono [OF respond_answered [OF assms(1,2), where s = s1]])
     (use assms(3-5) in \<open>auto intro: answered_mono\<close>)

lemma login_unreachable:
  assumes p: "prints (se_net E)" and t: "ev_type ev = AUTH_CLIENT"
    and d: "ev_data ev = ED_client d" "cd_socket d = Some so" and n: "noConnection E s"
  shows "wp (dispatchEvent E ev) (\<lambda>r t. answered (se_net E) so (reports ''ERR_DB'') (w_net s) (w_net t)) s"
proof -
  have rep: "wp (respond E (Some so) ''error'' (emptyBody (authReply ''ERR_DB'' d)))
      (\<lambda>r t. r = Inr () \<and> answered (se_net E) so (reports ''ERR_DB'') (w_net s) (w_net t)) s1"
    if "w_net s1 = w_net s" for s1
    by (rule respond_reports [OF p, where t = AUTH_CLIENT]) (simp_all add: builder_defs that)
  show ?thesis
    by (auto simp: dispatchEvent_def t handleAuthentificateClientEvent_def withClient_def d catchVariant_def wp_simps
        intro!: acquire_fails_wp [OF n] wp_mono [OF rep] split: sum.split)
qed

lemma register_unreachable:
  assumes p: "prints (se_net E)" and t: "ev_type ev = REGISTER_ACCOUNT"
    and g: "ev_data ev = ED_registration g" "reg_socket g = Some so" and n: "noConnection E s"
  shows "wp (dispatchEvent E ev) (\<lambda>r t. answered (se_net E) so (reports ''ERR_INTERNAL'') (w_net s) (w_net t)) s"
proof -
  have rep: "wp (respond E (Some so) ''error'' (emptyBody (reply ''ERR_INTERNAL'' [] 0 ''registerAccount'')))
      (\<lambda>r t. r = Inr () \<and> answered (se_net E) so (reports ''ERR_INTERNAL'') (w_net s) (w_net t)) s1"
    if "w_net s1 = w_net s" for s1
    by (rule respond_reports [OF p, where t = REGISTER_ACCOUNT]) (simp_all add: builder_defs that)
  show ?thesis
    by (auto simp: dispatchEvent_def t handleRegisterAccountEvent_def registerClient_def g wp_simps
        intro!: guard_fails_wp [OF n] wp_mono [OF rep] split: sum.split)
qed

text \<open>The broadcast of a disconnect reaches nobody: no session ever holds a socket.\<close>

lemma wp_gen:
  "wp (genResponse N st j) R n =
     R (generateResponseMessage (ne_json N) (getCurrentTimestamp (ne_puttime N) (ne_clock N (n_ticks n))) st j)
       (n\<lparr>n_ticks := Suc (n_ticks n)\<rparr>)"
  by (simp add: wp_def genResponse_result)

lemma disconnect_reaches_nobody:
  assumes "no_sockets (w_sessions s)" and "ev_type ev = DISCONNECT_CLIENT"
  shows "wire (snd (dispatchEvent E ev s)) = wire s"
proof -
  have send: "forEach cs (\<lambda>(i, client). onNet (sendResponse (se_net E) (cd_socket client) line)) t = (Inr (), t)"
    if "no_sockets cs" for cs line and t :: "('a, 'b) world"
    using that by (induction cs) (auto simp: no_sockets_def onNet_def sendResponse_null)
  have cast: "wp (broadcast E line) (\<lambda>r t. wire t = x) t" if "no_sockets (w_sessions t)" "wire t = x" for line x
    and t :: "('a, 'b) world"
    using that send [of "w_sessions t" line t] unfolding broadcast_def getClientsDataMap_def
    by (simp add: wp_def)
  have "wp (dispatchEvent E ev) (\<lambda>r t. wire t = wire s) s"
    using assms
    by (auto simp: dispatchEvent_def handleDisconnectClientEvent_def withClient_def wp_simps wp_gen
        no_sockets_remove intro!: wire_kept_catch cast split: EventData.split sum.split)
  then show ?thesis by (simp add: wp_def case_prod_beta)
qed

text \<open>A token that is not the session's: only the network is used.\<close>

lemma invalid_session:
  assumes d: "ev_data ev = ED_client d" and shape: "hasSession d"
    and t: "ev_type ev \<noteq> AUTH_CLIENT" "ev_type ev \<noteq> PING_CLIENT"
    and v: "\<not> validateSession (cd_clientId d) (cd_hash d) (w_sessions s)"
  shows "w_sessions (snd (dispatchEvent E ev s)) = w_sessions s \<and> w_pool (snd (dispatchEvent E ev s)) = w_pool s \<and>
    w_out (snd (dispatchEvent E ev s)) = w_out s"
proof -
  let ?K = "\<lambda>t. w_sessions t = w_sessions s \<and> w_pool t = w_pool s \<and> w_out t = w_out s"
  have K: "keeps ?K (onNet m)" for m :: "(services, 'x) eff" by (rule keeps_lifted) simp
  have guard: "?K (snd (sessionGuard E et u d body s))" for et u body
    using v shape keepsD [OF K, of s] by (simp add: sessionGuard_def andThen_def hasSession_def respond_def)
  have cast: "?K (snd (andThen (onNet (genResponse (se_net E) ''success'' j)) (broadcast E) s))" for j
    unfolding broadcast_def
    by (rule keepsD [of ?K], intro keeps_andThen K keeps_forEach keeps_readS) (auto intro!: K)
  have catch: "?K (snd (m s)) \<Longrightarrow> ?K (snd (catchVariant m s))" "?K (snd (m s)) \<Longrightarrow> ?K (snd (tryCatch m (\<lambda>e. ret ()) s))" for m
    by (auto simp: catchVariant_def tryCatch_def split: prod.splits sum.splits)
  have "?K (snd (handleDisconnectClientEvent E ev s))"
    using v shape cast
    by (auto simp: handleDisconnectClientEvent_def withClient_def d hasSession_def intro!: catch)
  then show ?thesis
    using t guard
    by (cases "ev_type ev")
       (simp_all add: dispatchEvent_def handleGetCharactersListEvent_def handleCreateCharacterEvent_def
          handleDeleteCharacterEvent_def handleGetCharacterCreationOptionsEvent_def withClient_def d catch
          handleRegisterAccountEvent_def)
qed

section \<open>Properties\<close>

text \<open>C2: what a queued session request may do. If its token is not the session's, nothing but an error answer
  happens: registry, pool and database are exactly as before. If it is, only that account is affected:
  the users, every other account's characters and every other session stay, whatever the request is.\<close>

theorem session_required:
  assumes "server E Q db txn" and "ready txn n held s" and "catalogue_ok (db (w_out s))"
    and "admissible (se_net E) so ev" and "ev_data ev = ED_client d"
    and "ev_type ev \<noteq> AUTH_CLIENT" and "ev_type ev \<noteq> PING_CLIENT"
    and "dispatchEvent E ev s = (r, s')"
  shows "(\<not> validateSession (cd_clientId d) (cd_hash d) (w_sessions s) \<longrightarrow>
            w_sessions s' = w_sessions s \<and> w_pool s' = w_pool s \<and> w_out s' = w_out s) \<and>
     (\<forall>other. other \<noteq> cd_clientId d \<longrightarrow>
        liveOf other (db (w_out s')) = liveOf other (db (w_out s)) \<and>
        map_of (w_sessions s') other = map_of (w_sessions s) other) \<and>
     d_users (db (w_out s')) = d_users (db (w_out s)) \<and> n_queue (w_net s') = n_queue (w_net s)"
proof -
  have shape: "hasSession d"
    using assms(4-7) by (auto simp: admissible_def Let_def split: EventType.splits)
  have "\<not> validateSession (cd_clientId d) (cd_hash d) (w_sessions s) \<longrightarrow>
      w_sessions s' = w_sessions s \<and> w_pool s' = w_pool s \<and> w_out s' = w_out s"
    using invalid_session [OF assms(5) shape assms(6,7), of s E] assms(8) by simp
  moreover have "server.within db txn n (cd_clientId d) s held s'"
    using keepsD [OF server.dispatch_within [OF assms(1,5)], of n s held s] assms
    by (simp add: server.within_def [OF assms(1)] ownEffect_def)
  ultimately show ?thesis
    using assms(8) by (auto simp: server.within_def [OF assms(1)] ownEffect_def)
qed

text \<open>Account 7 is logged in with token \<open>tok\<close>; its character is number 5.\<close>

definition sessionWorld :: "(rel, nat) world" where
  "sessionWorld = (relWorld oneCharacter [])\<lparr>w_sessions :=
     [(7, newClient\<lparr>cd_clientId := 7, cd_login := ''ann'', cd_hash := ''tok''\<rparr>)]\<rparr>"

definition askDelete :: "int \<Rightarrow> string \<Rightarrow> ClientDataStruct" where
  "askDelete i hash = newClient\<lparr>cd_clientId := i, cd_hash := hash, cd_socket := Some 3,
     cd_characterData := newCharacter\<lparr>ch_characterId := 5\<rparr>\<rparr>"

lemma sessionWorld_ready: "ready relTxn 1 [] sessionWorld"
  using relWorld_ready by (simp add: sessionWorld_def ready_def)

lemma sessionWorld_catalogue: "catalogue_ok (rl_db (w_out sessionWorld))"
  by (simp add: catalogue_ok_def sessionWorld_def oneCharacter_def demoCatalogue_def noTables_def relWorld_def)

lemma askDelete_admissible:
  assumes "i \<in> {7, 8}" and "hash \<noteq> []"
  shows "admissible (se_net (relServer f)) 3 (clientEvent DELETE_CHARACTER (askDelete i hash) 3 newTimestamp)"
  using assms by (auto simp: admissible_client askDelete_def hasSession_def newClient_def in_int_def INT_MIN_def INT_MAX_def)

lemma clientEvent_sel [simp]:
  "ev_data (clientEvent t c s ts) = ED_client c" "ev_type (clientEvent t c s ts) = t"
  by (simp_all add: clientEvent_def)

theorem session_required_witness:
  "w_out (snd (dispatchEvent (relServer True) (clientEvent DELETE_CHARACTER (askDelete 7 ''bad'') 3 newTimestamp)
     sessionWorld)) = w_out sessionWorld \<and>
   liveOf 7 (rl_db (w_out (snd (dispatchEvent (relServer True)
     (clientEvent DELETE_CHARACTER (askDelete 8 ''tok'') 3 newTimestamp) sessionWorld)))) \<noteq> []"
proof -
  let ?r = "\<lambda>i h. dispatchEvent (relServer True) (clientEvent DELETE_CHARACTER (askDelete i h) 3 newTimestamp) sessionWorld"
  note req = session_required [OF rel_server.server_axioms sessionWorld_ready sessionWorld_catalogue
      askDelete_admissible [where f = True] clientEvent_sel(1)]
  have "\<not> validateSession (cd_clientId (askDelete 7 ''bad'')) (cd_hash (askDelete 7 ''bad'')) (w_sessions sessionWorld)"
    by (simp add: askDelete_def sessionWorld_def validateSession_iff)
  then have "w_out (snd (?r 7 ''bad'')) = w_out sessionWorld"
    using req [of 7 "''bad''" "fst (?r 7 ''bad'')" "snd (?r 7 ''bad'')"] by simp
  moreover have "liveOf 7 (rl_db (w_out (snd (?r 8 ''tok'')))) = liveOf 7 (rl_db (w_out sessionWorld))"
    using req [of 8 "''tok''" "fst (?r 8 ''tok'')" "snd (?r 8 ''tok'')"] by (simp add: askDelete_def)
  ultimately show ?thesis by (simp add: sessionWorld_def relWorld_def oneCharacter_def liveOf_def)
qed


lemma demo_prints: "prints (se_net (relServer f))"
  using demoEnv_dumps by (auto simp: dumps_def prints_def relServer_def)

lemma sessionWorld_acquires: "acquires (relServer False) sessionWorld"
  by (simp add: acquires_def sessionWorld_def relWorld_def relServer_def rel_defs acquire_def healthy_def
      onPool_def onWorld_def andThen_def tryCatch_def connectionAt_def)



text \<open>All of the pool's connections are taken.\<close>

definition exhaustedWorld :: "(rel, nat) world" where
  "exhaustedWorld = sessionWorld\<lparr>w_pool := (w_pool sessionWorld)\<lparr>pl_available := []\<rparr>\<rparr>"


end
