(* ===== verification/Server.thy ===== *)
theory Server
  imports Handlers Workers
begin

text \<open>
  \<open>LoginServer\<close> (\<open>src/login_server/LoginServer.cpp\<close>) and \<open>main\<close> (\<open>src/main.cpp\<close>): the event loop that hands
  batches to the thread pool and cleans up when idle, start, stop and the ordered shutdown. The loop's
  thread, the workers and the socket threads interleave as steps; here a handler is one step of the
  worker that runs it, which theory \<open>Interleaving\<close> refines to its moves.
\<close>

section \<open>State\<close>

datatype loop_state = NotStarted | Looping | LoopEnded

record ('w, 'c) lserver =
  ls_world :: "('w, 'c) world"
  ls_tasks :: "Event thread_pool"
  ls_running :: bool
  ls_loop :: loop_state

definition newLoginServer :: "nat \<Rightarrow> ('w, 'c) world \<Rightarrow> ('w, 'c) lserver" where
  "newLoginServer hardware_concurrency w =
     \<lparr>ls_world = w, ls_tasks = newThreadPool hardware_concurrency, ls_running = True, ls_loop = NotStarted\<rparr>"

section \<open>Batches\<close>

text \<open>The task: the handler's exceptions end here.\<close>

definition runTask :: "('w, 'c) senv \<Rightarrow> Event \<Rightarrow> (('w, 'c) world, unit) eff" where
  "runTask E eventCopy = tryCatch (dispatchEvent E eventCopy) (\<lambda>e. ret ())"

text \<open>The lambda takes the overload that gives a future, which is dropped.\<close>

definition safeEnqueue :: "Event \<Rightarrow> Event thread_pool \<Rightarrow> Event thread_pool" where
  "safeEnqueue eventCopy p = (case enqueueFuture eventCopy p of Inl e \<Rightarrow> p | Inr (future, p') \<Rightarrow> p')"

text \<open>The separation of pings is commented out: no event is a priority event.\<close>

definition processBatch :: "Event list \<Rightarrow> Event thread_pool \<Rightarrow> Event thread_pool" where
  "processBatch eventsBatch p =
     (let priorityEvents = []; normalEvents = eventsBatch
      in fold safeEnqueue normalEvents (fold safeEnqueue priorityEvents p))"

section \<open>The event loop\<close>

definition BATCH_SIZE :: int where "BATCH_SIZE = 10"

text \<open>
  What an idle iteration does: expired sessions in the database, idle sessions in memory, write queues
  of dead sockets. The version statistics and the pool's health are only logged.
\<close>

definition cleanupDatabase :: "('w, 'c) senv \<Rightarrow> (('w, 'c) world, unit) eff" where
  "cleanupDatabase E =
     tryCatch
       (withGuard E (\<lambda>k. andThen (guardGet k) (\<lambda>c.
          withWork E c (andThen (exec_prepared E c CleanupExpiredSessions) (\<lambda>_. commitT E c)))))
       (\<lambda>ex. ret ())"

definition sweepSessions :: "('w, 'c) senv \<Rightarrow> int \<Rightarrow> (('w, 'c) world, unit) eff" where
  "sweepSessions E intervalMs =
     andThen (tickW (se_steady E)) (\<lambda>now.
       onSessions (\<lambda>m. snd (sweepExpiredSessions now (int32 (2 * intervalMs)) m)))"

definition periodicCleanup :: "('w, 'c) senv \<Rightarrow> int \<Rightarrow> (('w, 'c) world, unit) eff" where
  "periodicCleanup E intervalMs =
     andThen (cleanupDatabase E) (\<lambda>_.
     andThen (sweepSessions E intervalMs) (\<lambda>_.
       onNet (updS (\<lambda>n. n\<lparr>n_io := gcWriteQueues (n_io n)\<rparr>))))"

definition setQueueW :: "Event event_queue \<Rightarrow> ('w, 'c) world \<Rightarrow> ('w, 'c) world" where
  "setQueueW q w = w\<lparr>w_net := (w_net w)\<lparr>n_queue := q\<rparr>\<rparr>"

text \<open>
  One round of the \<open>while\<close>, at the moment \<open>tryPopBatch\<close> stops waiting. An exception of \<open>tryPopBatch\<close>
  is caught outside the loop and ends it.
\<close>

definition loopIteration :: "('w, 'c) senv \<Rightarrow> int \<Rightarrow> ('w, 'c) lserver \<Rightarrow> ('w, 'c) lserver" where
  "loopIteration E intervalMs st =
     (if ls_loop st \<noteq> Looping then st
      else if \<not> ls_running st then st\<lparr>ls_loop := LoopEnded\<rparr>
      else case tryPopBatch [] BATCH_SIZE (n_queue (w_net (ls_world st))) of
          Inl e \<Rightarrow> st\<lparr>ls_loop := LoopEnded\<rparr>
        | Inr (popped, eventsBatch, q) \<Rightarrow>
            if popped then
              st\<lparr>ls_world := setQueueW q (ls_world st), ls_tasks := processBatch eventsBatch (ls_tasks st)\<rparr>
            else
              st\<lparr>ls_world := snd (periodicCleanup E intervalMs (setQueueW q (ls_world st)))\<rparr>)"

definition startMainEventLoop :: "('w, 'c) lserver \<Rightarrow> ('w, 'c) lserver" where
  "startMainEventLoop st = (if ls_loop st \<noteq> NotStarted then st else st\<lparr>ls_loop := Looping\<rparr>)"

definition stopEventQueue :: "('w, 'c) lserver \<Rightarrow> ('w, 'c) lserver" where
  "stopEventQueue st =
     st\<lparr>ls_world := setQueueW (stopQueue (n_queue (w_net (ls_world st)))) (ls_world st)\<rparr>"

definition stopServer :: "('w, 'c) lserver \<Rightarrow> ('w, 'c) lserver" where
  "stopServer st = stopEventQueue (st\<lparr>ls_running := False\<rparr>)"

section \<open>Workers\<close>

text \<open>A move of worker \<open>i\<close>: the end of a task is where its handler takes effect.\<close>

definition workerMove :: "('w, 'c) senv \<Rightarrow> nat \<Rightarrow> ('w, 'c) lserver \<Rightarrow> ('w, 'c) lserver option" where
  "workerMove E i st =
     (case workerStep i (ls_tasks st) of
        None \<Rightarrow> None
      | Some p \<Rightarrow>
          Some (st\<lparr>ls_tasks := p,
                   ls_world := (case tp_workers (ls_tasks st) ! i of
                      Running ev \<Rightarrow> snd (runTask E ev (ls_world st))
                    | _ \<Rightarrow> ls_world st)\<rparr>))"

text \<open>
  The server at work: \<open>served E ms n w ps st\<close> when, from the world \<open>w\<close> with \<open>n\<close> workers, the socket
  threads have pushed \<open>ps\<close> so far. Events are pushed one by one, each right after it was accepted;
  what else the socket threads do to the network services is any change that leaves the queue alone.
\<close>

inductive served ::
  "('w, 'c) senv \<Rightarrow> int \<Rightarrow> nat \<Rightarrow> ('w, 'c) world \<Rightarrow> Event list \<Rightarrow> ('w, 'c) lserver \<Rightarrow> bool"
  for E intervalMs n w where
  Made: "served E intervalMs n w [] (newLoginServer n w)"
| Started: "served E intervalMs n w ps st \<Longrightarrow> served E intervalMs n w ps (startMainEventLoop st)"
| Pushed: "served E intervalMs n w ps st \<Longrightarrow>
     served E intervalMs n w (ps @ [e])
       (st\<lparr>ls_world := setQueueW (pushEvent e (n_queue (w_net (ls_world st)))) (ls_world st)\<rparr>)"
| Networked: "served E intervalMs n w ps st \<Longrightarrow> n_queue x = n_queue (w_net (ls_world st)) \<Longrightarrow>
     served E intervalMs n w ps (st\<lparr>ls_world := (ls_world st)\<lparr>w_net := x\<rparr>\<rparr>)"
| Looped: "served E intervalMs n w ps st \<Longrightarrow> served E intervalMs n w ps (loopIteration E intervalMs st)"
| Moved: "served E intervalMs n w ps st \<Longrightarrow> workerMove E i st = Some st' \<Longrightarrow> served E intervalMs n w ps st'"
| Stopped: "served E intervalMs n w ps st \<Longrightarrow> served E intervalMs n w ps (stopServer st)"

text \<open>The moves that serve what was pushed: the loop takes a batch, or a worker moves.\<close>

inductive serve_step :: "('w, 'c) senv \<Rightarrow> int \<Rightarrow> ('w, 'c) lserver \<Rightarrow> ('w, 'c) lserver \<Rightarrow> bool" for E intervalMs where
  Take: "q_items (n_queue (w_net (ls_world st))) \<noteq> [] \<Longrightarrow> serve_step E intervalMs st (loopIteration E intervalMs st)"
| Work: "workerMove E i st = Some st' \<Longrightarrow> serve_step E intervalMs st st'"

inductive_simps serve_step_iff: "serve_step E intervalMs st st'"

text \<open>A queued event weighs more than a waiting task, and that more than a running one.\<close>

definition todo :: "('w, 'c) lserver \<Rightarrow> nat" where
  "todo st = 3 * length (q_items (n_queue (w_net (ls_world st)))) + workLeft (ls_tasks st)"

section \<open>main\<close>

text \<open>
  The acceptor: the error code each call leaves, \<open>listen\<close> being told whether \<open>bind\<close> had succeeded
  (a stream socket that is not bound may be given a port by \<open>listen\<close>).
\<close>

record acceptor_lib =
  ac_is_address :: "string \<Rightarrow> bool"
  ac_open :: "string option"
  ac_set_option :: "string option"
  ac_bind :: "string \<Rightarrow> int \<Rightarrow> string option"
  ac_listen :: "bool \<Rightarrow> int \<Rightarrow> string option"

text \<open>The constructor: the last error code, which is only logged; each call overwrites \<open>ec\<close>.\<close>

definition newNetworkManager :: "acceptor_lib \<Rightarrow> LoginServerConfig \<Rightarrow> exn + string option" where
  "newNetworkManager A cfg =
     (if \<not> ac_is_address A (ls_host cfg) then Inl (RuntimeError ''Invalid argument'')
      else let bindEc = ac_bind A (ls_host cfg) (ls_port cfg)
        in Inr (acceptorSetup (ac_open A) (ac_set_option A) bindEc
             (ac_listen A (bindEc = None) (ls_max_clients cfg))))"

record startup =
  su_env :: environment
  su_jsonPath :: string
  su_file :: "string option"
  su_acceptor :: acceptor_lib
  su_hardware :: nat

record ('w, 'c) process =
  pr_server :: "('w, 'c) lserver"
  pr_conns :: conns

text \<open>
  Up to the two \<open>start\<close> calls. \<open>None\<close> would be a retry loop that does not end; 301 attempts are enough.
  The server is built whether or not the acceptor could be set up.
\<close>

definition startUp ::
  "startup \<Rightarrow> ('w, 'c) senv \<Rightarrow> 'w \<Rightarrow> ((exn + LoginServerConfig \<times> ('w, 'c) process) \<times> 'w) option" where
  "startUp S E w =
     (case parseConfig (ne_json (se_net E)) (su_env S) (su_jsonPath S) (su_file S) of
        Inl e \<Rightarrow> Some (Inl e, w)
      | Inr (dbConfig, cfg) \<Rightarrow>
          (case newNetworkManager (su_acceptor S) cfg of
             Inl e \<Rightarrow> Some (Inl e, w)
           | Inr ec \<Rightarrow>
               (case createWithRetry 301 (dl_conn (se_db E)) dbConfig 5 (connectTimeoutFromEnv (su_env S)) w of
                  None \<Rightarrow> None
                | Some (Inl e, w') \<Rightarrow> Some (Inl e, w')
                | Some (Inr pool, w') \<Rightarrow>
                    let started = startIOEventLoop (su_hardware S) (newConns, newServices);
                        world = \<lparr>w_sessions = [], w_pool = pool, w_out = w', w_net = snd (snd started)\<rparr>
                    in Some (Inr (cfg, \<lparr>pr_server = startMainEventLoop (newLoginServer (su_hardware S) world),
                                        pr_conns = fst (snd started)\<rparr>), w'))))"

text \<open>
  After the signal: \<open>loginServer.stop()\<close>, \<open>eventQueueLoginServer.stop()\<close>, \<open>stopIO()\<close>, \<open>drain()\<close>; \<open>late\<close>
  are the events the I/O threads push before \<open>stopIO\<close> has joined them.
\<close>

definition shutDown :: "Event list \<Rightarrow> ('w, 'c) process \<Rightarrow> (exn + ('w, 'c) process) wait" where
  "shutDown late p =
     (let st = stopEventQueue (stopServer (pr_server p));
          w = setQueueW (pushBatch late (n_queue (w_net (ls_world st)))) (ls_world st);
          (cs, net) = stopIO (pr_conns p, w_net w)
      in case drain (n_queue net) of
           Blocks \<Rightarrow> Blocks
         | Done (Inl e) \<Rightarrow> Done (Inl e)
         | Done (Inr q) \<Rightarrow>
             Done (Inr \<lparr>pr_server = st\<lparr>ls_world := setQueueW q (w\<lparr>w_net := net\<rparr>)\<rparr>, pr_conns = cs\<rparr>))"

text \<open>The exit code: 0 after the shutdown, 1 after a \<open>std::exception\<close>.\<close>

definition exitCode :: "exn + 'a \<Rightarrow> int" where
  "exitCode r = (case r of Inl e \<Rightarrow> 1 | Inr x \<Rightarrow> 0)"

text \<open>The members of \<open>LoginServer\<close> in declaration order; they are destroyed in the reverse order.\<close>

definition members :: "string list" where
  "members = [''running_'', ''eventCondition'', ''threadPool_'', ''event_thread_'', ''clientData_'', ''logger_'',
     ''log_'', ''eventQueueLoginServer_'', ''eventHandler_'', ''networkManager_'', ''characterManager_'',
     ''pool_'', ''serverConfig_'']"

section \<open>Handlers do not touch the event queue\<close>

abbreviation evq :: "('w, 'c) world \<Rightarrow> Event event_queue" where
  "evq s \<equiv> n_queue (w_net s)"

lemma conserves_evq [simp]:
  "conserves evq (onOut m)" "conserves evq (onSessions f)" "conserves evq (tickW g)"
  "conserves evq (guardGet k)" "conserves evq (exec_prepared E c q)" "conserves evq (commitT E c)"
  "conserves evq (abortT E c)" "conserves evq (acquireW E)"
  by (auto simp: conserves_def onOut_def onSessions_def tickW_def onNet_def guardGet_def andThen_def
      exec_prepared_def commitT_def abortT_def acquireW_def split: prod.split sum.split option.split)

lemma evq_respond [simp]: "conserves evq (respond E so st b)"
  unfolding conserves_def
proof
  fix s
  show "evq (snd (respond E so st b s)) = evq s" using respond_frame [of E so st b s] by auto
qed

lemma evq_onNet: "(\<And>n. n_queue (snd (m n)) = n_queue n) \<Longrightarrow> conserves evq (onNet m)"
  by (auto simp: conserves_def onNet_def split: prod.split) (metis snd_conv)

lemma evq_withWork: "conserves evq body \<Longrightarrow> conserves evq (withWork E c body)"
  unfolding withWork_def by (auto intro!: conserves_andThen conserves_scopeExit)

lemma evq_withGuard: "(\<And>k. conserves evq (body k)) \<Longrightarrow> conserves evq (withGuard E body)"
  unfolding withGuard_def by (auto intro!: conserves_andThen conserves_scopeExit simp: releaseW_def)

lemma conserves_mapE: "(\<And>x. conserves f (g x)) \<Longrightarrow> conserves f (mapE xs g)"
  by (induction xs) (auto intro!: conserves_andThen)

lemma conserves_sessionGuard:
  "(\<And>so b. conserves f (respond E so ''error'' b)) \<Longrightarrow> conserves f body \<Longrightarrow> conserves f (sessionGuard E et u d body)"
  by (auto simp: sessionGuard_def intro!: conserves_andThen)

lemma conserves_wrappers:
  "conserves f m \<Longrightarrow> conserves f (catchVariant m)"
  "(\<And>d. conserves f (g d)) \<Longrightarrow> conserves f (withClient ev g)"
  by (auto simp: catchVariant_def withClient_def intro!: conserves_tryCatch split: EventData.split)

lemmas evq_intros = conserves_andThen conserves_tryCatch evq_withWork evq_withGuard conserves_mapE conserves_forEach
  conserves_sessionGuard conserves_wrappers

lemma evq_services [simp]:
  "conserves evq (authenticate E c login pw ip ver)"
  "conserves evq (registerAccount E c login pw email ip ver u h)"
  "conserves evq (getCharactersList E c a)" "conserves evq (getCharacterEquipmentPreview E c i)"
  "conserves evq (createCharacter E c o' nm cls race gender)" "conserves evq (deleteCharacter E c o' i)"
proof -
  show "conserves evq (authenticate E c login pw ip ver)"
    unfolding authenticate_def checkUser_def admitUser_def openSession_def checkBan_def probeStatus_def
      hashPasswordW_def storeSession_def
    by (auto simp: Let_def intro!: evq_intros split: option.split)
  show "conserves evq (registerAccount E c login pw email ip ver u h)"
    unfolding registerAccount_def createAccount_def hashPasswordW_def storeSession_def
    by (auto simp: Let_def intro!: evq_intros split: option.split)
  show "conserves evq (getCharactersList E c a)" "conserves evq (getCharacterEquipmentPreview E c i)"
    "conserves evq (createCharacter E c o' nm cls race gender)" "conserves evq (deleteCharacter E c o' i)"
    unfolding getCharactersList_def getCharacterEquipmentPreview_def createCharacter_def
      insertCharacterRow_def initCharacter_def execIf_def deleteCharacter_def
    by (auto intro!: evq_intros split: prod.split option.split)
qed

lemma evq_net [simp]:
  "conserves evq (onNet (genResponse N st j))" "conserves evq (onNet (sendResponse N so line))"
  "conserves evq (onNet (andThen (genResponseTs N st j ts) (sendResponse N so)))"
proof -
  show "conserves evq (onNet (genResponse N st j))" by (rule evq_onNet) (simp add: genResponse_result)
  show send: "conserves evq (onNet (sendResponse N so line))"
    by (rule evq_onNet) (simp add: sendResponse_def split: option.split)
  show "conserves evq (onNet (andThen (genResponseTs N st j ts) (sendResponse N so)))"
    by (rule evq_onNet) (auto simp: genResponseTs_def andThen_def tick_def sendResponse_def split: sum.split option.split)
qed

lemma evq_dispatch: "conserves evq (dispatchEvent E ev)"
proof -
  have "conserves evq (handlePingClientEvent E ev)"
    unfolding handlePingClientEvent_def by (auto intro!: evq_intros split: option.split)
  moreover have "conserves evq (handleDisconnectClientEvent E ev)"
    unfolding handleDisconnectClientEvent_def broadcast_def
    by (intro evq_intros conserves_pure evq_net) (auto split: prod.split)
  moreover have "conserves evq (handleRegisterAccountEvent E ev)"
    unfolding handleRegisterAccountEvent_def registerClient_def
    by (auto intro!: evq_intros split: EventData.split prod.split)
  moreover have "conserves evq (handleGetCharacterCreationOptionsEvent E ev)"
    unfolding handleGetCharacterCreationOptionsEvent_def creationOptions_def by (auto intro!: evq_intros)
  moreover have "conserves evq (handleDeleteCharacterEvent E ev)"
    unfolding handleDeleteCharacterEvent_def Let_def by (auto intro!: evq_intros)
  moreover have "conserves evq (handleCreateCharacterEvent E ev)"
    unfolding handleCreateCharacterEvent_def Let_def by (auto intro!: evq_intros)
  moreover have "conserves evq (handleGetCharactersListEvent E ev)"
    unfolding handleGetCharactersListEvent_def listCharacters_def characterJson_def
    by (auto intro!: evq_intros split: option.split)
  moreover have "conserves evq (handleAuthentificateClientEvent E ev)"
    unfolding handleAuthentificateClientEvent_def authenticateClient_def clientIpOf_def
    by (auto intro!: evq_intros conserves_scopeExit split: option.split simp: releaseW_def)
  ultimately show ?thesis by (simp add: dispatchEvent_def split: EventType.split)
qed

lemma evq_runTask: "evq (snd (runTask E ev s)) = evq s"
proof -
  have "conserves evq (runTask E ev)" unfolding runTask_def by (intro conserves_tryCatch evq_dispatch) simp
  then show ?thesis by (simp add: conserves_def)
qed

lemma evq_cleanup: "evq (snd (periodicCleanup E ms s)) = evq s"
proof -
  have "conserves evq (periodicCleanup E ms)"
    unfolding periodicCleanup_def cleanupDatabase_def sweepSessions_def
    by (auto intro!: evq_intros evq_onNet)
  then show ?thesis by (simp add: conserves_def)
qed

section \<open>What the loop and the workers keep\<close>

lemma evq_setQueueW [simp]: "evq (setQueueW q s) = q"
  by (simp add: setQueueW_def)

lemma runTask_returns: "\<exists>s'. runTask E ev s = (Inr (), s')"
  by (auto simp: runTask_def tryCatch_def split: prod.split sum.split)

lemma safeEnqueue_open: "\<not> tp_stop p \<Longrightarrow> safeEnqueue e p = p\<lparr>tp_tasks := tp_tasks p @ [e]\<rparr>"
  by (simp add: safeEnqueue_def enqueueFuture_def)

lemma processBatch_open:
  "\<not> tp_stop p \<Longrightarrow> processBatch es p = p\<lparr>tp_tasks := tp_tasks p @ es\<rparr>"
proof -
  have "\<not> tp_stop p \<Longrightarrow> fold safeEnqueue es p = p\<lparr>tp_tasks := tp_tasks p @ es\<rparr>" for p
    by (induction es arbitrary: p) (simp_all add: safeEnqueue_open)
  then show "\<not> tp_stop p \<Longrightarrow> ?thesis" by (simp add: processBatch_def)
qed

lemma workerStep_stop: "workerStep i p = Some p' \<Longrightarrow> tp_stop p' = tp_stop p"
  by (auto simp: workerStep_def split: if_splits worker.splits list.splits)

lemma loopIteration_cases:
  obtains
    (idle) q where "loopIteration E ms st =
      st\<lparr>ls_world := snd (periodicCleanup E ms (setQueueW q (ls_world st)))\<rparr>"
      "q_items q = q_items (evq (ls_world st))"
  | (batch) q es where "loopIteration E ms st =
      st\<lparr>ls_world := setQueueW q (ls_world st), ls_tasks := processBatch es (ls_tasks st)\<rparr>"
      "es @ q_items q = q_items (evq (ls_world st))"
  | (off) l where "loopIteration E ms st = st\<lparr>ls_loop := l\<rparr>"
proof -
  let ?q0 = "evq (ls_world st)"
  show ?thesis
  proof (cases "ls_loop st = Looping \<and> ls_running st")
    case False
    then have "loopIteration E ms st = st\<lparr>ls_loop := if ls_loop st = Looping then LoopEnded else ls_loop st\<rparr>"
      by (simp add: loopIteration_def)
    then show ?thesis by (rule off)
  next
    case True
    show ?thesis
    proof (cases "tryPopBatch [] BATCH_SIZE ?q0")
      case (Inl e)
      then have "loopIteration E ms st = st\<lparr>ls_loop := LoopEnded\<rparr>" using True by (simp add: loopIteration_def)
      then show ?thesis by (rule off)
    next
      case (Inr b)
      obtain popped es q where b: "b = (popped, es, q)" by (cases b)
      have "es @ q_items q = q_items ?q0 \<and> (\<not> popped \<longrightarrow> q_items q = q_items ?q0)"
        using evq.take_many [OF Inr [unfolded b]] by auto
      then show ?thesis
        using True Inr b idle [of q] batch [of es q] by (cases popped) (auto simp: loopIteration_def)
    qed
  qed
qed

text \<open>
  The events taken from the queue are the pool's tasks, the rest is still queued; the pool is never
  stopped while the server exists.
\<close>

definition flow :: "nat \<Rightarrow> Event list \<Rightarrow> ('w, 'c) lserver \<Rightarrow> bool" where
  "flow n ps st \<longleftrightarrow> \<not> tp_stop (ls_tasks st) \<and>
     (\<exists>ts. pool_inv n ts (ls_tasks st) \<and> ts @ q_items (evq (ls_world st)) = ps)"

lemma flow_loop: "flow n ps st \<Longrightarrow> flow n ps (loopIteration E ms st)"
proof (cases E ms st rule: loopIteration_cases)
  case (batch q es)
  assume "flow n ps st"
  then obtain ts where ts: "\<not> tp_stop (ls_tasks st)" "pool_inv n ts (ls_tasks st)"
    "ts @ q_items (evq (ls_world st)) = ps"
    by (auto simp: flow_def)
  then have "pool_inv n (ts @ es) (processBatch es (ls_tasks st))"
    by (auto simp: processBatch_open pool_inv_def)
  moreover have "(ts @ es) @ q_items q = ps" using ts(3) batch(2) by simp
  ultimately show ?thesis using ts(1) unfolding batch(1) flow_def
    by (intro conjI exI [of _ "ts @ es"]) (simp_all add: processBatch_open)
qed (auto simp: flow_def evq_cleanup)

lemma flow_move: "flow n ps st \<Longrightarrow> workerMove E i st = Some st' \<Longrightarrow> flow n ps st'"
  unfolding flow_def workerMove_def
  by (auto simp: evq_runTask workerStep_stop split: option.splits worker.split intro: workerStep_inv)

lemma served_flow:
  "served E ms n w ps st \<Longrightarrow> q_items (evq w) = [] \<Longrightarrow> flow n ps st"
proof (induction rule: served.induct)
  case Made
  then show ?case by (simp add: flow_def newLoginServer_def newThreadPool_def pool_inv_def running_def)
next
  case (Pushed ps st e)
  then show ?case by (auto simp: flow_def evq.contents_push)
next
  case (Looped ps st)
  then show ?case by (simp add: flow_loop)
next
  case (Moved ps st i st')
  then show ?case by (blast intro: flow_move)
qed (auto simp: flow_def startMainEventLoop_def stopServer_def stopEventQueue_def stopQueue_def)

section \<open>Nothing is stuck\<close>

lemma loop_takes:
  assumes on: "ls_loop st = Looping" "ls_running st" and items: "q_items (evq (ls_world st)) \<noteq> []"
    and len: "int (length (q_items (evq (ls_world st)))) \<le> INT_MAX" and open': "\<not> tp_stop (ls_tasks st)"
  shows "todo (loopIteration E ms st) < todo st \<and> ls_loop (loopIteration E ms st) = Looping \<and>
    ls_running (loopIteration E ms st)"
proof -
  let ?q = "evq (ls_world st)"
  have "in_int (int (length (q_items ?q)))" using len by (simp add: in_int_def INT_MIN_def)
  then have "\<not> reserveFails 0 (min BATCH_SIZE (int32 (int (length (q_items ?q)))))"
    by (intro reserve_small) (simp_all add: BATCH_SIZE_def in_int_def INT_MIN_def INT_MAX_def)
  then have pop: "tryPopBatch [] BATCH_SIZE ?q =
      Inr (True, take 10 (q_items ?q), ?q\<lparr>q_items := drop 10 (q_items ?q)\<rparr>)"
    using items by (simp add: tryPopBatch_def wouldWait_def takeBatch_def popLoop_eq Let_def BATCH_SIZE_def)
  have "3 * (n - 10) + 2 * min n 10 < 3 * n" if "n \<noteq> 0" for n :: nat using that by arith
  then have "3 * length (drop 10 (q_items ?q)) + 2 * length (take 10 (q_items ?q)) < 3 * length (q_items ?q)"
    using items by simp
  then show ?thesis
    using on open' pop by (simp add: loopIteration_def todo_def processBatch_open workLeft_def)
qed

lemma worker_serves:
  assumes "workerMove E i st = Some st'"
  shows "todo st' < todo st \<and> ls_loop st' = ls_loop st \<and> ls_running st' = ls_running st"
proof -
  obtain q where q: "workerStep i (ls_tasks st) = Some q" "ls_tasks st' = q"
    using assms by (auto simp: workerMove_def split: option.splits)
  have "evq (ls_world st') = evq (ls_world st)"
    using assms by (auto simp: workerMove_def evq_runTask split: option.splits worker.splits)
  then show ?thesis
    using workLeft_decreases [OF q(1)] assms q(2)
    by (auto simp: todo_def workerMove_def split: option.splits)
qed

lemma someone_moves:
  assumes inv: "pool_inv k ts p" and "\<not> tp_stop p" and k: "0 < k"
    and busy: "tp_tasks p \<noteq> [] \<or> running p \<noteq> {#}"
  shows "\<exists>i q. workerStep i p = Some q"
proof -
  have len: "length (tp_workers p) = k" and alive: "Returned \<notin> set (tp_workers p)"
    using inv assms(2) by (auto simp: pool_inv_def)
  show ?thesis
  proof (cases "\<exists>t. Running t \<in> set (tp_workers p)")
    case True
    then obtain t i where "i < length (tp_workers p)" "tp_workers p ! i = Running t" by (auto simp: in_set_conv_nth)
    then show ?thesis by (intro exI [of _ i]) (simp add: workerStep_def)
  next
    case False
    then have idle: "\<forall>x \<in> set (tp_workers p). x = Waiting" using alive by (metis worker.exhaust)
    then have "running p = {#}" by (auto simp: running_def intro!: sum_mset.neutral)
    then obtain t rest where t: "tp_tasks p = t # rest" using busy by (cases "tp_tasks p") auto
    have "tp_workers p ! 0 = Waiting" using idle len k by (metis nth_mem)
    then show ?thesis using t len k by (intro exI [of _ 0]) (simp add: workerStep_def)
  qed
qed

context handler_inv
begin

lemma cleanup_keeps: "keeps (I held) (periodicCleanup E ms)"
  unfolding periodicCleanup_def cleanupDatabase_def sweepSessions_def
  by (auto intro!: handler_intros cleans)

lemma served_keeps:
  assumes "served E ms k w ps st" and "I [] w" and "\<And>ev. keeps (I []) (dispatchEvent E ev)"
  shows "I [] (ls_world st)"
  using assms(1,2)
proof (induction rule: served.induct)
  case (Looped ps st)
  then have i: "I [] (ls_world st)" by simp
  show ?case
  proof (cases E ms st rule: loopIteration_cases)
    case (idle q)
    have "I [] (setQueueW q (ls_world st))" using i by (simp add: setQueueW_def net)
    then show ?thesis using keepsD [where I = "I []", OF cleanup_keeps] unfolding idle(1) by simp
  qed (use i in \<open>auto simp: setQueueW_def net\<close>)
next
  case (Moved ps st i st')
  have "keeps (I []) (runTask E ev)" for ev
    unfolding runTask_def by (intro keeps_tryCatch assms(3)) simp
  then show ?case using Moved
    by (auto simp: workerMove_def keeps_def split: option.splits worker.split)
qed (auto simp: newLoginServer_def startMainEventLoop_def stopServer_def stopEventQueue_def setQueueW_def net)

end

context server
begin

lemma served_ready:
  "served E ms k w ps st \<Longrightarrow> ready txn n [] w \<Longrightarrow> ready txn n [] (ls_world st)"
  by (rule idle.served_keeps) (simp_all add: dispatch_ready)

end

section \<open>Starting\<close>

lemma retryLoop_pool: "retryLoop k L cfg slots d a w = Some (Inr p, w') \<Longrightarrow> pool_full (nat (clampPool slots)) p"
  by (induction k arbitrary: a w) (auto split: prod.splits sum.splits if_splits dest: newPool_full)

lemma pool_full_ok: "pool_full n p \<Longrightarrow> pool_ok n p []"
  by (simp add: pool_full_def pool_ok_def)

text \<open>Waiting for the database: it ends, and a pool it gives has all its connections open and free.\<close>

lemma pool_at_start:
  assumes "steady L"
  shows "\<exists>r w'. createWithRetry 301 L db 5 (connectTimeoutFromEnv env) w = Some (r, w') \<and>
    (\<forall>p. r = Inr p \<longrightarrow> pool_ok 5 p [] \<and> (\<forall>c \<in> set (pl_connections p). c \<noteq> None))"
proof -
  have "cl_now L w + connectTimeoutFromEnv env * 1000 \<le> cl_now L w + 2000 * int 300"
    using connectTimeout_range [of env] by simp
  from retryLoop_returns [OF assms this, of db 5 0] obtain r w' where
    r: "retryLoop (Suc 300) L db 5 (cl_now L w + connectTimeoutFromEnv env * 1000) 0 w = Some (r, w')" by blast
  have "pool_ok 5 p [] \<and> (\<forall>c \<in> set (pl_connections p). c \<noteq> None)" if "r = Inr p" for p
  proof -
    have "pool_full 5 p" using retryLoop_pool [OF r [unfolded that]] by (simp add: clampPool_def)
    then show ?thesis by (auto simp: pool_full_ok pool_full_def in_set_conv_nth)
  qed
  then show ?thesis using r by (simp add: createWithRetry_def del: retryLoop.simps)
qed

text \<open>The error of \<open>bind\<close> is lost when \<open>listen\<close> succeeds, and no acceptor error stops the start.\<close>

lemma bind_error_lost:
  assumes "ac_is_address A (ls_host cfg)" and "ac_open A = None"
    and "ac_listen A False (ls_max_clients cfg) = None" and "ac_bind A (ls_host cfg) (ls_port cfg) = Some e"
  shows "newNetworkManager A cfg = Inr None"
  using assms by (simp add: newNetworkManager_def acceptorSetup_def)

text \<open>The pool is destroyed, and with it its queued tasks run, after the handler they call is gone.\<close>

lemma handler_destroyed_first:
  "\<exists>before between after. rev members = before @ ''eventHandler_'' # between @ ''threadPool_'' # after"
  by (intro exI [of _ "take 4 (rev members)"] exI [of _ "take 5 (drop 5 (rev members))"]
      exI [of _ "drop 11 (rev members)"]) (simp add: members_def)

section \<open>Properties\<close>

text \<open>Whatever the order of the I/O threads, the loop and the workers, with or without a stop: the tasks started, then the tasks waiting in the pool, then the queue are exactly the pushed
  events, each once and in the order pushed, and a started event is running or finished.\<close>

lemma events_dispatched_in_order:
  assumes "served E ms n w ps st" and "q_items (evq w) = []"
  shows "tp_started (ls_tasks st) @ tp_tasks (ls_tasks st) @ q_items (evq (ls_world st)) = ps \<and>
    mset (tp_started (ls_tasks st)) = running (ls_tasks st) + mset (tp_finished (ls_tasks st))"
  using served_flow [OF assms] by (auto simp: flow_def pool_inv_def)

definition demoPing :: Event where
  "demoPing = mkEvent PING_CLIENT 7 (ED_client newClient) (Some 3)"

text \<open>A ping is pushed, taken by the loop and started by the one worker.\<close>

definition pingQueued :: "(rel, nat) lserver" where
  "pingQueued = (let st = startMainEventLoop (newLoginServer 1 sessionWorld)
     in st\<lparr>ls_world := setQueueW (pushEvent demoPing (evq (ls_world st))) (ls_world st)\<rparr>)"

lemma ping_served:
  obtains st where "served (relServer True) 60000 1 sessionWorld [demoPing] st"
    "q_items (evq (ls_world st)) = []" "tp_tasks (ls_tasks st) = []" "tp_finished (ls_tasks st) = [demoPing]"
proof -
  let ?E = "relServer True"
  let ?s1 = "loopIteration ?E 60000 pingQueued"
  have q: "served ?E 60000 1 sessionWorld [demoPing] pingQueued"
    using served.Pushed [OF served.Started [OF served.Made], of ?E 60000 1 sessionWorld demoPing]
    by (simp add: pingQueued_def Let_def)
  have "evq (ls_world pingQueued) = \<lparr>q_items = [demoPing], q_stopped = False\<rparr>"
    by (simp add: pingQueued_def sessionWorld_def relWorld_def newServices_def newQueue_def pushEvent_def
        startMainEventLoop_def newLoginServer_def setQueueW_def)
  then have pop: "tryPopBatch [] BATCH_SIZE (evq (ls_world pingQueued)) =
      Inr (True, [demoPing], \<lparr>q_items = [], q_stopped = False\<rparr>)"
    using reserve_small [of 10 1]
    by (simp add: tryPopBatch_def wouldWait_def takeBatch_def BATCH_SIZE_def in_int_def INT_MIN_def INT_MAX_def)
  have s1: "evq (ls_world ?s1) = \<lparr>q_items = [], q_stopped = False\<rparr>"
    "ls_tasks ?s1 = \<lparr>tp_tasks = [demoPing], tp_stop = False, tp_workers = [Waiting], tp_started = [], tp_finished = []\<rparr>"
    using pop
    by (simp_all add: loopIteration_def pingQueued_def startMainEventLoop_def newLoginServer_def newThreadPool_def
        processBatch_open)
  obtain s2 where m1: "workerMove ?E 0 ?s1 = Some s2" and s2: "ls_world s2 = ls_world ?s1"
    "ls_tasks s2 = \<lparr>tp_tasks = [], tp_stop = False, tp_workers = [Running demoPing], tp_started = [demoPing],
       tp_finished = []\<rparr>"
    by (simp add: workerMove_def workerStep_def s1)
  obtain s3 where m2: "workerMove ?E 0 s2 = Some s3" and s3: "evq (ls_world s3) = evq (ls_world ?s1)"
    "tp_tasks (ls_tasks s3) = []" "tp_finished (ls_tasks s3) = [demoPing]"
    by (simp add: workerMove_def workerStep_def s2 evq_runTask)
  have "served ?E 60000 1 sessionWorld [demoPing] s3"
    by (rule served.Moved [OF served.Moved [OF served.Looped [OF q] m1] m2])
  then show ?thesis using that s1 s3 by simp
qed

lemma sessionWorld_idle: "q_items (evq sessionWorld) = []"
  by (simp add: sessionWorld_def relWorld_def newServices_def newQueue_def)

lemma events_dispatched_in_order_witness:
  "\<exists>st. served (relServer True) 60000 1 sessionWorld [demoPing] st \<and> tp_started (ls_tasks st) = [demoPing] \<and>
     running (ls_tasks st) = {#}"
proof -
  obtain st where st: "served (relServer True) 60000 1 sessionWorld [demoPing] st"
    "q_items (evq (ls_world st)) = []" "tp_tasks (ls_tasks st) = []" "tp_finished (ls_tasks st) = [demoPing]"
    by (rule ping_served)
  from events_dispatched_in_order [OF st(1) sessionWorld_idle] have "tp_started (ls_tasks st) = [demoPing]"
    "running (ls_tasks st) = {#}" using st(2-4) by auto
  then show ?thesis using st(1) by blast
qed

text \<open>While the loop and at least one worker are there no event is stuck: unless every pushed event
  has been handled to its end the loop or a worker can move, whatever the handlers do; and every such
  move lowers the work left, so under any schedule all are handled after finitely many moves.\<close>

lemma every_event_is_handled:
  assumes "served E ms k w ps st" and "q_items (evq w) = []" and "0 < k"
    and "ls_loop st = Looping" and "ls_running st" and "int (length ps) \<le> INT_MAX"
  shows "(mset (tp_finished (ls_tasks st)) = mset ps \<or> (\<exists>st'. serve_step E ms st st')) \<and>
    (serve_step E ms st st1 \<longrightarrow> todo st1 < todo st \<and> served E ms k w ps st1 \<and> ls_loop st1 = Looping \<and> ls_running st1)"
proof
  obtain ts where ts: "\<not> tp_stop (ls_tasks st)" "pool_inv k ts (ls_tasks st)" "ts @ q_items (evq (ls_world st)) = ps"
    using served_flow [OF assms(1,2)] by (auto simp: flow_def)
  show "mset (tp_finished (ls_tasks st)) = mset ps \<or> (\<exists>st'. serve_step E ms st st')"
  proof (cases "q_items (evq (ls_world st)) = [] \<and> tp_tasks (ls_tasks st) = [] \<and> running (ls_tasks st) = {#}")
    case True
    then show ?thesis using ts by (auto simp: pool_inv_def)
  next
    case False
    show ?thesis
    proof (cases "q_items (evq (ls_world st)) = []")
      case True
      then obtain i q where "workerStep i (ls_tasks st) = Some q"
        using False someone_moves [OF ts(2,1) assms(3)] by blast
      then have "\<exists>st'. workerMove E i st = Some st'" by (simp add: workerMove_def)
      then show ?thesis using serve_step.Work by blast
    next
      case False
      then show ?thesis using serve_step.Take by blast
    qed
  qed
  have "int (length (q_items (evq (ls_world st)))) \<le> INT_MAX" using ts(3) assms(6) by auto
  then show "serve_step E ms st st1 \<longrightarrow> todo st1 < todo st \<and> served E ms k w ps st1 \<and> ls_loop st1 = Looping \<and> ls_running st1"
    using loop_takes [OF assms(4,5) _ _ ts(1), of E ms] worker_serves [of E _ st st1] assms(1,4,5)
    by (auto simp: serve_step_iff intro: served.Looped served.Moved)
qed

lemma every_event_is_handled_witness:
  "\<exists>st1. serve_step (relServer True) 60000 pingQueued st1 \<and> todo st1 < todo pingQueued \<and> ls_loop st1 = Looping"
proof -
  have q: "served (relServer True) 60000 1 sessionWorld [demoPing] pingQueued"
    using served.Pushed [OF served.Started [OF served.Made], of "relServer True" 60000 1 sessionWorld demoPing]
    by (simp add: pingQueued_def Let_def)
  have on: "ls_loop pingQueued = Looping" "ls_running pingQueued" "tp_finished (ls_tasks pingQueued) = []"
    by (simp_all add: pingQueued_def Let_def startMainEventLoop_def newLoginServer_def newThreadPool_def)
  show ?thesis
    using every_event_is_handled [OF q sessionWorld_idle _ on(1,2)] on(3) by (auto simp: INT_MAX_def)
qed

text \<open>Whatever the server has done, with whatever failures of the database, whenever no handler
  is at work every pool slot is free and no transaction is open: no request, exception, idle clean-up
  or stop keeps a connection.\<close>

lemma connections_come_back:
  assumes "server E Q db txn" and "ready txn k [] w" and "served E ms n w ps st"
  shows "mset (pl_available (w_pool (ls_world st))) = mset [0..<k] \<and>
    length (pl_connections (w_pool (ls_world st))) = k \<and> txn (w_out (ls_world st)) = Map.empty"
  using server.served_ready [OF assms(1,3,2)] by (simp add: ready_def pool_ok_def)

lemma connections_come_back_witness:
  "\<exists>st. served (relServer True) 60000 1 sessionWorld [demoPing] st \<and> tp_finished (ls_tasks st) = [demoPing] \<and>
     mset (pl_available (w_pool (ls_world st))) = {#0#}"
proof -
  obtain st where st: "served (relServer True) 60000 1 sessionWorld [demoPing] st"
    "tp_finished (ls_tasks st) = [demoPing]" by (rule ping_served)
  then show ?thesis
    using connections_come_back [OF rel_server.server_axioms sessionWorld_ready st(1)] by auto
qed

text \<open>C25: after the signal the ordered shutdown ends, whatever is queued and whatever the I/O threads
  still push: no accept or read is armed, the queue is empty and stopped, and the event loop
  ends at its next round without taking anything more.\<close>

theorem shutdown_ends:
  assumes "int (length (q_items (evq (ls_world (pr_server p))) @ late)) \<le> INT_MAX"
  shows "\<exists>p'. shutDown late p = Done (Inr p') \<and> \<not> c_accepting (pr_conns p') \<and> c_reading (pr_conns p') = [] \<and>
    evq (ls_world (pr_server p')) = \<lparr>q_items = [], q_stopped = True\<rparr> \<and>
    ls_loop (loopIteration E ms (pr_server p')) \<noteq> Looping \<and>
    ls_tasks (loopIteration E ms (pr_server p')) = ls_tasks (pr_server p)"
proof -
  let ?q = "pushBatch late (stopQueue (stopQueue (evq (ls_world (pr_server p)))))"
  have items: "q_items ?q = q_items (evq (ls_world (pr_server p))) @ late"
    by (simp add: pushBatch_items stopQueue_def)
  have "q_stopped (pushBatch es q) = q_stopped q" for es and q :: "Event event_queue"
    unfolding pushBatch_def by (induction es arbitrary: q) (simp_all add: pushEvent_def)
  then have "drain ?q = Done (Inr (?q\<lparr>q_items := []\<rparr>))" and "?q\<lparr>q_items := []\<rparr> = \<lparr>q_items = [], q_stopped = True\<rparr>"
    using drain_eq [of ?q] items assms by (simp_all add: stopQueue_def)
  then show ?thesis
    by (simp add: shutDown_def Let_def stopIO_def stopEventQueue_def stopServer_def loopIteration_def setQueueW_def)
qed

theorem shutdown_ends_witness:
  "\<exists>p'. shutDown [demoPing] \<lparr>pr_server = pingQueued, pr_conns = newConns\<lparr>c_accepting := True\<rparr>\<rparr> = Done (Inr p') \<and>
     ls_loop (loopIteration (relServer True) 60000 (pr_server p')) \<noteq> Looping"
proof -
  let ?p = "\<lparr>pr_server = pingQueued, pr_conns = newConns\<lparr>c_accepting := True\<rparr>\<rparr>"
  have "int (length (q_items (evq (ls_world (pr_server ?p))) @ [demoPing])) \<le> INT_MAX"
    using sessionWorld_idle
    by (simp add: pingQueued_def startMainEventLoop_def newLoginServer_def pushEvent_def Let_def INT_MAX_def)
  from shutdown_ends [OF this, of "relServer True" 60000] show ?thesis by blast
qed

text \<open>C26: the start-up returns in any case: either with a fatal error and exit code 1, or with a server
  whose configuration is in range, whose five connections are open and free, with no session,
  an empty queue, one worker per hardware thread, the loop running and an accept armed.\<close>

theorem startup_fail_closed:
  assumes "steady (dl_conn (se_db E))"
  shows "\<exists>r w'. startUp S E w = Some (r, w') \<and>
    (case r of Inl e \<Rightarrow> exitCode r = 1
     | Inr (cfg, p) \<Rightarrow>
         (\<exists>db. config_ok (db, cfg)) \<and> pool_ok 5 (w_pool (ls_world (pr_server p))) [] \<and>
         (\<forall>c \<in> set (pl_connections (w_pool (ls_world (pr_server p)))). c \<noteq> None) \<and>
         w_sessions (ls_world (pr_server p)) = [] \<and> evq (ls_world (pr_server p)) = newQueue \<and>
         ls_tasks (pr_server p) = newThreadPool (su_hardware S) \<and>
         ls_running (pr_server p) \<and> ls_loop (pr_server p) = Looping \<and> c_accepting (pr_conns p))"
proof -
  let ?parsed = "parseConfig (ne_json (se_net E)) (su_env S) (su_jsonPath S) (su_file S)"
  have cfg: "?parsed = Inr cfg \<Longrightarrow> config_ok cfg" for cfg
    unfolding parseConfig_def bindR_Inr by (blast intro: envConfig_ok fileConfig_ok)
  show ?thesis
  proof (cases "\<exists>db c ec. ?parsed = Inr (db, c) \<and> newNetworkManager (su_acceptor S) c = Inr ec")
    case False
    then show ?thesis by (auto simp: startUp_def exitCode_def split: sum.splits)
  next
    case True
    then obtain db c ec where b: "?parsed = Inr (db, c)" "newNetworkManager (su_acceptor S) c = Inr ec" by blast
    obtain r w' where r: "createWithRetry 301 (dl_conn (se_db E)) db 5 (connectTimeoutFromEnv (su_env S)) w = Some (r, w')"
      "\<forall>p. r = Inr p \<longrightarrow> pool_ok 5 p [] \<and> (\<forall>c \<in> set (pl_connections p). c \<noteq> None)"
      using pool_at_start [OF assms] by blast
    show ?thesis
      using b r cfg [OF b(1)]
      by (cases r) (auto simp: startUp_def exitCode_def Let_def startIOEventLoop_def startAccept_def onConns_def
          newServices_def newLoginServer_def startMainEventLoop_def newConns_def)
  qed
qed

definition goodAcceptor :: acceptor_lib where
  "goodAcceptor = \<lparr>ac_is_address = (\<lambda>s. True), ac_open = None, ac_set_option = None, ac_bind = (\<lambda>h p. None),
     ac_listen = (\<lambda>b k. None)\<rparr>"

theorem startup_fail_closed_witness:
  "\<exists>cfg p w'. startUp \<lparr>su_env = (\<lambda>_. None), su_jsonPath = ''config.json'', su_file = None,
       su_acceptor = goodAcceptor, su_hardware = 4\<rparr> (relServer False) (w_out sessionWorld) = Some (Inr (cfg, p), w') \<and>
     pool_ok 5 (w_pool (ls_world (pr_server p))) []"
proof -
  let ?S = "\<lparr>su_env = (\<lambda>_. None), su_jsonPath = ''config.json'', su_file = None,
       su_acceptor = goodAcceptor, su_hardware = 4\<rparr>"
  have st: "steady (dl_conn (se_db (relServer False)))"
    by (simp add: steady_def relServer_def rel_defs)
  obtain r w' where r: "startUp ?S (relServer False) (w_out sessionWorld) = Some (r, w')"
    "case r of Inl e \<Rightarrow> exitCode r = 1
     | Inr (cfg, p) \<Rightarrow> (\<exists>db. config_ok (db, cfg)) \<and> pool_ok 5 (w_pool (ls_world (pr_server p))) [] \<and>
         (\<forall>c \<in> set (pl_connections (w_pool (ls_world (pr_server p)))). c \<noteq> None) \<and>
         w_sessions (ls_world (pr_server p)) = [] \<and> evq (ls_world (pr_server p)) = newQueue \<and>
         ls_tasks (pr_server p) = newThreadPool (su_hardware ?S) \<and>
         ls_running (pr_server p) \<and> ls_loop (pr_server p) = Looping \<and> c_accepting (pr_conns p)"
    using startup_fail_closed [OF st, of ?S "w_out sessionWorld"] by blast
  have one: "openOne (relConn False) i (q, v) =
      (Inr (), (q\<lparr>pl_connections := (pl_connections q @ [None])[i := Some (rl_next v)], pl_available := pl_available q @ [i]\<rparr>,
        v\<lparr>rl_next := Suc (rl_next v)\<rparr>))" for i q v
    by (simp add: openOne_def openSlot_def relConn_def andThen_def onWorld_def onPool_def)
  have "\<exists>p w1. newPool (relConn False) db 5 v = (Inr p, w1)" for db v
    by (simp add: newPool_def openAll_def clampPool_def upt_rec one andThen_def)
  then have opens: "\<exists>p w1. createWithRetry 301 (relConn False) db 5 t v = Some (Inr p, w1)" for db t v
    unfolding createWithRetry_def by (metis (no_types, lifting) numeral_eq_Suc retryLoop.simps(2) case_prod_conv sum.simps(6))
  have "createWithRetry 301 (relConn False) db 5 t v \<noteq> Some (Inl e, w1)" for db t v e w1
    using opens [of db t v] by auto
  then have "isl r = False"
    using r(1)
    by (auto simp: startUp_def relServer_def relLib_def demoEnv_def goodAcceptor_def newNetworkManager_def acceptorSetup_def parseConfig_def
        loadJsonFile_def fileConfig_def json_object_def jsonChecked_def jsonStr_def envConfig_def envChecked_def
        envStr_def envPresent_def defaultLoginServerConfig_def Let_def split: option.splits sum.splits)
  then show ?thesis using r by (cases r) auto
qed

end
