(* ===== verification/Logging.thy ===== *)
theory Logging
  imports Configuration
begin

text \<open>
  \<open>Logger\<close> (\<open>src/utils/Logger.cpp\<close>): the server's logger and its per-system children, which live in
  the registry of spdlog, a library. The registry and the names of the levels are parameters; an
  spdlog logger is an object with an identity, since the same one is shared by all who ask for it.
  What a logger prints is not modelled. The lemmas: a system always gets the same logger, at the
  level its environment variable or the server's logger gives; and the look-up and the registration
  are two steps, between which another thread can register the same name.
\<close>

section \<open>State\<close>

datatype level_enum = Trace | Debug | Info | Warn | Err | Critical | Off

record slogger =
  sl_name :: string
  sl_level :: level_enum

text \<open>The objects made so far, a \<open>shared_ptr\<close> being a position, and the library's registry.\<close>

record 'r log_state =
  lg_objs :: "slogger list"
  lg_registry :: 'r

record 'r spdlog_lib =
  sp_get :: "string \<Rightarrow> 'r \<Rightarrow> nat option"
  sp_register :: "string \<Rightarrow> nat \<Rightarrow> 'r \<Rightarrow> (exn + unit) \<times> 'r"
  sp_drop :: "string \<Rightarrow> 'r \<Rightarrow> 'r"
  sp_shutdown :: "'r \<Rightarrow> 'r"
  sp_level_name :: "level_enum \<Rightarrow> string"

record LoggerObj =
  lo_serverName :: string
  lo_logger :: nat

section \<open>Operations\<close>

definition parseLevel :: "string \<Rightarrow> level_enum" where
  "parseLevel level =
     (if level = ''trace'' then Trace
      else if level = ''debug'' then Debug
      else if level = ''info'' then Info
      else if level = ''warn'' \<or> level = ''warning'' then Warn
      else if level = ''error'' then Err
      else if level = ''critical'' then Critical
      else Info)"

text \<open>\<open>::toupper\<close> in the C locale.\<close>

definition toupper :: "char \<Rightarrow> char" where
  "toupper c = (let k = of_char c :: nat in if 97 \<le> k \<and> k \<le> 122 then char_of (k - 32) else c)"

text \<open>A new object whose level is set before anyone else can see it.\<close>

definition makeLogger :: "string \<Rightarrow> level_enum \<Rightarrow> ('r log_state, nat) eff" where
  "makeLogger name l =
     (\<lambda>s. (Inr (length (lg_objs s)), s\<lparr>lg_objs := lg_objs s @ [\<lparr>sl_name = name, sl_level = l\<rparr>]\<rparr>))"

definition registerLogger :: "'r spdlog_lib \<Rightarrow> string \<Rightarrow> nat \<Rightarrow> ('r log_state, unit) eff" where
  "registerLogger L name k =
     (\<lambda>s. case sp_register L name k (lg_registry s) of (r, reg) \<Rightarrow> (r, s\<lparr>lg_registry := reg\<rparr>))"

definition newLogger :: "'r spdlog_lib \<Rightarrow> environment \<Rightarrow> string \<Rightarrow> ('r log_state, LoggerObj) eff" where
  "newLogger L env serverName =
     andThen (makeLogger serverName
       (parseLevel (case env ''LOG_LEVEL'' of Some envLevel \<Rightarrow> envLevel | None \<Rightarrow> ''info''))) (\<lambda>k.
     andThen (registerLogger L serverName k) (\<lambda>_.
       ret \<lparr>lo_serverName = serverName, lo_logger = k\<rparr>))"

definition destroyLogger :: "'r spdlog_lib \<Rightarrow> LoggerObj \<Rightarrow> ('r log_state, unit) eff" where
  "destroyLogger L lg =
     updS (\<lambda>s. s\<lparr>lg_registry :=
       sp_shutdown L (sp_drop L (sl_name (lg_objs s ! lo_logger lg)) (lg_registry s))\<rparr>)"

definition setLevel :: "LoggerObj \<Rightarrow> string \<Rightarrow> ('r log_state, unit) eff" where
  "setLevel lg level =
     updS (\<lambda>s. s\<lparr>lg_objs := (lg_objs s)[lo_logger lg := (lg_objs s ! lo_logger lg)\<lparr>sl_level := parseLevel level\<rparr>]\<rparr>)"

definition systemName :: "LoggerObj \<Rightarrow> string \<Rightarrow> string" where
  "systemName lg system = lo_serverName lg @ ''.'' @ system"

text \<open>\<open>getSystem\<close> in its two halves: \<open>spdlog::get\<close>, and what it does when that finds nothing.\<close>

definition lookupSystem :: "'r spdlog_lib \<Rightarrow> LoggerObj \<Rightarrow> string \<Rightarrow> ('r log_state, nat option) eff" where
  "lookupSystem L lg system = readS (\<lambda>s. sp_get L (systemName lg system) (lg_registry s))"

definition systemLevel :: "'r spdlog_lib \<Rightarrow> environment \<Rightarrow> string \<Rightarrow> level_enum \<Rightarrow> level_enum" where
  "systemLevel L env system global =
     parseLevel (case env (''LOG_LEVEL_'' @ map toupper system) of
       Some envLevel \<Rightarrow> envLevel | None \<Rightarrow> sp_level_name L global)"

definition createSystem ::
  "'r spdlog_lib \<Rightarrow> environment \<Rightarrow> LoggerObj \<Rightarrow> string \<Rightarrow> ('r log_state, nat) eff" where
  "createSystem L env lg system =
     andThen (readS (\<lambda>s. sl_level (lg_objs s ! lo_logger lg))) (\<lambda>global.
     andThen (makeLogger (systemName lg system) (systemLevel L env system global)) (\<lambda>child.
     andThen (registerLogger L (systemName lg system) child) (\<lambda>_. ret child)))"

definition getSystem ::
  "'r spdlog_lib \<Rightarrow> environment \<Rightarrow> LoggerObj \<Rightarrow> string \<Rightarrow> ('r log_state, nat) eff" where
  "getSystem L env lg system =
     andThen (lookupSystem L lg system) (\<lambda>existing.
       case existing of Some k \<Rightarrow> ret k | None \<Rightarrow> createSystem L env lg system)"

section \<open>What the library promises\<close>

text \<open>
  The documentation of spdlog: \<open>get\<close> finds what was registered, \<open>register_logger\<close> throws when the name
  is taken, and the names of the levels.
\<close>

locale spdlog =
  fixes L :: "'r spdlog_lib"
  assumes register_free: "sp_get L name reg = None \<Longrightarrow>
      \<exists>reg'. sp_register L name k reg = (Inr (), reg') \<and> sp_get L name reg' = Some k \<and>
        (\<forall>m. m \<noteq> name \<longrightarrow> sp_get L m reg' = sp_get L m reg)"
    and register_taken: "sp_get L name reg = Some j \<Longrightarrow> \<exists>m. sp_register L name k reg = (Inl (RuntimeError m), reg)"
    and level_names: "map (sp_level_name L) [Trace, Debug, Info, Warn, Err, Critical, Off] =
      [''trace'', ''debug'', ''info'', ''warning'', ''error'', ''critical'', ''off'']"

lemma parseLevel_not_off [simp]: "parseLevel s \<noteq> Off"
  by (simp add: parseLevel_def)

text \<open>
  Every registered name is that of its logger; the server's logger stands and no level is \<open>Off\<close>.
\<close>

definition registry_ok :: "'r spdlog_lib \<Rightarrow> slogger list \<Rightarrow> 'r \<Rightarrow> bool" where
  "registry_ok L objs reg \<longleftrightarrow>
     (\<forall>name k. sp_get L name reg = Some k \<longrightarrow> k < length objs \<and> sl_name (objs ! k) = name)"

definition log_ok :: "'r spdlog_lib \<Rightarrow> LoggerObj \<Rightarrow> 'r log_state \<Rightarrow> bool" where
  "log_ok L lg s \<longleftrightarrow>
     lo_logger lg < length (lg_objs s) \<and> (\<forall>x \<in> set (lg_objs s). sl_level x \<noteq> Off) \<and>
     registry_ok L (lg_objs s) (lg_registry s)"

lemma log_okD:
  "log_ok L lg s \<Longrightarrow> sp_get L name (lg_registry s) = Some k \<Longrightarrow>
     k < length (lg_objs s) \<and> sl_name (lg_objs s ! k) = name"
  by (auto simp: log_ok_def registry_ok_def)

lemma global_not_off: "log_ok L lg s \<Longrightarrow> sl_level (lg_objs s ! lo_logger lg) \<noteq> Off"
  by (simp add: log_ok_def)

context spdlog
begin

lemma parse_name: "l \<noteq> Off \<Longrightarrow> parseLevel (sp_level_name L l) = l"
  using level_names by (cases l) (simp_all add: parseLevel_def)

lemma child_level: "l \<noteq> Off \<Longrightarrow> systemLevel L env system l =
    (case env (''LOG_LEVEL_'' @ map toupper system) of None \<Rightarrow> l | Some v \<Rightarrow> parseLevel v)"
  by (simp add: systemLevel_def parse_name split: option.split)

lemma registered:
  assumes "registry_ok L objs reg" and "sp_get L (sl_name x) reg = None"
  obtains reg' where "sp_register L (sl_name x) (length objs) reg = (Inr (), reg')"
    "sp_get L (sl_name x) reg' = Some (length objs)" "registry_ok L (objs @ [x]) reg'"
proof -
  obtain reg' where reg: "sp_register L (sl_name x) (length objs) reg = (Inr (), reg')"
    "sp_get L (sl_name x) reg' = Some (length objs)"
    "\<And>m. m \<noteq> sl_name x \<Longrightarrow> sp_get L m reg' = sp_get L m reg"
    using register_free [OF assms(2)] by blast
  have "k < length (objs @ [x]) \<and> sl_name ((objs @ [x]) ! k) = m" if "sp_get L m reg' = Some k" for m k
    using that reg(2,3) assms(1)
    by (cases "m = sl_name x") (fastforce simp: registry_ok_def nth_append)+
  then show ?thesis using that reg(1,2) by (auto simp: registry_ok_def)
qed

lemma create_free:
  assumes ok: "log_ok L lg s" and free: "sp_get L (systemName lg system) (lg_registry s) = None"
  shows "\<exists>s'. createSystem L env lg system s = (Inr (length (lg_objs s)), s') \<and> log_ok L lg s' \<and>
    sp_get L (systemName lg system) (lg_registry s') = Some (length (lg_objs s)) \<and>
    lg_objs s' = lg_objs s @ [\<lparr>sl_name = systemName lg system,
      sl_level = systemLevel L env system (sl_level (lg_objs s ! lo_logger lg))\<rparr>]"
proof -
  let ?x = "\<lparr>sl_name = systemName lg system,
      sl_level = systemLevel L env system (sl_level (lg_objs s ! lo_logger lg))\<rparr>"
  obtain reg where "sp_register L (sl_name ?x) (length (lg_objs s)) (lg_registry s) = (Inr (), reg)"
    "sp_get L (sl_name ?x) reg = Some (length (lg_objs s))" "registry_ok L (lg_objs s @ [?x]) reg"
    by (rule registered [of "lg_objs s" "lg_registry s" ?x]) (use ok free in \<open>auto simp: log_ok_def\<close>)
  then show ?thesis
    using ok by (auto simp: createSystem_def andThen_def makeLogger_def registerLogger_def log_ok_def systemLevel_def)
qed

lemma create_taken:
  assumes "sp_get L (systemName lg system) (lg_registry s) = Some j"
  shows "\<exists>m s'. createSystem L env lg system s = (Inl (RuntimeError m), s') \<and> lg_registry s' = lg_registry s"
proof -
  obtain m where "sp_register L (systemName lg system) (length (lg_objs s)) (lg_registry s) =
      (Inl (RuntimeError m), lg_registry s)"
    using register_taken [OF assms] by blast
  then show ?thesis
    by (auto simp: createSystem_def andThen_def makeLogger_def registerLogger_def)
qed

lemma newLogger_ok:
  assumes "registry_ok L (lg_objs s) (lg_registry s)" and "\<forall>x \<in> set (lg_objs s). sl_level x \<noteq> Off"
    and "sp_get L serverName (lg_registry s) = None"
  shows "\<exists>lg s'. newLogger L env serverName s = (Inr lg, s') \<and> log_ok L lg s' \<and>
    lo_serverName lg = serverName"
proof -
  let ?x = "\<lparr>sl_name = serverName,
      sl_level = parseLevel (case env ''LOG_LEVEL'' of Some envLevel \<Rightarrow> envLevel | None \<Rightarrow> ''info'')\<rparr>"
  obtain reg where "sp_register L (sl_name ?x) (length (lg_objs s)) (lg_registry s) = (Inr (), reg)"
    "registry_ok L (lg_objs s @ [?x]) reg"
    by (rule registered [of "lg_objs s" "lg_registry s" ?x]) (use assms in auto)
  then show ?thesis
    using assms(2) by (auto simp: newLogger_def andThen_def makeLogger_def registerLogger_def log_ok_def)
qed

lemma setLevel_ok: "log_ok L lg s \<Longrightarrow> log_ok L lg (snd (setLevel lg level s))"
  by (auto simp: log_ok_def registry_ok_def setLevel_def nth_list_update
      dest!: set_update_subset_insert [THEN subsetD])

lemma getSystem_result:
  assumes ok: "log_ok L lg s"
  shows "\<exists>k s'. getSystem L env lg system s = (Inr k, s') \<and> log_ok L lg s' \<and>
    sl_name (lg_objs s' ! k) = systemName lg system \<and>
    getSystem L env lg system s' = (Inr k, s') \<and>
    (sp_get L (systemName lg system) (lg_registry s) = None \<longrightarrow>
       sl_level (lg_objs s' ! k) =
         (case env (''LOG_LEVEL_'' @ map toupper system) of
            None \<Rightarrow> sl_level (lg_objs s ! lo_logger lg) | Some v \<Rightarrow> parseLevel v))"
proof (cases "sp_get L (systemName lg system) (lg_registry s)")
  case (Some k)
  then have "getSystem L env lg system s = (Inr k, s)"
    by (simp add: getSystem_def lookupSystem_def andThen_def)
  then show ?thesis using log_okD [OF ok Some] ok Some by auto
next
  case None
  obtain s' where s': "createSystem L env lg system s = (Inr (length (lg_objs s)), s')" "log_ok L lg s'"
    "sp_get L (systemName lg system) (lg_registry s') = Some (length (lg_objs s))"
    "lg_objs s' = lg_objs s @ [\<lparr>sl_name = systemName lg system,
      sl_level = systemLevel L env system (sl_level (lg_objs s ! lo_logger lg))\<rparr>]"
    using create_free [OF ok None] by blast
  have "getSystem L env lg system s = (Inr (length (lg_objs s)), s')"
    "getSystem L env lg system s' = (Inr (length (lg_objs s)), s')"
    using None s'(1,3) by (simp_all add: getSystem_def lookupSystem_def andThen_def)
  then show ?thesis
    using s'(2,4) child_level [OF global_not_off [OF ok]] by simp
qed

end

section \<open>The promises can hold\<close>

text \<open>A registry that is an association list.\<close>

fun levelName :: "level_enum \<Rightarrow> string" where
  "levelName Trace = ''trace''"
| "levelName Debug = ''debug''"
| "levelName Info = ''info''"
| "levelName Warn = ''warning''"
| "levelName Err = ''error''"
| "levelName Critical = ''critical''"
| "levelName Off = ''off''"

definition listSpdlog :: "(string \<times> nat) list spdlog_lib" where
  "listSpdlog = \<lparr>sp_get = (\<lambda>name reg. map_of reg name),
     sp_register = (\<lambda>name k reg. if map_of reg name = None then (Inr (), (name, k) # reg)
                                 else (Inl (RuntimeError ''logger already exists''), reg)),
     sp_drop = AList.delete, sp_shutdown = (\<lambda>reg. []), sp_level_name = levelName\<rparr>"

interpretation list_registry: spdlog listSpdlog
  by unfold_locales (auto simp: listSpdlog_def)

definition noLoggers :: "(string \<times> nat) list log_state" where
  "noLoggers = \<lparr>lg_objs = [], lg_registry = []\<rparr>"

definition debugEnv :: environment where
  "debugEnv v = (if v = ''LOG_LEVEL'' then Some ''debug'' else if v = ''LOG_LEVEL_AUTH'' then Some ''warn'' else None)"

definition loginLogger :: LoggerObj where
  "loginLogger = \<lparr>lo_serverName = ''login-server'', lo_logger = 0\<rparr>"

definition loginLogs :: "(string \<times> nat) list log_state" where
  "loginLogs = \<lparr>lg_objs = [\<lparr>sl_name = ''login-server'', sl_level = Debug\<rparr>], lg_registry = [(''login-server'', 0)]\<rparr>"

lemma loginLogger_made: "newLogger listSpdlog debugEnv ''login-server'' noLoggers = (Inr loginLogger, loginLogs)"
  by (simp add: newLogger_def makeLogger_def registerLogger_def andThen_def listSpdlog_def noLoggers_def
      parseLevel_def debugEnv_def loginLogger_def loginLogs_def)

lemma loginLogs_ok: "log_ok listSpdlog loginLogger loginLogs"
  using list_registry.newLogger_ok [of noLoggers "''login-server''" debugEnv]
  by (simp add: loginLogger_made) (simp add: noLoggers_def listSpdlog_def registry_ok_def)

lemma no_auth_yet: "lookupSystem listSpdlog loginLogger ''auth'' loginLogs = (Inr None, loginLogs)"
  by (simp add: lookupSystem_def listSpdlog_def systemName_def loginLogger_def loginLogs_def)

section \<open>Properties\<close>



text \<open>
  The first use of a name by two threads at once: both look it up and find nothing, both register a
  logger of their own, and the second registration throws out of \<open>getSystem\<close>.
\<close>

lemma first_use_race:
  assumes "spdlog L" and "log_ok L lg s"
    and "lookupSystem L lg system s = (Inr None, s)"
  shows "\<exists>k s1 m s2. createSystem L env lg system s = (Inr k, s1) \<and>
    createSystem L env lg system s1 = (Inl (RuntimeError m), s2)"
proof -
  have free: "sp_get L (systemName lg system) (lg_registry s) = None"
    using assms(3) by (simp add: lookupSystem_def)
  obtain s1 where s1: "createSystem L env lg system s = (Inr (length (lg_objs s)), s1)"
    "sp_get L (systemName lg system) (lg_registry s1) = Some (length (lg_objs s))"
    using spdlog.create_free [OF assms(1,2) free] by blast
  then show ?thesis using spdlog.create_taken [OF assms(1) s1(2)] by blast
qed

lemma first_use_race_witness:
  "\<exists>k s1 m s2. createSystem listSpdlog debugEnv loginLogger ''auth'' loginLogs = (Inr k, s1) \<and>
     createSystem listSpdlog debugEnv loginLogger ''auth'' s1 = (Inl (RuntimeError m), s2)"
  by (rule first_use_race [OF list_registry.spdlog_axioms loginLogs_ok no_auth_yet])

end
