(* ===== verification/Threads.thy ===== *)
theory Threads
  imports Prelude
begin

text \<open>
  A computation that others may interrupt: it has ended with a result, or it is about to make a move
  on the shared state and go on. \<open>runT\<close> is the computation when nobody interrupts, an effect of
  \<open>Prelude\<close>; \<open>safeT\<close> says that each of its moves keeps an invariant it shares with others, whatever
  they did in between; and every computation ends after finitely many moves.
\<close>

section \<open>Computations move by move\<close>

datatype ('s, 'a) thread = Ended "exn + 'a" | More "'s \<Rightarrow> ('s, 'a) thread \<times> 's"

definition retT :: "'a \<Rightarrow> ('s, 'a) thread" where
  "retT x = Ended (Inr x)"

definition throwT :: "exn \<Rightarrow> ('s, 'a) thread" where
  "throwT e = Ended (Inl e)"

text \<open>An effect as one move.\<close>

definition atomT :: "('s, 'a) eff \<Rightarrow> ('s, 'a) thread" where
  "atomT m = More (\<lambda>s. case m s of (r, s') \<Rightarrow> (Ended r, s'))"

primrec thenT :: "('s, 'a) thread \<Rightarrow> ('a \<Rightarrow> ('s, 'b) thread) \<Rightarrow> ('s, 'b) thread" where
  "thenT (Ended r) f = (case r of Inl e \<Rightarrow> Ended (Inl e) | Inr x \<Rightarrow> f x)"
| "thenT (More g) f = More (\<lambda>s. map_prod (\<lambda>t. thenT t f) id (g s))"

primrec catchT :: "('s, 'a) thread \<Rightarrow> (exn \<Rightarrow> ('s, 'a) thread) \<Rightarrow> ('s, 'a) thread" where
  "catchT (Ended r) h = (case r of Inl e \<Rightarrow> h e | Inr x \<Rightarrow> Ended (Inr x))"
| "catchT (More g) h = More (\<lambda>s. map_prod (\<lambda>t. catchT t h) id (g s))"

text \<open>A destructor at the end of the scope, a move of its own.\<close>

primrec finallyT :: "('s, 'a) thread \<Rightarrow> ('s \<Rightarrow> 's) \<Rightarrow> ('s, 'a) thread" where
  "finallyT (Ended r) d = More (\<lambda>s. (Ended r, d s))"
| "finallyT (More g) d = More (\<lambda>s. map_prod (\<lambda>t. finallyT t d) id (g s))"

primrec mapT :: "'a list \<Rightarrow> ('a \<Rightarrow> ('s, 'b) thread) \<Rightarrow> ('s, 'b list) thread" where
  "mapT [] f = retT []"
| "mapT (x # xs) f = thenT (f x) (\<lambda>y. thenT (mapT xs f) (\<lambda>ys. retT (y # ys)))"

primrec forEachT :: "'a list \<Rightarrow> ('a \<Rightarrow> ('s, unit) thread) \<Rightarrow> ('s, unit) thread" where
  "forEachT [] f = retT ()"
| "forEachT (x # xs) f = thenT (f x) (\<lambda>_. forEachT xs f)"

lemma thread_moves [case_names Ended More]:
  assumes "\<And>r. P (Ended r)" and "\<And>g. (\<And>s. P (fst (g s))) \<Longrightarrow> P (More g)"
  shows "P t"
proof (induction t)
  case (More g)
  have "P (fst (g s))" for s by (rule More [of "g s"]) (simp_all add: fsts.simps prod_eq_iff)
  then show ?case by (rule assms(2))
qed (rule assms(1))

text \<open>The move that comes next.\<close>

primrec moveT :: "('s, 'a) thread \<Rightarrow> 's \<Rightarrow> (('s, 'a) thread \<times> 's) option" where
  "moveT (Ended r) = (\<lambda>s. None)"
| "moveT (More g) = (\<lambda>s. Some (g s))"

text \<open>Two computations on one state in a given order of their moves: \<open>True\<close> is the first one's turn.\<close>

fun weave ::
  "bool list \<Rightarrow> ('s, 'a) thread \<Rightarrow> ('s, 'b) thread \<Rightarrow> 's \<Rightarrow> ('s, 'a) thread \<times> ('s, 'b) thread \<times> 's" where
  "weave [] t u s = (t, u, s)"
| "weave (True # bs) t u s = (case moveT t s of None \<Rightarrow> weave bs t u s | Some (t', s') \<Rightarrow> weave bs t' u s')"
| "weave (False # bs) t u s = (case moveT u s of None \<Rightarrow> weave bs t u s | Some (u', s') \<Rightarrow> weave bs t u' s')"

section \<open>Without interruption\<close>

primrec runT :: "('s, 'a) thread \<Rightarrow> ('s, 'a) eff" where
  "runT (Ended r) = (\<lambda>s. (r, s))"
| "runT (More g) = (\<lambda>s. case map_prod runT id (g s) of (m, s') \<Rightarrow> m s')"

named_theorems run_simps "the effect of a computation that is not interrupted"

lemma run_ret [run_simps]: "runT (retT x) = ret x"
  by (simp add: retT_def ret_def)

lemma run_throw [run_simps]: "runT (throwT e) = throw e"
  by (simp add: throwT_def throw_def)

lemma run_atom [run_simps]: "runT (atomT m) = m"
  by (rule ext) (simp add: atomT_def split: prod.split)

lemma run_more: "runT (More g) s = runT (fst (g s)) (snd (g s))"
  by (simp split: prod.split) (metis fst_conv snd_conv map_prod_simp id_apply prod.exhaust_sel)

lemma run_then [run_simps]: "runT (thenT t f) = andThen (runT t) (\<lambda>x. runT (f x))"
proof (induction t rule: thread_moves)
  case (Ended r)
  then show ?case by (cases r) (auto simp: andThen_def)
next
  case (More g)
  show ?case
    by (rule ext) (use More in \<open>simp add: run_more andThen_def del: runT.simps\<close>)
qed

lemma run_catch [run_simps]: "runT (catchT t h) = tryCatch (runT t) (\<lambda>e. runT (h e))"
proof (induction t rule: thread_moves)
  case (Ended r)
  then show ?case by (cases r) (auto simp: tryCatch_def)
next
  case (More g)
  show ?case
    by (rule ext) (use More in \<open>simp add: run_more tryCatch_def del: runT.simps\<close>)
qed

lemma run_finally [run_simps]: "runT (finallyT t d) = scopeExit (runT t) d"
proof (induction t rule: thread_moves)
  case (Ended r)
  then show ?case by (auto simp: scopeExit_def)
next
  case (More g)
  show ?case
    by (rule ext) (use More in \<open>simp add: run_more scopeExit_def del: runT.simps\<close>)
qed

lemma andThen_unit [simp]: "andThen m ret = m"
  by (rule ext) (simp add: andThen_def ret_def split: prod.split sum.split)

lemma run_forEach [run_simps]: "runT (forEachT xs f) = forEach xs (\<lambda>x. runT (f x))"
  by (induction xs) (simp_all add: run_simps)

section \<open>Every computation ends\<close>

text \<open>What a move leaves is a part of the computation, so no computation moves for ever.\<close>

definition moved :: "(('s, 'a) thread \<times> ('s, 'a) thread) set" where
  "moved = {(t', t). \<exists>s s'. moveT t s = Some (t', s')}"

lemma movedI: "moveT t s = Some (t', s') \<Longrightarrow> (t', t) \<in> moved"
  by (auto simp: moved_def)

lemma wf_moved: "wf (moved :: (('s, 'a) thread \<times> ('s, 'a) thread) set)"
  unfolding wf_def
proof (intro allI impI)
  fix P :: "('s, 'a) thread \<Rightarrow> bool" and t :: "('s, 'a) thread"
  assume step: "\<forall>x. (\<forall>y. (y, x) \<in> moved \<longrightarrow> P y) \<longrightarrow> P x"
  show "P t"
  proof (induction t rule: thread_moves)
    case (Ended r)
    show ?case using step by (simp add: moved_def)
  next
    case (More g)
    then have "\<forall>y. (y, More g) \<in> moved \<longrightarrow> P y" by (auto simp: moved_def) (metis fst_conv)
    with step show ?case by blast
  qed
qed

section \<open>Moves that keep a shared invariant\<close>

text \<open>
  \<open>safeT I Q h t\<close>: a computation that holds the resources \<open>h\<close> and does \<open>t\<close>. While others hold \<open>o\<close> an
  invariant \<open>I x\<close> is about \<open>h @ o\<close>; each move keeps it, whatever the others have done since the last one,
  and at the end \<open>Q\<close> relates the result to what is then held. The index \<open>x\<close> may be another one at each
  move: a family that says the state is still \<open>x\<close> makes it a guarantee about the single moves.
\<close>

inductive safeT :: "('x \<Rightarrow> 'r list \<Rightarrow> 's \<Rightarrow> bool) \<Rightarrow> (exn + 'a \<Rightarrow> 'r list \<Rightarrow> bool) \<Rightarrow> 'r list \<Rightarrow> ('s, 'a) thread \<Rightarrow> bool"
  for I Q where
  Ended: "Q r h \<Longrightarrow> safeT I Q h (Ended r)"
| More: "(\<And>x o' s. I x (h @ o') s \<Longrightarrow> \<exists>h'. I x (h' @ o') (snd (g s)) \<and> safeT I Q h' (fst (g s))) \<Longrightarrow> safeT I Q h (More g)"

inductive_simps safeT_simps [simp]: "safeT I Q h (Ended r)" "safeT I Q h (More g)"

lemma safeT_move:
  assumes "safeT I Q h t" and "moveT t s = Some (t', s')" and "I x (h @ o') s"
  shows "\<exists>h'. I x (h' @ o') s' \<and> safeT I Q h' t'"
  using assms by (cases t) fastforce+

lemma safeT_mono: "safeT I Q h t \<Longrightarrow> (\<And>r h. Q r h \<Longrightarrow> R r h) \<Longrightarrow> safeT I R h t"
  by (induction rule: safeT.induct) (auto, blast)

lemma safe_then:
  assumes "safeT I Q h t" and "\<And>x h. Q (Inr x) h \<Longrightarrow> safeT I R h (f x)" and "\<And>e h. Q (Inl e) h \<Longrightarrow> R (Inl e) h"
  shows "safeT I R h (thenT t f)"
  using assms(1)
proof (induction rule: safeT.induct)
  case (Ended r h)
  then show ?case using assms(2,3) by (cases r) auto
next
  case (More h g)
  then show ?case by (simp, blast)
qed

lemma safe_catch:
  assumes "safeT I Q h t" and "\<And>e h. Q (Inl e) h \<Longrightarrow> safeT I R h (k e)" and "\<And>x h. Q (Inr x) h \<Longrightarrow> R (Inr x) h"
  shows "safeT I R h (catchT t k)"
  using assms(1)
proof (induction rule: safeT.induct)
  case (Ended r h)
  then show ?case using assms(2,3) by (cases r) auto
next
  case (More h g)
  then show ?case by (simp, blast)
qed

lemma safe_finally:
  assumes "safeT I Q h t" and "\<And>r h x o' s. Q r h \<Longrightarrow> I x (h @ o') s \<Longrightarrow> \<exists>h'. I x (h' @ o') (d s) \<and> R r h'"
  shows "safeT I R h (finallyT t d)"
  using assms(1)
proof (induction rule: safeT.induct)
  case (Ended r h)
  then show ?case using assms(2) by auto
next
  case (More h g)
  then show ?case by (simp, blast)
qed

lemma safe_atom:
  assumes "\<And>x o' s r s'. I x (h @ o') s \<Longrightarrow> m s = (r, s') \<Longrightarrow> \<exists>h'. I x (h' @ o') s' \<and> Q r h'"
  shows "safeT I Q h (atomT m)"
  unfolding atomT_def using assms by (auto split: prod.split)

text \<open>Most computations hold at the end what they held before.\<close>

abbreviation steadyT :: "('x \<Rightarrow> 'r list \<Rightarrow> 's \<Rightarrow> bool) \<Rightarrow> 'r list \<Rightarrow> ('s, 'a) thread \<Rightarrow> bool" where
  "steadyT I h \<equiv> safeT I (\<lambda>r h'. h' = h) h"

lemma steady_ret [simp]: "steadyT I h (retT x)" "steadyT I h (throwT e)"
  by (simp_all add: retT_def throwT_def)

lemma steady_atom: "(\<And>x o'. keeps (I x (h @ o')) m) \<Longrightarrow> steadyT I h (atomT m)"
  by (rule safe_atom) (metis keepsD snd_conv)

lemma steady_then: "steadyT I h t \<Longrightarrow> (\<And>x. steadyT I h (f x)) \<Longrightarrow> steadyT I h (thenT t f)"
  by (erule safe_then) simp_all

lemma steady_catch: "steadyT I h t \<Longrightarrow> (\<And>e. steadyT I h (k e)) \<Longrightarrow> steadyT I h (catchT t k)"
  by (erule safe_catch) simp_all

lemma steady_finally: "steadyT I h t \<Longrightarrow> (\<And>x o' s. I x (h @ o') s \<Longrightarrow> I x (h @ o') (d s)) \<Longrightarrow> steadyT I h (finallyT t d)"
  by (erule safe_finally) blast

lemma steady_map: "(\<And>x. steadyT I h (f x)) \<Longrightarrow> steadyT I h (mapT xs f)"
  by (induction xs) (auto intro!: steady_then)

lemma steady_forEach: "(\<And>x. steadyT I h (f x)) \<Longrightarrow> steadyT I h (forEachT xs f)"
  by (induction xs) (auto intro!: steady_then)

lemmas steady_intros = steady_then steady_catch steady_map steady_forEach

section \<open>Stages\<close>

text \<open>
  A computation goes through stages: at stage \<open>q\<close> its moves keep \<open>I q\<close>, and it gets from \<open>q\<close> to \<open>q'\<close> only
  by a move in a state where \<open>V q q'\<close> holds. What only a later stage permits is done after the checks
  that lead there.
\<close>

inductive stagedT ::
  "('q \<Rightarrow> 'x \<Rightarrow> 'r list \<Rightarrow> 's \<Rightarrow> bool) \<Rightarrow> ('q \<Rightarrow> 'q \<Rightarrow> 's \<Rightarrow> bool) \<Rightarrow> ('q \<Rightarrow> exn + 'a \<Rightarrow> 'r list \<Rightarrow> bool)
     \<Rightarrow> 'q \<Rightarrow> 'r list \<Rightarrow> ('s, 'a) thread \<Rightarrow> bool"
  for I V Q where
  Ended: "Q q r h \<Longrightarrow> stagedT I V Q q h (Ended r)"
| More: "(\<And>x o' s. I q x (h @ o') s \<Longrightarrow>
      \<exists>h' q'. I q x (h' @ o') (snd (g s)) \<and> (q' = q \<or> V q q' s) \<and> stagedT I V Q q' h' (fst (g s))) \<Longrightarrow>
    stagedT I V Q q h (More g)"

inductive_simps stagedT_simps [simp]: "stagedT I V Q q h (Ended r)" "stagedT I V Q q h (More g)"

lemma staged_move:
  assumes "stagedT I V Q q h t" and "moveT t s = Some (t', s')" and "I q x (h @ o') s"
  shows "\<exists>h' q'. I q x (h' @ o') s' \<and> (q' = q \<or> V q q' s) \<and> stagedT I V Q q' h' t'"
  using assms by (cases t) fastforce+

lemma staged_safe: "safeT (I q) (Q q) h t \<Longrightarrow> stagedT I V Q q h t"
proof (induction rule: safeT.induct)
  case (More h g)
  show ?case by (rule stagedT.More) (use More.IH in blast)
qed simp

lemma staged_wrap:
  assumes "\<And>x o' s. I q x (h @ o') s \<Longrightarrow> \<exists>h' q'. I q x (h' @ o') (snd (g s)) \<and> (q' = q \<or> V q q' s) \<and>
      stagedT I V Q q' h' (fst (g s)) \<and> stagedT I V R q' h' (F (fst (g s)))"
  shows "stagedT I V R q h (More (\<lambda>s. map_prod F id (g s)))"
proof (rule stagedT.More)
  fix x o' s assume "I q x (h @ o') s"
  from assms [OF this] show "\<exists>h' q'. I q x (h' @ o') (snd (map_prod F id (g s))) \<and> (q' = q \<or> V q q' s) \<and>
      stagedT I V R q' h' (fst (map_prod F id (g s)))" by (simp only: fst_map_prod snd_map_prod id_apply) iprover
qed

lemma staged_then:
  assumes "stagedT I V Q q h t" and "\<And>q x h. Q q (Inr x) h \<Longrightarrow> stagedT I V R q h (f x)"
    and "\<And>q e h. Q q (Inl e) h \<Longrightarrow> R q (Inl e) h"
  shows "stagedT I V R q h (thenT t f)"
  using assms(1)
proof (induction rule: stagedT.induct)
  case (Ended q r h)
  then show ?case using assms(2,3) by (cases r) auto
next
  case (More q h g)
  show ?case by (simp only: thenT.simps, rule staged_wrap [OF More.IH])
qed

lemma staged_catch:
  assumes "stagedT I V Q q h t" and "\<And>q e h. Q q (Inl e) h \<Longrightarrow> stagedT I V R q h (k e)"
    and "\<And>q x h. Q q (Inr x) h \<Longrightarrow> R q (Inr x) h"
  shows "stagedT I V R q h (catchT t k)"
  using assms(1)
proof (induction rule: stagedT.induct)
  case (Ended q r h)
  then show ?case using assms(2,3) by (cases r) auto
next
  case (More q h g)
  show ?case by (simp only: catchT.simps, rule staged_wrap [OF More.IH])
qed

lemma staged_finally:
  assumes "stagedT I V Q q h t"
    and "\<And>q r h x o' s. Q q r h \<Longrightarrow> I q x (h @ o') s \<Longrightarrow> \<exists>h'. I q x (h' @ o') (d s) \<and> R q r h'"
  shows "stagedT I V R q h (finallyT t d)"
  using assms(1)
proof (induction rule: stagedT.induct)
  case (Ended q r h)
  show ?case
    unfolding finallyT.simps by (rule stagedT.More) (use assms(2) [OF Ended] in \<open>simp, iprover intro: stagedT.Ended\<close>)
next
  case (More q h g)
  show ?case by (simp only: finallyT.simps, rule staged_wrap [OF More.IH])
qed

text \<open>An effect that may be what brings the computation to the next stage.\<close>

lemma staged_atom:
  assumes "\<And>x o' s r s'. I q x (h @ o') s \<Longrightarrow> m s = (r, s') \<Longrightarrow>
      \<exists>h' q'. I q x (h' @ o') s' \<and> (q' = q \<or> V q q' s) \<and> Q q' r h'"
  shows "stagedT I V Q q h (atomT m)"
  unfolding atomT_def using assms by (auto split: prod.split)

end
