(* ===== verification/Concurrent.thy ===== *)
theory Concurrent
  imports Threads Server
begin

text \<open>
  The handlers move by move. Where \<open>Handlers\<close> has a handler as one effect, here it can be interrupted:
  between taking and giving back a connection, between the transactions of a service, between the
  commit of a login and the storing of its session, around every call of the session registry, of a
  clock and of the network. What is left in one move is a call that holds a mutex for its whole body and
  the statements of one transaction up to its commit. \<open>run_task\<close>: without interruption this is the
  handler of \<open>Handlers\<close>.
\<close>

section \<open>Moves on the world\<close>

definition closeW :: "('w, 'c) senv \<Rightarrow> 'c \<Rightarrow> ('w, 'c) world \<Rightarrow> ('w, 'c) world" where
  "closeW E c s = s\<lparr>w_out := dl_close (se_db E) c (w_out s)\<rparr>"

text \<open>A destructor that runs only when an exception passes.\<close>

definition onError :: "('s, 'a) eff \<Rightarrow> ('s \<Rightarrow> 's) \<Rightarrow> ('s, 'a) eff" where
  "onError m d = (\<lambda>s. case m s of (Inl e, t) \<Rightarrow> (Inl e, d t) | (Inr x, t) \<Rightarrow> (Inr x, t))"

text \<open>
  \<open>pqxx::work\<close> whose statements, up to the commit or the abort, are \<open>m\<close>, and whose scope goes on with
  \<open>f\<close>.
\<close>

definition segment :: "('w, 'c) senv \<Rightarrow> 'c \<Rightarrow> (('w, 'c) world, 'a) eff \<Rightarrow> (('w, 'c) world, 'a) eff" where
  "segment E c m = andThen (onOut (dl_begin (se_db E) c)) (\<lambda>_. onError m (closeW E c))"

definition workT ::
  "('w, 'c) senv \<Rightarrow> 'c \<Rightarrow> (('w, 'c) world, 'a) eff \<Rightarrow> ('a \<Rightarrow> (('w, 'c) world, 'b) thread)
     \<Rightarrow> (('w, 'c) world, 'b) thread" where
  "workT E c m f = thenT (atomT (segment E c m)) (\<lambda>x. finallyT (f x) (closeW E c))"

definition guardT ::
  "('w, 'c) senv \<Rightarrow> (nat \<Rightarrow> (('w, 'c) world, 'a) thread) \<Rightarrow> (('w, 'c) world, 'a) thread" where
  "guardT E body = thenT (atomT (acquireW E)) (\<lambda>k. finallyT (body k) (releaseW k))"

definition respondT :: "('w, 'c) senv \<Rightarrow> sock option \<Rightarrow> string \<Rightarrow> builder \<Rightarrow> (('w, 'c) world, unit) thread" where
  "respondT E so status b =
     thenT (atomT (onNet (genResponse (se_net E) status (build b)))) (\<lambda>line.
       atomT (onNet (sendResponse (se_net E) so line)))"

definition storeSessionT :: "('w, 'c) senv \<Rightarrow> ClientDataStruct \<Rightarrow> (('w, 'c) world, unit) thread" where
  "storeSessionT E d = thenT (atomT (tickW (se_steady E))) (\<lambda>now. atomT (onSessions (storeClientData now d)))"

lemma run_if [run_simps]: "runT (if b then t else u) = (if b then runT t else runT u)"
  by simp

lemma run_cases [run_simps]:
  "runT (case_option t f x) = case_option (runT t) (\<lambda>y. runT (f y)) x"
  "runT (case_sum g h r) = case_sum (\<lambda>y. runT (g y)) (\<lambda>y. runT (h y)) r"
  "runT (case_prod k p) = case_prod (\<lambda>y z. runT (k y z)) p"
  by (simp_all split: option.split sum.split prod.split)

lemmas run_cong = if_cong option.case_cong sum.case_cong prod.case_cong

lemma andThen_if: "andThen (if b then m else n) f = (if b then andThen m f else andThen n f)"
  by simp

lemma onNet_andThen: "onNet (andThen m f) = andThen (onNet m) (\<lambda>x. onNet (f x))"
  by (rule ext) (simp add: onNet_def andThen_def split: prod.split sum.split)

lemma run_work [run_simps]: "runT (workT E c m f) = withWork E c (andThen m (\<lambda>x. runT (f x)))"
  by (rule ext)
     (simp add: workT_def run_simps withWork_def segment_def onError_def closeW_def scopeExit_def andThen_def
        split: prod.split sum.split)

lemma run_guard [run_simps]: "runT (guardT E body) = withGuard E (\<lambda>k. runT (body k))"
  by (simp add: guardT_def withGuard_def run_simps)

lemma run_respond [run_simps]: "runT (respondT E so status b) = respond E so status b"
  by (simp add: respondT_def respond_def run_simps onNet_andThen)

lemma run_store [run_simps]: "runT (storeSessionT E d) = storeSession E d"
  by (simp add: storeSessionT_def storeSession_def run_simps)

section \<open>The services\<close>

text \<open>The first transaction of a login: an outcome already, or the user's id and role.\<close>

definition loginPhase ::
  "('w, 'c) senv \<Rightarrow> 'c \<Rightarrow> string \<Rightarrow> string \<Rightarrow> string \<Rightarrow> string
     \<Rightarrow> (('w, 'c) world, AuthOutcome + int \<times> int) eff" where
  "loginPhase E c login password clientIp clientVersion =
     andThen (exec_prepared E c (SearchUser login)) (\<lambda>rows.
       if rows = [] then
         andThen (probeStatus E c login) (\<lambda>status.
         andThen (abortT E c) (\<lambda>_. ret (Inl (outcome status 0))))
       else let row = hd rows in
         andThen (lift_res (colInt ''id'' row)) (\<lambda>userID.
         andThen (lift_res (colText ''password'' row)) (\<lambda>storedPassword.
         andThen (lift_res (colOr 0 asInt ''role'' row)) (\<lambda>role.
         andThen (hashPasswordW E password) (\<lambda>hashedInput.
           if storedPassword \<noteq> hashedInput then
             andThen (exec_prepared E c (IncrementFailedLogins login)) (\<lambda>_.
             andThen (commitT E c) (\<lambda>_. ret (Inl (outcome INVALID_CREDENTIALS 0))))
           else
             let ipStr = (if clientIp = [] then ''127.0.0.1'' else clientIp) in
             andThen (exec_prepared E c (ResetFailedLogins userID ipStr clientVersion)) (\<lambda>_.
             andThen (commitT E c) (\<lambda>_. ret (Inr (userID, role)))))))))"

definition rotateTokens :: "('w, 'c) senv \<Rightarrow> 'c \<Rightarrow> int \<Rightarrow> string \<Rightarrow> string \<Rightarrow> (('w, 'c) world, unit) eff" where
  "rotateTokens E c userID uniqueHash clientVersion =
     andThen (exec_prepared E c (RevokeUserSessions userID)) (\<lambda>_.
     andThen (exec_prepared E c CleanupExpiredSessions) (\<lambda>_.
     andThen (exec_prepared E c (CreateUserSession userID uniqueHash clientVersion)) (\<lambda>_. commitT E c)))"

definition openSessionT ::
  "('w, 'c) senv \<Rightarrow> 'c \<Rightarrow> int \<Rightarrow> string \<Rightarrow> int \<Rightarrow> string \<Rightarrow> (('w, 'c) world, AuthOutcome) thread" where
  "openSessionT E c userID login role clientVersion =
     thenT (atomT (tickW (se_uuid E))) (\<lambda>uniqueHash.
       workT E c (rotateTokens E c userID uniqueHash clientVersion) (\<lambda>_.
         thenT (storeSessionT E
           (newClient\<lparr>cd_clientId := userID, cd_login := login, cd_hash := uniqueHash,
                      cd_role := role, cd_clientVersion := clientVersion\<rparr>)) (\<lambda>_.
           retT (outcome AUTH_OK userID))))"

definition admitUserT ::
  "('w, 'c) senv \<Rightarrow> 'c \<Rightarrow> int \<Rightarrow> string \<Rightarrow> int \<Rightarrow> string \<Rightarrow> (('w, 'c) world, AuthOutcome) thread" where
  "admitUserT E c userID login role clientVersion =
     thenT (atomT (checkBan E c userID)) (\<lambda>ban.
       case ban of
         Some b \<Rightarrow> retT b
       | None \<Rightarrow> openSessionT E c userID login role clientVersion)"

definition authenticateT ::
  "('w, 'c) senv \<Rightarrow> 'c \<Rightarrow> string \<Rightarrow> string \<Rightarrow> string \<Rightarrow> string \<Rightarrow> (('w, 'c) world, AuthOutcome) thread" where
  "authenticateT E c login password clientIp clientVersion =
     catchT
       (workT E c (loginPhase E c login password clientIp clientVersion) (\<lambda>found.
          case found of
            Inl o' \<Rightarrow> retT o'
          | Inr (userID, role) \<Rightarrow> admitUserT E c userID login role clientVersion))
       (\<lambda>e. retT (outcome DB_ERROR 0))"

definition insertAccount ::
  "('w, 'c) senv \<Rightarrow> 'c \<Rightarrow> string \<Rightarrow> string \<Rightarrow> string \<Rightarrow> string \<Rightarrow> string
     \<Rightarrow> (('w, 'c) world, (int \<times> string) option) eff" where
  "insertAccount E c login passwordHash email ipStr clientVersion =
     andThen (exec_prepared E c (RegisterUser login passwordHash email ipStr clientVersion)) (\<lambda>rows.
       if rows = [] then andThen (abortT E c) (\<lambda>_. ret None)
       else andThen (lift_res (colInt ''id'' (hd rows))) (\<lambda>userId.
            andThen (tickW (se_uuid E)) (\<lambda>sessionHash.
            andThen (rotateTokens E c userId sessionHash clientVersion) (\<lambda>_.
              ret (Some (userId, sessionHash))))))"

definition createAccountT ::
  "('w, 'c) senv \<Rightarrow> 'c \<Rightarrow> string \<Rightarrow> string \<Rightarrow> string \<Rightarrow> string \<Rightarrow> string \<Rightarrow> int \<Rightarrow> string
     \<Rightarrow> (('w, 'c) world, registration) thread" where
  "createAccountT E c login passwordHash email ipStr clientVersion outUserId outHash =
     workT E c (insertAccount E c login passwordHash email ipStr clientVersion) (\<lambda>made.
       case made of
         None \<Rightarrow> retT (REG_ERR_DB, outUserId, outHash)
       | Some (userId, sessionHash) \<Rightarrow>
           thenT (storeSessionT E
             (newClient\<lparr>cd_clientId := userId, cd_login := login, cd_hash := sessionHash,
                        cd_clientVersion := clientVersion\<rparr>)) (\<lambda>_.
             retT (REG_OK, userId, sessionHash)))"

definition checkLogin :: "('w, 'c) senv \<Rightarrow> 'c \<Rightarrow> string \<Rightarrow> (('w, 'c) world, bool) eff" where
  "checkLogin E c login =
     withWork E c
       (andThen (exec_prepared E c (CheckLoginAvailable login)) (\<lambda>r.
        andThen (abortT E c) (\<lambda>_. ret (r \<noteq> []))))"

definition registerAccountT ::
  "('w, 'c) senv \<Rightarrow> 'c \<Rightarrow> string \<Rightarrow> string \<Rightarrow> string \<Rightarrow> string \<Rightarrow> string \<Rightarrow> int \<Rightarrow> string
     \<Rightarrow> (('w, 'c) world, registration) thread" where
  "registerAccountT E c login password email registrationIp clientVersion outUserId outHash =
     (let valid = validateRegistration login password email in
      if valid \<noteq> REG_OK then retT (valid, outUserId, outHash)
      else catchT
        (thenT (atomT (checkLogin E c login)) (\<lambda>taken.
           if taken then retT (ERR_LOGIN_TAKEN, outUserId, outHash)
           else thenT (atomT (hashPasswordW E password)) (\<lambda>passwordHash.
             let ipStr = (if registrationIp = [] then ''127.0.0.1'' else registrationIp) in
             createAccountT E c login passwordHash email ipStr clientVersion outUserId outHash)))
        (\<lambda>e. retT (REG_ERR_DB, outUserId, outHash)))"

lemma run_admit: "runT (admitUserT E c u login role ver) = admitUser E c u login role ver"
  by (simp add: admitUserT_def admitUser_def openSessionT_def openSession_def rotateTokens_def run_simps andThen_assoc
      cong: run_cong)

lemma run_authenticate [run_simps]: "runT (authenticateT E c login pw ip ver) = authenticate E c login pw ip ver"
  by (simp add: authenticateT_def authenticate_def loginPhase_def checkUser_def Let_def run_simps run_admit
      andThen_assoc andThen_if cong: run_cong del: ret_app)

lemma run_register [run_simps]:
  "runT (registerAccountT E c login pw email ip ver u h) = registerAccount E c login pw email ip ver u h"
  by (simp add: registerAccountT_def registerAccount_def createAccountT_def createAccount_def insertAccount_def
      checkLogin_def rotateTokens_def Let_def run_simps andThen_assoc andThen_if cong: run_cong del: ret_app)

section \<open>The handlers\<close>

definition clientIpT :: "('w, 'c) senv \<Rightarrow> sock option \<Rightarrow> (('w, 'c) world, string) thread" where
  "clientIpT E so =
     (case so of
        None \<Rightarrow> retT ''127.0.0.1''
      | Some s \<Rightarrow>
          thenT (atomT (readS (\<lambda>w. s \<in> set (io_open (n_io (w_net w)))))) (\<lambda>is_open.
            if \<not> is_open then retT ''127.0.0.1''
            else thenT (atomT (tickW (ne_peer (se_net E) s))) (\<lambda>endpoint.
                 retT (case endpoint of None \<Rightarrow> ''127.0.0.1'' | Some ip \<Rightarrow> ip))))"

definition authenticateClientT ::
  "('w, 'c) senv \<Rightarrow> nat \<Rightarrow> ClientDataStruct \<Rightarrow> (('w, 'c) world, unit) thread" where
  "authenticateClientT E k passed =
     thenT (clientIpT E (cd_socket passed)) (\<lambda>clientIp.
     thenT (atomT (guardGet k)) (\<lambda>c.
     thenT (authenticateT E c (cd_login passed) (cd_password passed) clientIp (cd_clientVersion passed)) (\<lambda>outcome.
       if ao_status outcome \<noteq> AUTH_OK then
         respondT E (cd_socket passed) ''error''
           (setBody ''banExpiresAt'' (JStr (ao_banExpiresAt outcome))
             (setBody ''banReason'' (JStr (ao_banReason outcome))
               (authReply (authCode (ao_status outcome)) passed)))
       else
         thenT (atomT (readS (\<lambda>w. getClientData (ao_userId outcome) (w_sessions w)))) (\<lambda>currentClientData.
           if ao_userId outcome = 0 \<or> currentClientData = None then
             respondT E (cd_socket passed) ''error'' (emptyBody (authReply ''ERR_INTERNAL'' passed))
           else
             respondT E (cd_socket passed) ''success'' (loginSuccess (the currentClientData))))))"

definition catchVariantT :: "('s, unit) thread \<Rightarrow> ('s, unit) thread" where
  "catchVariantT t = catchT t (\<lambda>e. if e = BadVariantAccess then retT () else throwT e)"

definition withClientT :: "Event \<Rightarrow> (ClientDataStruct \<Rightarrow> ('s, unit) thread) \<Rightarrow> ('s, unit) thread" where
  "withClientT ev body = (case ev_data ev of ED_client passed \<Rightarrow> body passed | _ \<Rightarrow> retT ())"

definition loginT :: "('w, 'c) senv \<Rightarrow> Event \<Rightarrow> (('w, 'c) world, unit) thread" where
  "loginT E ev =
     catchVariantT (withClientT ev (\<lambda>passed.
       thenT
         (catchT (thenT (atomT (acquireW E)) (\<lambda>k. retT (Some k)))
           (\<lambda>ex. thenT (respondT E (cd_socket passed) ''error'' (emptyBody (authReply ''ERR_DB'' passed)))
                   (\<lambda>_. retT None))) (\<lambda>poolGuard.
         case poolGuard of
           None \<Rightarrow> retT ()
         | Some k \<Rightarrow> finallyT (authenticateClientT E k passed) (releaseW k))))"

definition sessionGuardT ::
  "('w, 'c) senv \<Rightarrow> string \<Rightarrow> builder \<Rightarrow> ClientDataStruct \<Rightarrow> (('w, 'c) world, unit) thread
     \<Rightarrow> (('w, 'c) world, unit) thread" where
  "sessionGuardT E eventType unauthorized passed body =
     (if cd_clientId passed = 0 \<or> cd_hash passed = [] then
        respondT E (cd_socket passed) ''error'' (emptyBody unauthorized)
      else thenT (atomT (readS (\<lambda>w. validateSession (cd_clientId passed) (cd_hash passed) (w_sessions w)))) (\<lambda>valid.
        if \<not> valid then
          respondT E (cd_socket passed) ''error''
            (emptyBody (reply ''ERR_SESSION_INVALID'' (cd_hash passed) (cd_clientId passed) eventType))
        else body))"

definition characterJsonT ::
  "('w, 'c) senv \<Rightarrow> nat \<Rightarrow> CharacterDataStruct \<Rightarrow> (('w, 'c) world, json) thread" where
  "characterJsonT E k character =
     thenT (atomT (guardGet k)) (\<lambda>c.
     thenT (atomT (getCharacterEquipmentPreview E c (ch_characterId character))) (\<lambda>equip.
       retT (objOf [(''characterId'', JInt (ch_characterId character)),
                   (''characterName'', JStr (ch_characterName character)),
                   (''classSlug'', JStr (ch_characterClass character)),
                   (''raceSlug'', JStr (ch_characterRace character)),
                   (''genderSlug'', JStr (ch_characterGender character)),
                   (''characterLevel'', JInt (ch_characterLevel character)),
                   (''isOnline'', JBool (ch_isOnline character)),
                   (''equipment'', JArr (map equipmentJson equip))])))"

definition listCharactersT ::
  "('w, 'c) senv \<Rightarrow> int \<Rightarrow> ClientDataStruct \<Rightarrow> ClientDataStruct \<Rightarrow> (('w, 'c) world, unit) thread" where
  "listCharactersT E clientID passed cur =
     guardT E (\<lambda>k.
       thenT (atomT (guardGet k)) (\<lambda>c.
       thenT (atomT (getCharactersList E c clientID)) (\<lambda>charactersList.
       thenT (mapT charactersList (characterJsonT E k)) (\<lambda>charactersListJson.
         respondT E (cd_socket passed) ''success''
           (setBody ''charactersList'' (JArr charactersListJson)
             (reply ''Characters list retrieved successfully!'' (cd_hash cur) (cd_clientId cur)
                ''getCharactersList''))))))"

definition listT :: "('w, 'c) senv \<Rightarrow> Event \<Rightarrow> (('w, 'c) world, unit) thread" where
  "listT E ev =
     catchVariantT (withClientT ev (\<lambda>passed.
       sessionGuardT E ''getCharactersList''
         (reply ''Authentication failed for user!'' (cd_hash passed) (cd_clientId passed) ''getCharactersList'') passed
         (thenT (atomT (tickW (se_steady E))) (\<lambda>now.
          thenT (atomT (onSessions (\<lambda>m. snd (touchSession now (cd_clientId passed) 0 m)))) (\<lambda>_.
          thenT (atomT (readS (\<lambda>w. getClientData (cd_clientId passed) (w_sessions w)))) (\<lambda>currentClientData.
            case currentClientData of
              None \<Rightarrow>
                respondT E (cd_socket passed) ''error''
                  (emptyBody (reply ''ERR_SESSION_INVALID'' (cd_hash passed) (cd_clientId passed) ''getCharactersList''))
            | Some cur \<Rightarrow> listCharactersT E (ev_clientID ev) passed cur))))))"

definition createT :: "('w, 'c) senv \<Rightarrow> Event \<Rightarrow> (('w, 'c) world, unit) thread" where
  "createT E ev =
     catchVariantT (withClientT ev (\<lambda>passed.
       sessionGuardT E ''createCharacter''
         (reply ''Unauthorized'' (cd_hash passed) (cd_clientId passed) ''createCharacter'') passed
         (guardT E (\<lambda>k.
            thenT (atomT (guardGet k)) (\<lambda>c.
            thenT (let charData = cd_characterData passed in
                   atomT (createCharacter E c (cd_clientId passed) (ch_characterName charData)
                     (ch_characterClass charData) (ch_characterRace charData)
                     (ch_characterGender charData))) (\<lambda>result.
              if result \<le> 0 then
                respondT E (cd_socket passed) ''error''
                  (emptyBody (reply (createError result) (cd_hash passed) (cd_clientId passed) ''createCharacter''))
              else
                respondT E (cd_socket passed) ''success''
                  (setBody ''characterId'' (JInt result)
                    (reply ''Character created successfully'' (cd_hash passed) (cd_clientId passed)
                       ''createCharacter''))))))))"

definition deleteT :: "('w, 'c) senv \<Rightarrow> Event \<Rightarrow> (('w, 'c) world, unit) thread" where
  "deleteT E ev =
     catchVariantT (withClientT ev (\<lambda>passed.
       sessionGuardT E ''deleteCharacter'' (reply ''Unauthorized'' [] 0 ''deleteCharacter'') passed
         (let characterId = ch_characterId (cd_characterData passed);
              answer = (\<lambda>message. reply message (cd_hash passed) (cd_clientId passed) ''deleteCharacter'')
          in if characterId \<le> 0 then
               respondT E (cd_socket passed) ''error'' (emptyBody (answer ''ERR_INVALID_CHARACTER_ID''))
             else
               guardT E (\<lambda>k.
                 thenT (atomT (guardGet k)) (\<lambda>c.
                 thenT (atomT (deleteCharacter E c (cd_clientId passed) characterId)) (\<lambda>deleted.
                   if \<not> deleted then
                     respondT E (cd_socket passed) ''error'' (emptyBody (answer ''ERR_CHARACTER_NOT_FOUND''))
                   else
                     respondT E (cd_socket passed) ''success''
                       (setBody ''characterId'' (JInt characterId) (answer ''Character deleted successfully''))))))))"

definition readOptions :: "('w, 'c) senv \<Rightarrow> 'c \<Rightarrow> (('w, 'c) world, row list \<times> row list \<times> row list) eff" where
  "readOptions E c =
     andThen (exec_prepared E c GetCharacterClasses) (\<lambda>classRows.
     andThen (exec_prepared E c GetCharacterRaces) (\<lambda>raceRows.
     andThen (exec_prepared E c GetCharacterGenders) (\<lambda>genderRows.
     andThen (commitT E c) (\<lambda>_. ret (classRows, raceRows, genderRows)))))"

definition creationOptionsT ::
  "('w, 'c) senv \<Rightarrow> 'c \<Rightarrow> ClientDataStruct \<Rightarrow> (('w, 'c) world, unit) thread" where
  "creationOptionsT E c passed =
     workT E c (readOptions E c) (\<lambda>(classRows, raceRows, genderRows).
       thenT (atomT (mapE classRows (\<lambda>row. lift_res (classJson row)))) (\<lambda>classes.
       thenT (atomT (mapE raceRows (\<lambda>row. lift_res (raceJson row)))) (\<lambda>races.
       thenT (atomT (mapE genderRows (\<lambda>row. lift_res (genderJson row)))) (\<lambda>genders.
         respondT E (cd_socket passed) ''success''
           (setBody ''genders'' (JArr genders) (setBody ''races'' (JArr races) (setBody ''classes'' (JArr classes)
             (reply ''Options retrieved successfully'' (cd_hash passed) (cd_clientId passed)
                ''getCharacterCreationOptions''))))))))"

definition optionsT :: "('w, 'c) senv \<Rightarrow> Event \<Rightarrow> (('w, 'c) world, unit) thread" where
  "optionsT E ev =
     catchT
       (withClientT ev (\<lambda>passed.
          sessionGuardT E ''getCharacterCreationOptions'' (reply ''Unauthorized'' [] 0 ''getCharacterCreationOptions'')
            passed
            (guardT E (\<lambda>k. thenT (atomT (guardGet k)) (\<lambda>c. creationOptionsT E c passed)))))
       (\<lambda>ex. retT ())"

definition broadcastT :: "('w, 'c) senv \<Rightarrow> string \<Rightarrow> (('w, 'c) world, unit) thread" where
  "broadcastT E responseData =
     thenT (atomT (readS (\<lambda>w. getClientsDataMap (w_sessions w)))) (\<lambda>clients.
       forEachT clients (\<lambda>(i, client). atomT (onNet (sendResponse (se_net E) (cd_socket client) responseData))))"

definition disconnectT :: "('w, 'c) senv \<Rightarrow> Event \<Rightarrow> (('w, 'c) world, unit) thread" where
  "disconnectT E ev =
     catchVariantT (withClientT ev (\<lambda>passed.
       thenT (atomT (readS (\<lambda>w. validateSession (cd_clientId passed) (cd_hash passed) (w_sessions w)))) (\<lambda>valid.
       thenT
         (if cd_clientId passed \<noteq> 0 \<and> cd_hash passed \<noteq> [] \<and> \<not> valid then retT ()
          else atomT (onSessions (\<lambda>m. snd (removeClientData (cd_clientId passed) m)))) (\<lambda>_.
       thenT (atomT (onNet (genResponse (se_net E) ''success''
           (build (emptyBody (reply ''Client disconnected!'' [] (cd_clientId passed) ''disconnectClient'')))))) (\<lambda>responseData.
         broadcastT E responseData)))))"

definition pingT :: "('w, 'c) senv \<Rightarrow> Event \<Rightarrow> (('w, 'c) world, unit) thread" where
  "pingT E ev =
     catchVariantT (withClientT ev (\<lambda>passed.
       thenT
         (catchT (if ev_hasTimestamps ev then thenT (atomT (lift_res (getTimestamps ev))) (\<lambda>ts. retT (Some ts))
                  else retT None) (\<lambda>e. retT None)) (\<lambda>timestamps.
         case timestamps of
           Some ts \<Rightarrow>
             thenT (atomT (onNet (genResponseTs (se_net E) ''success'' (build (emptyBody (setTimestamps ts pong))) ts)))
               (\<lambda>line. atomT (onNet (sendResponse (se_net E) (cd_socket passed) line)))
         | None \<Rightarrow> respondT E (cd_socket passed) ''success'' (emptyBody pong))))"

definition registerClientT ::
  "('w, 'c) senv \<Rightarrow> RegistrationDataStruct \<Rightarrow> (('w, 'c) world, unit) thread" where
  "registerClientT E reg =
     guardT E (\<lambda>k.
       thenT (atomT (guardGet k)) (\<lambda>c.
       thenT (registerAccountT E c (reg_login reg) (reg_password reg) (reg_email reg) (reg_registrationIp reg)
                  (reg_clientVersion reg) 0 []) (\<lambda>(result, userId, sessionHash).
         if result \<noteq> REG_OK then
           respondT E (reg_socket reg) ''error'' (emptyBody (reply (registerError result) [] 0 ''registerAccount''))
         else
           respondT E (reg_socket reg) ''success''
             (emptyBody (setHeaders [(''message'', JStr ''Registration successful''), (''hash'', JStr sessionHash),
                                     (''clientId'', JInt userId), (''login'', JStr (reg_login reg)),
                                     (''eventType'', JStr ''registerAccount'')] newBuilder)))))"

definition registerT :: "('w, 'c) senv \<Rightarrow> Event \<Rightarrow> (('w, 'c) world, unit) thread" where
  "registerT E ev =
     (case ev_data ev of
        ED_registration reg \<Rightarrow>
          catchT (registerClientT E reg)
            (\<lambda>ex. catchT
               (if reg_socket reg = None then retT ()
                else respondT E (reg_socket reg) ''error'' (emptyBody (reply ''ERR_INTERNAL'' [] 0 ''registerAccount'')))
               (\<lambda>ex. retT ()))
      | _ \<Rightarrow> retT ())"

definition dispatchT :: "('w, 'c) senv \<Rightarrow> Event \<Rightarrow> (('w, 'c) world, unit) thread" where
  "dispatchT E ev =
     (case ev_type ev of
        PING_CLIENT \<Rightarrow> pingT E ev
      | AUTH_CLIENT \<Rightarrow> loginT E ev
      | REGISTER_ACCOUNT \<Rightarrow> registerT E ev
      | GET_CHARACTERS_LIST \<Rightarrow> listT E ev
      | CREATE_CHARACTER \<Rightarrow> createT E ev
      | DELETE_CHARACTER \<Rightarrow> deleteT E ev
      | GET_CHARACTER_CREATION_OPTIONS \<Rightarrow> optionsT E ev
      | DISCONNECT_CLIENT \<Rightarrow> disconnectT E ev)"

definition taskT :: "('w, 'c) senv \<Rightarrow> Event \<Rightarrow> (('w, 'c) world, unit) thread" where
  "taskT E eventCopy = catchT (dispatchT E eventCopy) (\<lambda>e. retT ())"

text \<open>The idle round of the event loop.\<close>

definition cleanupT :: "('w, 'c) senv \<Rightarrow> int \<Rightarrow> (('w, 'c) world, unit) thread" where
  "cleanupT E intervalMs =
     thenT
       (catchT
         (guardT E (\<lambda>k. thenT (atomT (guardGet k)) (\<lambda>c.
            workT E c (andThen (exec_prepared E c CleanupExpiredSessions) (\<lambda>_. commitT E c)) retT)))
         (\<lambda>ex. retT ())) (\<lambda>_.
     thenT (thenT (atomT (tickW (se_steady E))) (\<lambda>now.
       atomT (onSessions (\<lambda>m. snd (sweepExpiredSessions now (int32 (2 * intervalMs)) m))))) (\<lambda>_.
       atomT (onNet (updS (\<lambda>n. n\<lparr>n_io := gcWriteQueues (n_io n)\<rparr>)))))"

section \<open>Without interruption these are the handlers\<close>

lemma run_map [run_simps]: "runT (mapT xs f) = mapE xs (\<lambda>x. runT (f x))"
  by (induction xs) (simp_all add: run_simps)

lemma run_catchVariant [run_simps]: "runT (catchVariantT t) = catchVariant (runT t)"
  by (simp add: catchVariantT_def catchVariant_def run_simps cong: run_cong)

lemma run_withClient [run_simps]: "runT (withClientT ev body) = withClient ev (\<lambda>d. runT (body d))"
  by (simp add: withClientT_def withClient_def run_simps split: EventData.split)

lemma run_sessionGuard [run_simps]:
  "runT (sessionGuardT E et u d body) = sessionGuard E et u d (runT body)"
  by (simp add: sessionGuardT_def sessionGuard_def run_simps cong: run_cong)

lemma run_authenticateClient [run_simps]: "runT (authenticateClientT E k d) = authenticateClient E k d"
proof -
  have "runT (clientIpT E so) = clientIpOf E so" for so
    by (simp add: clientIpT_def clientIpOf_def run_simps cong: run_cong)
  then show ?thesis by (simp add: authenticateClientT_def authenticateClient_def run_simps cong: run_cong)
qed

lemma run_characterJson [run_simps]: "runT (characterJsonT E k ch) = characterJson E k ch"
  by (simp add: characterJsonT_def characterJson_def run_simps)

lemma run_dispatch: "runT (dispatchT E ev) = dispatchEvent E ev"
proof -
  have "runT (pingT E ev) = handlePingClientEvent E ev"
    by (simp add: pingT_def handlePingClientEvent_def run_simps onNet_andThen cong: run_cong)
  moreover have "runT (loginT E ev) = handleAuthentificateClientEvent E ev"
    by (simp add: loginT_def handleAuthentificateClientEvent_def run_simps cong: run_cong)
  moreover have "runT (registerT E ev) = handleRegisterAccountEvent E ev"
    by (simp add: registerT_def handleRegisterAccountEvent_def registerClientT_def registerClient_def run_simps
        cong: run_cong split: EventData.split)
  moreover have "runT (listT E ev) = handleGetCharactersListEvent E ev"
    by (simp add: listT_def handleGetCharactersListEvent_def listCharactersT_def listCharacters_def run_simps
        cong: run_cong)
  moreover have "runT (createT E ev) = handleCreateCharacterEvent E ev"
    by (simp add: createT_def handleCreateCharacterEvent_def Let_def run_simps cong: run_cong)
  moreover have "runT (deleteT E ev) = handleDeleteCharacterEvent E ev"
    by (simp add: deleteT_def handleDeleteCharacterEvent_def Let_def run_simps cong: run_cong)
  moreover have "runT (optionsT E ev) = handleGetCharacterCreationOptionsEvent E ev"
    by (simp add: optionsT_def handleGetCharacterCreationOptionsEvent_def creationOptionsT_def creationOptions_def
        readOptions_def run_simps andThen_assoc cong: run_cong)
  moreover have "runT (disconnectT E ev) = handleDisconnectClientEvent E ev"
    by (simp add: disconnectT_def handleDisconnectClientEvent_def broadcastT_def broadcast_def run_simps cong: run_cong)
  ultimately show ?thesis by (simp add: dispatchT_def dispatchEvent_def split: EventType.split)
qed

lemma run_cleanup: "runT (cleanupT E ms) = periodicCleanup E ms"
  by (simp add: cleanupT_def periodicCleanup_def cleanupDatabase_def sweepSessions_def run_simps andThen_unit)

lemma run_task: "runT (taskT E ev) = runTask E ev"
  by (simp add: taskT_def runTask_def run_simps run_dispatch)


section \<open>What an interruption can do\<close>

text \<open>
  Two logins of one account, each with the right password: the first commits its token, the second
  revokes it, commits its own and stores its session, and then the first stores its session. The
  session in memory has the first token, which the database has revoked, and the token that is active
  in the database is not accepted.
\<close>

lemma racing_logins:
  fixes c1 c2 :: nat
  defines "login \<equiv> (\<lambda>c. openSessionT (relServer False) c 7 ''anna'' 0 [])"
  defines "s \<equiv> snd (snd (weave [True, True, False, False, False, False, True, True] (login c1) (login c2)
      (relWorld noTables [])))"
  shows "map (\<lambda>x. (s_token_hash x, s_revoked_at x = None)) (d_sessions (rl_db (w_out s))) = [(''0'', False), (''1'', True)]"
    and "validateSession 7 ''0'' (w_sessions s) \<and> \<not> validateSession 7 ''1'' (w_sessions s)"
proof -
  have tokens: "show_nat 0 = ''0''" "show_nat (Suc 0) = ''1''" by code_simp+
  show "map (\<lambda>x. (s_token_hash x, s_revoked_at x = None)) (d_sessions (rl_db (w_out s))) = [(''0'', False), (''1'', True)]"
    and "validateSession 7 ''0'' (w_sessions s) \<and> \<not> validateSession 7 ''1'' (w_sessions s)"
    unfolding s_def login_def
    by (simp_all add: tokens rel_eval openSessionT_def workT_def segment_def onError_def rotateTokens_def storeSessionT_def
      atomT_def retT_def closeW_def revoke_user_sessions_def cleanup_expired_sessions_def create_user_session_def
      noTables_def newServices_def validateSession_iff col_defs in_int_def INT_MIN_def INT_MAX_def)
qed

section \<open>Handlers that are interrupted keep what handlers keep\<close>

text \<open>
  A family of invariants as in \<open>handler_inv\<close>, now kept by each move: by the transactions up to their
  commit, one by one, and by what closes their scopes.
\<close>

locale thread_inv =
  fixes E :: "('w, 'c) senv" and I :: "'x \<Rightarrow> nat list \<Rightarrow> ('w, 'c) world \<Rightarrow> bool"
  assumes handlers: "handler_inv E (I x)"
    and same_slots: "mset h = mset h' \<Longrightarrow> I x h s = I x h' s"
    and closes: "I x h s \<Longrightarrow> I x h (closeW E c s)"
    and finds: "keeps (I x h) (segment E c (loginPhase E c login pw ip ver))"
    and bans: "keeps (I x h) (checkBan E c u)"
    and rotates: "keeps (I x h) (segment E c (rotateTokens E c u hash ver))"
    and checks: "keeps (I x h) (checkLogin E c login)"
    and inserts: "keeps (I x h) (segment E c (insertAccount E c login pw email ip ver))"
    and reads: "keeps (I x h) (segment E c (readOptions E c))"
    and expires: "keeps (I x h) (segment E c (andThen (exec_prepared E c CleanupExpiredSessions) (\<lambda>_. commitT E c)))"

sublocale thread_inv \<subseteq> each: handler_inv E "I x" for x
  by (rule handlers)

context thread_inv
begin

lemma hashes: "keeps (I x h) (hashPasswordW E pw)"
  unfolding hashPasswordW_def by (auto intro!: keeps_andThen each.lifted)

lemma steady_respond: "steadyT I h (respondT E so st b)"
  unfolding respondT_def by (intro steady_then steady_atom each.lifted)

lemma steady_store: "steadyT I h (storeSessionT E d)"
  unfolding storeSessionT_def by (intro steady_then steady_atom each.lifted)

lemma steady_work:
  "(\<And>x o'. keeps (I x (h @ o')) (segment E c m)) \<Longrightarrow> (\<And>x. steadyT I h (f x)) \<Longrightarrow> steadyT I h (workT E c m f)"
  unfolding workT_def by (intro steady_then steady_atom steady_finally closes)

lemma safe_acquire: "safeT I (\<lambda>r h'. h' = (case r of Inl e \<Rightarrow> h | Inr k \<Rightarrow> k # h)) h (atomT (acquireW E))"
proof (rule safe_atom)
  fix x o' s r s' assume "I x (h @ o') s" and "acquireW E s = (r, s')"
  then show "\<exists>h'. I x (h' @ o') s' \<and> h' = (case r of Inl e \<Rightarrow> h | Inr k \<Rightarrow> k # h)"
    using each.acquires [of x "h @ o'" s] by (cases r) (auto simp: wp_def)
qed

lemma steady_release: "steadyT I (k # h) t \<Longrightarrow> safeT I (\<lambda>r h'. h' = h) (k # h) (finallyT t (releaseW k))"
  by (erule safe_finally) (auto intro: each.releases)

lemma steady_guard: "(\<And>k. steadyT I (k # h) (body k)) \<Longrightarrow> steadyT I h (guardT E body)"
  unfolding guardT_def by (rule safe_then [OF safe_acquire]) (auto intro: steady_release)

lemma steady_catchVariant: "steadyT I h t \<Longrightarrow> steadyT I h (catchVariantT t)"
  unfolding catchVariantT_def by (intro steady_catch) auto

lemma steady_withClient: "(\<And>d. ev_data ev = ED_client d \<Longrightarrow> steadyT I h (body d)) \<Longrightarrow> steadyT I h (withClientT ev body)"
  by (auto simp: withClientT_def split: EventData.split)

lemma steady_sessionGuard: "steadyT I h body \<Longrightarrow> steadyT I h (sessionGuardT E et u d body)"
  by (auto simp: sessionGuardT_def intro!: steady_then steady_atom steady_respond)

lemmas steady_thread_intros = steady_intros steady_atom steady_respond steady_store steady_work steady_guard
  steady_catchVariant steady_withClient steady_sessionGuard each.lifted hashes finds bans rotates checks inserts reads
  expires each.lists each.previews

lemma steady_authenticate: "steadyT I h (authenticateT E c login pw ip ver)"
  unfolding authenticateT_def admitUserT_def openSessionT_def
  by (auto intro!: steady_thread_intros split: sum.split option.split)

lemma steady_register: "steadyT I h (registerAccountT E c login pw email ip ver u hash)"
  unfolding registerAccountT_def createAccountT_def
  by (auto simp: Let_def intro!: steady_thread_intros split: option.split)

lemma steady_login: "steadyT I h (loginT E ev)"
proof -
  have client: "steadyT I h (authenticateClientT E k d)" for h k d
    unfolding authenticateClientT_def clientIpT_def
    by (auto intro!: steady_thread_intros steady_authenticate split: option.split)
  let ?Q = "\<lambda>r h'. h' = (case r of Inr (Some k) \<Rightarrow> k # h | _ \<Rightarrow> h)"
  have slot: "safeT I ?Q h
      (catchT (thenT (atomT (acquireW E)) (\<lambda>k. retT (Some k))) (\<lambda>ex. thenT (respondT E so st b) (\<lambda>_. retT None)))"
    for so st b
  proof (rule safe_catch [where Q = ?Q])
    show "safeT I ?Q h (thenT (atomT (acquireW E)) (\<lambda>k. retT (Some k)))"
      by (rule safe_then [OF safe_acquire]) (simp_all add: retT_def)
    fix e and h' :: "nat list" assume "?Q (Inl e) h'"
    then show "safeT I ?Q h' (thenT (respondT E so st b) (\<lambda>_. retT None))"
      by (intro safe_then [OF steady_respond]) (simp_all add: retT_def)
  qed simp
  show ?thesis
    unfolding loginT_def
    by (intro steady_catchVariant steady_withClient safe_then [OF slot]) (auto intro!: steady_release client split: option.splits)
qed

lemma quiet_threads:
  "steadyT I h (pingT E ev)" "steadyT I h (disconnectT E ev)" "steadyT I h (registerT E ev)"
  "steadyT I h (optionsT E ev)" "steadyT I h (listT E ev)"
proof -
  show "steadyT I h (pingT E ev)"
    by (auto simp: pingT_def intro!: steady_thread_intros split: option.split)
  show "steadyT I h (disconnectT E ev)"
    by (auto simp: disconnectT_def broadcastT_def intro!: steady_thread_intros)
  show "steadyT I h (registerT E ev)"
    by (auto simp: registerT_def registerClientT_def intro!: steady_thread_intros steady_register split: EventData.split)
  show "steadyT I h (optionsT E ev)"
    by (auto simp: optionsT_def creationOptionsT_def intro!: steady_thread_intros keeps_mapE)
  show "steadyT I h (listT E ev)"
    by (auto simp: listT_def listCharactersT_def characterJsonT_def intro!: steady_thread_intros split: option.split)
qed

lemma quiet_task:
  "ev_type ev \<notin> {CREATE_CHARACTER, DELETE_CHARACTER} \<Longrightarrow> steadyT I h (taskT E ev)"
  unfolding taskT_def
  by (intro steady_catch) (auto simp: dispatchT_def quiet_threads steady_login split: EventType.split)

lemma full_task:
  assumes "\<And>x held c d. ev_data ev = ED_client d \<Longrightarrow>
      keeps (I x held) (createCharacter E c (cd_clientId d) (ch_characterName (cd_characterData d))
        (ch_characterClass (cd_characterData d)) (ch_characterRace (cd_characterData d))
        (ch_characterGender (cd_characterData d)))"
    and "\<And>x held c d i. ev_data ev = ED_client d \<Longrightarrow> keeps (I x held) (deleteCharacter E c (cd_clientId d) i)"
  shows "steadyT I h (taskT E ev)"
proof -
  have "steadyT I h (createT E ev)" "steadyT I h (deleteT E ev)"
    using assms by (auto simp: createT_def deleteT_def Let_def intro!: steady_thread_intros)
  then show ?thesis
    unfolding taskT_def
    by (intro steady_catch) (auto simp: dispatchT_def quiet_threads steady_login split: EventType.split)
qed

lemma steady_cleanup: "steadyT I h (cleanupT E ms)"
  unfolding cleanupT_def by (auto intro!: steady_thread_intros)

end

end
