(* ===== verification/Storage.thy ===== *)
theory Storage
  imports Server
begin

text \<open>
  What is true of the tables while the server runs. The locale \<open>stored\<close> is a property of the tables
  that time, the sequences and the statements which do not write characters keep: it holds outside the
  transactions, whatever they do, under every handler but creation and deletion. \<open>stored_all\<close> is one
  that every statement keeps, and then every handler does. The instances are the keys of the tables,
  the roster of characters with the catalogue, and that the characters are what they were.
\<close>

section \<open>Statements that do not write characters\<close>

fun quiet :: "query \<Rightarrow> bool" where
  "quiet (CreateCharacter u n c r g) = False"
| "quiet (InitCharacterState c) = False"
| "quiet (InitCharacterPosition c) = False"
| "quiet (InitCharacterDefaultSkills c k) = False"
| "quiet (InitCharacterStarterItems c k) = False"
| "quiet (InitCharacterStarterCurrencies c k) = False"
| "quiet (DeleteCharacter c u) = False"
| "quiet _ = True"

section \<open>A property of the tables\<close>

locale stored = server E Q db txn
  for E :: "('w, 'c) senv" and Q and db :: "'w \<Rightarrow> dbase" and txn +
  fixes P :: "dbase \<Rightarrow> bool"
  assumes later: "P d \<Longrightarrow> snapshotOf d e \<Longrightarrow> P e"
    and quiet_keeps: "quiet q \<Longrightarrow> P d \<Longrightarrow> P (snd (runQuery Q q d))"
begin

text \<open>Between transactions, and while the one on \<open>c\<close> is open.\<close>

definition outside :: "('w, 'c) world \<Rightarrow> bool" where
  "outside s \<longleftrightarrow> txn (w_out s) = Map.empty \<and> P (dbW s)"

definition inside :: "'c \<Rightarrow> ('w, 'c) world \<Rightarrow> bool" where
  "inside c s \<longleftrightarrow> opened c (w_out s) \<and> P (dbW s) \<and> P (the (txn (w_out s) c))"

lemma state_other [simp]:
  "outside (s\<lparr>w_net := x\<rparr>) = outside s" "outside (s\<lparr>w_sessions := y\<rparr>) = outside s"
  "inside c (s\<lparr>w_net := x\<rparr>) = inside c s" "inside c (s\<lparr>w_sessions := y\<rparr>) = inside c s"
  "outside (s\<lparr>w_out := w\<rparr>) \<longleftrightarrow> txn w = Map.empty \<and> P (db w)"
  by (simp_all add: outside_def inside_def)

lemma close_state [simp]:
  "outside t \<or> inside c t \<Longrightarrow> txn (dl_close (se_db E) c (w_out t)) = Map.empty \<and> P (db (dl_close (se_db E) c (w_out t)))"
  by (auto simp: outside_def inside_def)

lemma work_state:
  assumes "outside s"
    and "\<And>s1. inside c s1 \<Longrightarrow> wp body (\<lambda>r t. R r (t\<lparr>w_out := dl_close (se_db E) c (w_out t)\<rparr>)) s1"
    and "\<And>e s1. outside s1 \<Longrightarrow> R (Inl e) s1"
  shows "wp (withWork E c body) R s"
proof (rule withWork_wp)
  fix w d assume "db w = dbW s" "txn w = [c \<mapsto> d]" "snapshotOf (dbW s) d"
  then show "wp body (\<lambda>r t. R r (t\<lparr>w_out := dl_close (se_db E) c (w_out t)\<rparr>)) (s\<lparr>w_out := w\<rparr>)"
    using assms(1) by (intro assms(2)) (auto simp: outside_def inside_def opened_def intro: later)
qed (use assms in \<open>auto simp: outside_def\<close>)

lemma exec_state:
  assumes "inside c s" and "quiet q" and "\<And>r s1. inside c s1 \<Longrightarrow> R r s1"
  shows "wp (exec_prepared E c q) R s"
  using assms by (intro exec_prepared_wp) (auto simp: inside_def opened_def quiet_keeps)

lemma commit_state:
  assumes "inside c s" and "\<And>r s1. outside s1 \<Longrightarrow> R r s1"
  shows "wp (commitT E c) R s"
  using assms by (intro commitT_wp) (auto simp: inside_def outside_def)

lemma abort_state:
  assumes "inside c s" and "\<And>r s1. outside s1 \<Longrightarrow> R r s1"
  shows "wp (abortT E c) R s"
  using assms by (intro abortT_wp) (auto simp: inside_def outside_def)

lemma probe_state: "inside c s \<Longrightarrow> R (Inr INVALID_CREDENTIALS) s \<Longrightarrow> wp (probeStatus E c login) R s"
  by (rule probe_wp) (simp_all add: inside_def)

lemmas state_rules = exec_state commit_state abort_state probe_state

lemma authenticate_outside:
  assumes s: "outside s"
  shows "wp (authenticate E c login pw ip ver) (\<lambda>r. outside) s"
proof -
  have ban: "wp (checkBan E c u) R s1" if "outside s1" "\<And>r s2. outside s2 \<Longrightarrow> R r s2" for u R s1
    unfolding checkBan_def using that
    by (auto simp: wp_simps intro!: work_state state_rules split: sum.split)
  have opens: "wp (openSession E c u login role ver) R s1" if "outside s1" "\<And>r s2. outside s2 \<Longrightarrow> R r s2" for u role R s1
    unfolding openSession_def storeSession_def using that
    by (auto simp: wp_simps intro!: work_state state_rules split: sum.split)
  show ?thesis
    unfolding authenticate_def checkUser_def admitUser_def hashPasswordW_def using s
    by (auto simp: wp_simps Let_def intro!: work_state state_rules ban opens split: sum.split option.split)
qed

lemma register_outside:
  assumes s: "outside s"
  shows "wp (registerAccount E c login pw email ip ver u h) (\<lambda>r. outside) s"
proof -
  have create: "wp (createAccount E c login hash email ip ver u h) R s1"
    if "outside s1" "\<And>r s2. outside s2 \<Longrightarrow> R r s2" for hash R s1 ip
    unfolding createAccount_def storeSession_def using that
    by (auto simp: wp_simps intro!: work_state state_rules split: sum.split)
  show ?thesis
    unfolding registerAccount_def hashPasswordW_def using s
    by (auto simp: wp_simps Let_def intro!: work_state state_rules create split: sum.split)
qed

lemma list_outside:
  assumes s: "outside s"
  shows "wp (getCharactersList E c a) (\<lambda>r. outside) s"
  unfolding getCharactersList_def using s
  by (auto simp: wp_simps intro!: work_state state_rules split: sum.split prod.split option.split)

lemma preview_outside:
  assumes s: "outside s"
  shows "wp (getCharacterEquipmentPreview E c i) (\<lambda>r. outside) s"
  unfolding getCharacterEquipmentPreview_def using s
  by (auto simp: wp_simps intro!: work_state state_rules split: sum.split)

lemma respond_state:
  assumes "outside s" and "\<And>r s1. outside s1 \<Longrightarrow> R r s1"
  shows "wp (respond E so st b) R s"
  using assms by (intro respond_wp) simp

lemma options_outside:
  assumes s: "outside s"
  shows "wp (creationOptions E c d) (\<lambda>r. outside) s"
proof -
  have conv: "keeps outside (mapE rows (\<lambda>row. lift_res (conv row)))" for rows :: "row list" and conv :: "row \<Rightarrow> exn + json"
    by (intro keeps_mapE) simp
  show ?thesis
    unfolding creationOptions_def using s
    by (auto simp: wp_simps intro!: work_state state_rules respond_state wp_mono [OF conv [unfolded keeps_wp, rule_format]]
        split: sum.split)
qed

lemma cleanup_outside:
  assumes s: "outside s"
  shows "wp (withWork E c (andThen (exec_prepared E c CleanupExpiredSessions) (\<lambda>_. commitT E c))) (\<lambda>r. outside) s"
  using s by (auto simp: wp_simps intro!: work_state state_rules split: sum.split)

lemma acquire_outside: "outside s \<Longrightarrow> wp (acquireW E) (\<lambda>r. outside) s"
  using acquire_frame acquireW_acquire by (fastforce simp: outside_def wp_def split: prod.split)

end

lemma keeps_conj: "keeps I m \<Longrightarrow> keeps J m \<Longrightarrow> keeps (\<lambda>s. I s \<and> J s) m"
  by (simp add: keeps_def)

context stored
begin

abbreviation tracked :: "nat \<Rightarrow> nat list \<Rightarrow> ('w, 'c) world \<Rightarrow> bool" where
  "tracked n held s \<equiv> ready txn n held s \<and> outside s"

lemma acquire_tracked:
  assumes "tracked n held s"
  shows "wp (acquireW E) (\<lambda>r t. case r of Inl e \<Rightarrow> tracked n held t | Inr k \<Rightarrow> tracked n (k # held) t) s"
  using acquire_ready [of n held s] acquire_outside [of s] assms
  by (auto simp: wp_def split: prod.splits sum.splits)

lemma release_tracked: "tracked n (k # held) s \<Longrightarrow> tracked n held (releaseW k s)"
  using release_ready by (auto simp: outside_def)

lemma keeps_tracked:
  assumes "keeps (ready txn n held) m" and "\<And>s. outside s \<Longrightarrow> wp m (\<lambda>r. outside) s"
  shows "keeps (tracked n held) m"
  by (rule keeps_conj [OF assms(1)]) (simp add: keeps_wp assms(2))

end

sublocale stored \<subseteq> kept: handler_inv E "tracked n" for n
  by unfold_locales
     (auto simp: acquire_tracked intro!: release_tracked keeps_tracked keeps_ready_services ready_cleanup
        authenticate_outside register_outside list_outside preview_outside options_outside cleanup_outside)

text \<open>What every statement keeps, every handler keeps.\<close>

locale stored_all = stored E Q db txn P
  for E :: "('w, 'c) senv" and Q and db :: "'w \<Rightarrow> dbase" and txn and P +
  assumes all_keep: "P d \<Longrightarrow> P (snd (runQuery Q q d))"
begin

lemma exec_any:
  assumes "inside c s" and "\<And>r s1. inside c s1 \<Longrightarrow> R r s1"
  shows "wp (exec_prepared E c q) R s"
  using assms by (intro exec_prepared_wp) (auto simp: inside_def opened_def all_keep)

lemmas any_rules = exec_any commit_state abort_state

definition settled :: "'c \<Rightarrow> ('w, 'c) world \<Rightarrow> bool" where
  "settled c s \<longleftrightarrow> outside s \<or> inside c s"

lemma settled_any:
  assumes "inside c s"
  shows "wp (initCharacter E c i cls) (\<lambda>r. settled c) s"
    and "wp (insertCharacterRow E c o' name cls race gender) (\<lambda>r. settled c) s"
proof -
  have optional: "wp (execIf E c b q) R s1" if "inside c s1" "\<And>r s2. inside c s2 \<Longrightarrow> R r s2" for b q R s1
    using that by (auto simp: execIf_def wp_simps intro!: exec_any split: sum.split)
  have init: "wp (initCharacter E c i cls) (\<lambda>r. settled c) s" if "inside c s" for i s
    unfolding initCharacter_def using that
    by (auto simp: wp_simps settled_def intro!: any_rules optional split: sum.split)
  then show "wp (initCharacter E c i cls) (\<lambda>r. settled c) s" using assms .
  show "wp (insertCharacterRow E c o' name cls race gender) (\<lambda>r. settled c) s"
    unfolding insertCharacterRow_def using assms
    by (auto simp: wp_simps settled_def intro!: any_rules wp_mono [OF init] split: sum.split)
qed

lemma create_outside:
  assumes s: "outside s"
  shows "wp (createCharacter E c o' name cls race gender) (\<lambda>r. outside) s"
proof -
  have close: "outside (t\<lparr>w_out := dl_close (se_db E) c (w_out t)\<rparr>)" if "settled c t" for t
    using that by (simp add: settled_def)
  have row: "wp (insertCharacterRow E c o' name cls race gender) (\<lambda>r t. outside (t\<lparr>w_out := dl_close (se_db E) c (w_out t)\<rparr>)) s1"
    if "inside c s1" for s1
    by (rule wp_mono [OF settled_any(2) [OF that]]) (rule close)
  show ?thesis
    unfolding createCharacter_def using s
    by (auto simp: wp_simps intro!: work_state any_rules wp_mono [OF row] split: sum.split)
qed

lemma delete_outside:
  assumes s: "outside s"
  shows "wp (deleteCharacter E c o' i) (\<lambda>r. outside) s"
  unfolding deleteCharacter_def using s
  by (auto simp: wp_simps intro!: work_state any_rules split: sum.split)

lemma dispatch_tracked: "keeps (tracked n held) (dispatchEvent E ev)"
  by (intro kept.full_dispatch keeps_conj keeps_ready_services) (simp_all add: keeps_wp create_outside delete_outside)

end

section \<open>Keys, rosters and frames\<close>

lemma snapshot_tables: "tables_ok d \<Longrightarrow> snapshotOf d e \<Longrightarrow> tables_ok e"
  by (auto simp: tables_ok_def keyed_def snapshotOf_def seq_le_def) (meson less_le_trans)+

text \<open>The characters and the catalogue are the same tables.\<close>

definition sameRoster :: "dbase \<Rightarrow> dbase \<Rightarrow> bool" where
  "sameRoster d e \<longleftrightarrow> d_characters e = d_characters d \<and> sameCatalogue d e"

lemma quiet_frame: "quiet q \<Longrightarrow> sameRoster d (snd (runQuery Q q d))"
  by (cases q)
     (auto simp: sameRoster_def sameCatalogue_def revoke_user_sessions_def cleanup_expired_sessions_def
        create_user_session_def increment_failed_logins_def reset_failed_logins_def register_user_def Let_def)

lemma snapshot_frame: "snapshotOf d e \<Longrightarrow> sameRoster d e"
  by (auto simp: snapshotOf_def sameRoster_def sameCatalogue_def)

lemma sameRoster_ok: "sameRoster d e \<Longrightarrow> rosterOk Q d \<and> catalogue_ok d \<Longrightarrow> rosterOk Q e \<and> catalogue_ok e"
  by (auto simp: sameRoster_def sameCatalogue_def rosterOk_def catalogue_ok_def liveOf_def)

sublocale server \<subseteq> tables: stored_all E Q db txn tables_ok
  by unfold_locales (auto intro: snapshot_tables runQuery_ok)

sublocale server \<subseteq> roster: stored E Q db txn "\<lambda>d. rosterOk Q d \<and> catalogue_ok d"
  by unfold_locales (rule sameRoster_ok, erule snapshot_frame, assumption, rule sameRoster_ok, erule quiet_frame, assumption)

sublocale server \<subseteq> frame: stored E Q db txn "\<lambda>d. d_characters d = cs" for cs
  by unfold_locales (auto dest: quiet_frame snapshot_frame simp: sameRoster_def)

context server
begin

lemma create_roster: "keeps (roster.tracked n held) (createCharacter E c o' name cls race gender)"
  unfolding keeps_wp
proof (intro allI impI)
  fix s assume s: "roster.tracked n held s"
  show "wp (createCharacter E c o' name cls race gender) (\<lambda>r. roster.tracked n held) s"
    by (rule wp_mono [OF createCharacter_wp [of n held]])
       (use s createPost_keeps in \<open>fastforce simp: roster.outside_def ready_def split: sum.splits\<close>)+
qed

lemma delete_roster: "keeps (roster.tracked n held) (deleteCharacter E c o' i)"
  unfolding keeps_wp
proof (intro allI impI)
  fix s assume s: "roster.tracked n held s"
  show "wp (deleteCharacter E c o' i) (\<lambda>r. roster.tracked n held) s"
    by (rule wp_mono [OF deleteCharacter_wp [of n held]])
       (use s deletePost_roster deletePost_catalogue in \<open>fastforce simp: roster.outside_def ready_def split: sum.splits\<close>)+
qed

lemma served_tables:
  assumes "served E ms k w ps st" and "ready txn n [] w" and "tables_ok (dbW w)"
  shows "tables_ok (dbW (ls_world st))"
  using tables.kept.served_keeps [OF assms(1), of n] tables.dispatch_tracked assms(2,3)
  by (simp add: tables.outside_def ready_def)

lemma served_roster:
  assumes "served E ms k w ps st" and "ready txn n [] w" and "rosterOk Q (dbW w)" and "catalogue_ok (dbW w)"
  shows "rosterOk Q (dbW (ls_world st)) \<and> catalogue_ok (dbW (ls_world st))"
  using roster.kept.served_keeps [OF assms(1), of n] roster.kept.full_dispatch [OF create_roster delete_roster] assms(2-4)
  by (simp add: roster.outside_def ready_def)

lemma quiet_characters:
  assumes "ready txn n [] s"
  shows "ev_type ev \<notin> {CREATE_CHARACTER, DELETE_CHARACTER} \<Longrightarrow>
      d_characters (dbW (snd (dispatchEvent E ev s))) = d_characters (dbW s)"
    and "d_characters (dbW (snd (periodicCleanup E ms s))) = d_characters (dbW s)"
  using keepsD [OF frame.kept.quiet_dispatch [where cs = "d_characters (dbW s)" and n = n and held = "[]"], of ev s]
    keepsD [OF frame.kept.cleanup_keeps [where cs = "d_characters (dbW s)" and n = n and held = "[]"], of s ms] assms
  by (simp_all add: frame.outside_def ready_def)

end

text \<open>Without the session's token a request to create or delete reaches no table.\<close>

lemma unauthorised:
  assumes t: "ev_type ev \<in> {CREATE_CHARACTER, DELETE_CHARACTER}"
    and v: "\<And>d. ev_data ev = ED_client d \<Longrightarrow> \<not> validateSession (cd_clientId d) (cd_hash d) (w_sessions s)"
  shows "w_out (snd (dispatchEvent E ev s)) = w_out s"
proof -
  have out: "w_out (snd (respond E so st b s)) = w_out s" for so st b
    using respond_frame [of E so st b s] by auto
  then have refused: "w_out (snd (sessionGuard E et u d body s)) = w_out s"
    if "\<not> validateSession (cd_clientId d) (cd_hash d) (w_sessions s)" for et u d body
    using that by (simp add: sessionGuard_def andThen_def)
  have catch: "w_out (snd (m s)) = w_out s \<Longrightarrow> w_out (snd (catchVariant m s)) = w_out s" for m :: "(('a, 'b) world, unit) eff"
    by (auto simp: catchVariant_def tryCatch_def split: prod.splits sum.splits)
  show ?thesis
    using t v
    by (auto simp: dispatchEvent_def handleCreateCharacterEvent_def handleDeleteCharacterEvent_def withClient_def
        intro!: catch refused split: EventData.split)
qed

lemma runTask_world: "snd (runTask E ev s) = snd (dispatchEvent E ev s)"
  by (auto simp: runTask_def tryCatch_def split: prod.split sum.split)

section \<open>A concrete deletion\<close>

definition deletion :: Event where
  "deletion = clientEvent DELETE_CHARACTER (askDelete 7 ''tok'') 3 newTimestamp"

lemma deletion_deletes: "liveOf 7 (rl_db (w_out (snd (dispatchEvent (relServer False) deletion sessionWorld)))) = []"
proof -
  let ?p = "(w_pool sessionWorld)\<lparr>pl_available := []\<rparr>"
  have acq: "acquireW (relServer False) sessionWorld = (Inr 0, sessionWorld\<lparr>w_pool := ?p\<rparr>)"
    by (simp add: acquireW_def acquire_def relServer_def relLib_def relConn_def rel_defs sessionWorld_def relWorld_def
        andThen_def onPool_def onWorld_def healthy_def tryCatch_def connectionAt_def)
  obtain w where w: "deleteCharacter (relServer False) 0 7 5 (sessionWorld\<lparr>w_pool := ?p\<rparr>) =
      (Inr True, sessionWorld\<lparr>w_pool := ?p, w_out := w\<rparr>)" "liveOf 7 (rl_db w) = []"
    by (simp add: character_eval oneCharacter_def sessionWorld_def)
  have out: "respond E so st b s = (r, t) \<Longrightarrow> w_out t = w_out s" for E :: "(rel, nat) senv" and so st b s r t
    using respond_frame [of E so st b s] by auto
  have "validateSession 7 ''tok'' (w_sessions sessionWorld)" "connectionAt 0 ?p = Inr (Some 0)"
    by (simp_all add: validateSession_iff sessionWorld_def relWorld_def connectionAt_def)
  then show ?thesis
    using w
    by (auto simp: deletion_def dispatchEvent_def handleDeleteCharacterEvent_def withClient_def askDelete_def
        newClient_def newCharacter_def catchVariant_def sessionGuard_def andThen_def withGuard_def acq guardGet_def
        scopeExit_def tryCatch_def releaseW_def split: prod.split sum.split dest!: out)
qed

text \<open>One event is pushed, taken by the loop and started by the one worker; the world is as before.\<close>

lemma one_started:
  assumes q0: "evq w = \<lparr>q_items = [], q_stopped = False\<rparr>"
  obtains st where "served E 60000 1 w [e] st" "ls_world st = w"
    "tp_workers (ls_tasks st) = [Running e]"
proof -
  let ?q = "\<lparr>q_items = [e], q_stopped = False\<rparr>"
  let ?st = "(startMainEventLoop (newLoginServer 1 w))\<lparr>ls_world := setQueueW ?q w\<rparr>"
  let ?l = "loopIteration E 60000 ?st"
  have st: "served E 60000 1 w [e] ?st"
    using served.Pushed [OF served.Started [OF served.Made], of E 60000 1 w e]
    by (simp add: startMainEventLoop_def newLoginServer_def pushEvent_def q0)
  have pop: "tryPopBatch [] BATCH_SIZE ?q = Inr (True, [e], \<lparr>q_items = [], q_stopped = False\<rparr>)"
    using reserve_small [of 10 1]
    by (simp add: tryPopBatch_def wouldWait_def takeBatch_def BATCH_SIZE_def in_int_def INT_MIN_def INT_MAX_def)
  have "ls_tasks ?l = \<lparr>tp_tasks = [e], tp_stop = False, tp_workers = [Waiting], tp_started = [], tp_finished = []\<rparr>"
    "ls_world ?l = w"
    using pop q0
    by (simp_all add: loopIteration_def startMainEventLoop_def newLoginServer_def newThreadPool_def processBatch_open
        setQueueW_def)
  then obtain l where l: "served E 60000 1 w [e] l" "ls_world l = w" "ls_tasks l =
      \<lparr>tp_tasks = [e], tp_stop = False, tp_workers = [Waiting], tp_started = [], tp_finished = []\<rparr>"
    using served.Looped [OF st] by blast
  obtain m where "workerMove E 0 l = Some m" "ls_world m = ls_world l" "tp_workers (ls_tasks m) = [Running e]"
    by (simp add: workerMove_def workerStep_def l)
  then show ?thesis using that served.Moved [OF l(1)] l(2) by metis
qed

lemma sessionWorld_queue: "evq sessionWorld = \<lparr>q_items = [], q_stopped = False\<rparr>"
  by (simp add: sessionWorld_def relWorld_def newServices_def newQueue_def)

section \<open>Properties\<close>

text \<open>When no handler is interrupted the tables stay legal, whatever is asked and whatever fails: serial ids,
  session tokens and the one-per-character rows stay unique, live character names stay unique up to
  case, and every account has at most four live characters in distinct slots.\<close>

lemma tables_stay_legal:
  assumes "server E Q db txn" and "ready txn n [] w" and "served E ms k w ps st"
    and "tables_ok (db (w_out w))" and "rosterOk Q (db (w_out w))" and "catalogue_ok (db (w_out w))"
  shows "tables_ok (db (w_out (ls_world st))) \<and> rosterOk Q (db (w_out (ls_world st))) \<and>
    catalogue_ok (db (w_out (ls_world st))) \<and> int (length (liveOf owner (db (w_out (ls_world st))))) \<le> 4 \<and>
    distinct (map c_account_slot (liveOf owner (db (w_out (ls_world st)))))"
  using server.served_tables [OF assms(1,3,2,4)] server.served_roster [OF assms(1,3,2,5,6)]
    rosterOk_all [of Q "db (w_out (ls_world st))" owner]
  by (simp add: MAX_CHARS_PER_ACCOUNT_def)

lemma tables_stay_legal_witness:
  "\<exists>st. served (relServer False) 60000 1 sessionWorld [deletion] st \<and> liveOf 7 (rl_db (w_out (ls_world st))) = [] \<and>
     tables_ok (rl_db (w_out (ls_world st))) \<and> rosterOk demoSql (rl_db (w_out (ls_world st)))"
proof -
  obtain st where st: "served (relServer False) 60000 1 sessionWorld [deletion] st" "ls_world st = sessionWorld"
    "tp_workers (ls_tasks st) = [Running deletion]" by (rule one_started [OF sessionWorld_queue])
  obtain st' where m: "workerMove (relServer False) 0 st = Some st'"
    "ls_world st' = snd (dispatchEvent (relServer False) deletion sessionWorld)"
    using st by (simp add: workerMove_def workerStep_def runTask_world)
  have "served (relServer False) 60000 1 sessionWorld [deletion] st'" by (rule served.Moved [OF st(1) m(1)])
  moreover have "tables_ok (rl_db (w_out sessionWorld))" "rosterOk demoSql (rl_db (w_out sessionWorld))"
    by (simp_all add: tables_ok_def keyed_def rosterOk_def liveOf_def sessionWorld_def relWorld_def oneCharacter_def
        demoCatalogue_def noTables_def MAX_CHARS_PER_ACCOUNT_def)
  ultimately show ?thesis
    using tables_stay_legal [OF rel_server.server_axioms sessionWorld_ready _ _ _ sessionWorld_catalogue] m(2) deletion_deletes
    by metis
qed

text \<open>Whose characters change when no handler is interrupted: the move of a worker changes the live characters of
  an account only if it runs a creation or a deletion which a read has pushed, which names that account
  and whose token is the one of the account's session at that moment; a round of the event loop,
  with its clean-up, changes no character.\<close>

lemma only_owners_change_characters:
  assumes "server E Q db txn" and "ready txn n [] w" and "catalogue_ok (db (w_out w))" and "q_items (evq w) = []"
    and "served E ms k w ps st" and "rosterOk Q (db (w_out w))"
    and "workerMove E i st = Some st'"
  shows "(liveOf a (db (w_out (ls_world st'))) = liveOf a (db (w_out (ls_world st))) \<or>
      (\<exists>e d. tp_workers (ls_tasks st) ! i = Running e \<and> e \<in> set ps \<and>
        ev_type e \<in> {CREATE_CHARACTER, DELETE_CHARACTER} \<and> ev_data e = ED_client d \<and> cd_clientId d = a \<and>
        validateSession a (cd_hash d) (w_sessions (ls_world st)))) \<and>
    d_characters (db (w_out (ls_world (loopIteration E ms st)))) = d_characters (db (w_out (ls_world st)))"
  (is "?move \<and> ?loop")
proof
  let ?s = "ls_world st"
  note r = server.served_ready [OF assms(1,5,2)]
  have c: "catalogue_ok (db (w_out ?s))" using server.served_roster [OF assms(1,5,2,6,3)] by blast
  show ?loop
  proof (cases E ms st rule: loopIteration_cases)
    case (idle q)
    have "ready txn n [] (setQueueW q ?s)" using r by (simp add: ready_def setQueueW_def)
    from server.quiet_characters(2) [OF assms(1) this, of ms] show ?thesis by (simp add: idle(1) setQueueW_def)
  qed (simp_all add: setQueueW_def)
  show ?move
  proof (cases "tp_workers (ls_tasks st) ! i")
    case (Running e)
    have s': "ls_world st' = snd (dispatchEvent E e ?s)" and i: "i < length (tp_workers (ls_tasks st))"
      using assms(7) Running by (auto simp: workerMove_def workerStep_def runTask_world split: option.splits if_splits)
    have ps: "e \<in> set ps"
    proof -
      have "e \<in># running (ls_tasks st)"
        using Running nth_mem [OF i] by (auto simp: running_def intro!: bexI [of _ "Running e"])
      then have "e \<in># mset (tp_started (ls_tasks st))"
        using served_flow [OF assms(5,4)] by (auto simp: flow_def pool_inv_def)
      then show ?thesis using served_flow [OF assms(5,4)] by (auto simp: flow_def pool_inv_def)
    qed
    show ?thesis
    proof (cases "ev_type e \<in> {CREATE_CHARACTER, DELETE_CHARACTER} \<and>
        (\<exists>d. ev_data e = ED_client d \<and> validateSession (cd_clientId d) (cd_hash d) (w_sessions ?s))")
      case True
      then obtain d where d: "ev_data e = ED_client d" "validateSession (cd_clientId d) (cd_hash d) (w_sessions ?s)"
        by blast
      have "server.within db txn n (cd_clientId d) ?s [] (ls_world st')"
        using keepsD [OF server.dispatch_within [OF assms(1) d(1)], of n ?s "[]" ?s] True r c s'
        by (auto simp: server.within_def [OF assms(1)] ownEffect_def)
      then show ?thesis
        using True d ps Running by (cases "cd_clientId d = a") (auto simp: server.within_def [OF assms(1)] ownEffect_def)
    next
      case False
      then show ?thesis
        using unauthorised [of e ?s E] server.quiet_characters(1) [OF assms(1) r, of e] s'
        by (cases "ev_type e \<in> {CREATE_CHARACTER, DELETE_CHARACTER}") (auto simp: liveOf_def)
    qed
  qed (use assms(7) in \<open>auto simp: workerMove_def split: option.splits\<close>)
qed

lemma only_owners_change_characters_witness:
  "\<exists>st st'. served (relServer False) 60000 1 sessionWorld [deletion] st \<and>
     workerMove (relServer False) 0 st = Some st' \<and>
     liveOf 7 (rl_db (w_out (ls_world st'))) \<noteq> liveOf 7 (rl_db (w_out (ls_world st))) \<and>
     (\<exists>d. ev_data deletion = ED_client d \<and> cd_clientId d = 7 \<and> validateSession 7 (cd_hash d) (w_sessions (ls_world st)))"
proof -
  obtain st where st: "served (relServer False) 60000 1 sessionWorld [deletion] st" "ls_world st = sessionWorld"
    "tp_workers (ls_tasks st) = [Running deletion]" by (rule one_started [OF sessionWorld_queue])
  obtain st' where m: "workerMove (relServer False) 0 st = Some st'"
    "ls_world st' = snd (dispatchEvent (relServer False) deletion sessionWorld)"
    using st by (simp add: workerMove_def workerStep_def runTask_world)
  have change: "liveOf 7 (rl_db (w_out (ls_world st'))) \<noteq> liveOf 7 (rl_db (w_out (ls_world st)))"
    using m(2) st(2) deletion_deletes
    by (simp add: liveOf_def sessionWorld_def relWorld_def oneCharacter_def)
  have "rosterOk demoSql (rl_db (w_out sessionWorld))"
    by (simp add: rosterOk_def liveOf_def sessionWorld_def relWorld_def oneCharacter_def MAX_CHARS_PER_ACCOUNT_def)
  from only_owners_change_characters [OF rel_server.server_axioms sessionWorld_ready sessionWorld_catalogue
      sessionWorld_idle st(1) this m(1), of 7] change st(3)
  show ?thesis using st(1) m(1) by auto
qed

end
