(* ===== verification/Segments.thy ===== *)
theory Segments
  imports Concurrent Storage
begin

text \<open>
  The laws of \<open>thread_inv\<close> for the properties of the tables: each transaction of a service, taken up to
  its commit, keeps what \<open>stored\<close> describes, and so does the end of its scope.
\<close>

section \<open>A property of the tables, move by move\<close>

lemma conserves_pool [simp]:
  "conserves w_pool (onNet m)" "conserves w_pool (onOut m')" "conserves w_pool (tickW g)"
  "conserves w_pool (exec_prepared E c q)" "conserves w_pool (commitT E c)" "conserves w_pool (abortT E c)"
  by (auto simp: conserves_def onNet_def onOut_def tickW_def exec_prepared_def commitT_def abortT_def
      split: prod.split)

lemma conserves_pool_work: "conserves w_pool body \<Longrightarrow> conserves w_pool (withWork E c body)"
  unfolding withWork_def by (auto intro!: conserves_andThen conserves_scopeExit)

lemma conserves_onError: "conserves f m \<Longrightarrow> (\<And>s. f (d s) = f s) \<Longrightarrow> conserves f (onError m d)"
  by (auto simp: conserves_def onError_def split: prod.split sum.split) (metis snd_conv)+

lemma keeps_onError: "keeps I m \<Longrightarrow> (\<And>s. I s \<Longrightarrow> I (d s)) \<Longrightarrow> keeps I (onError m d)"
  by (auto simp: keeps_def onError_def split: prod.split sum.split)

lemma conserves_pool_segment: "conserves w_pool m \<Longrightarrow> conserves w_pool (segment E c m)"
  unfolding segment_def by (intro conserves_andThen conserves_onError) (simp_all add: closeW_def)

lemmas pool_intros = conserves_andThen conserves_tryCatch conserves_pool_work conserves_pool_segment

lemma conserves_pool_segments:
  "conserves w_pool (loginPhase E c login pw ip ver)" "conserves w_pool (rotateTokens E c u hash ver)"
  "conserves w_pool (insertAccount E c login pw email ip ver)" "conserves w_pool (readOptions E c)"
  "conserves w_pool (checkBan E c u)" "conserves w_pool (checkLogin E c login)"
  unfolding loginPhase_def rotateTokens_def insertAccount_def readOptions_def checkBan_def checkLogin_def
    probeStatus_def hashPasswordW_def
  by (auto simp: Let_def intro!: pool_intros split: option.split)

context stored
begin

lemma keeps_tables:
  assumes "conserves w_pool m" and "\<And>s. outside s \<Longrightarrow> wp m (\<lambda>r. outside) s"
  shows "keeps (tracked n held) m"
proof (rule keepsI)
  fix s assume s: "tracked n held s"
  have "w_pool (snd (m s)) = w_pool s" using assms(1) by (simp add: conserves_def)
  moreover have "outside (snd (m s))" using s assms(2) [of s] by (simp add: wp_def split_beta)
  ultimately show "tracked n held (snd (m s))" using s by (simp add: ready_def outside_def)
qed

lemma close_tracked: "tracked n held s \<Longrightarrow> tracked n held (closeW E c s)"
  by (simp add: closeW_def ready_def outside_def)

text \<open>The statements of a transaction up to its end; when one throws the scope closes it.\<close>

definition ends :: "'c \<Rightarrow> (('w, 'c) world, 'a) eff \<Rightarrow> bool" where
  "ends c m \<longleftrightarrow>
     (\<forall>s. inside c s \<longrightarrow> wp m (\<lambda>r t. outside t \<or> isl r \<and> inside c t) s)"

lemma segment_outside:
  assumes "ends c m" and "outside s"
  shows "wp (segment E c m) (\<lambda>r. outside) s"
proof -
  have err: "wp (onError m (closeW E c)) (\<lambda>r. outside) s1" if "inside c s1" for s1
    using assms(1) that by (cases "m s1", cases "fst (m s1)") (auto simp: ends_def wp_def onError_def closeW_def)
  show ?thesis
    unfolding segment_def wp_andThen wp_onOut
  proof (rule begin_wp)
    fix w d assume "db w = dbW s" "txn w = [c \<mapsto> d]" "snapshotOf (dbW s) d"
    then have "inside c (s\<lparr>w_out := w\<rparr>)"
      using assms(2) by (auto simp: outside_def inside_def opened_def intro: later)
    then show "case Inr () of Inl e \<Rightarrow> outside (s\<lparr>w_out := w\<rparr>)
        | Inr x \<Rightarrow> wp (onError m (closeW E c)) (\<lambda>r. outside) (s\<lparr>w_out := w\<rparr>)"
      by (simp add: err)
  qed (use assms(2) in \<open>auto simp: outside_def\<close>)
qed

lemma ends_segments:
  "ends c (loginPhase E c login pw ip ver)" "ends c (rotateTokens E c u hash ver)"
  "ends c (insertAccount E c login pw email ip ver)" "ends c (readOptions E c)"
  "ends c (andThen (exec_prepared E c CleanupExpiredSessions) (\<lambda>_. commitT E c))"
  unfolding ends_def loginPhase_def rotateTokens_def insertAccount_def readOptions_def hashPasswordW_def
  by (auto simp: wp_simps Let_def intro!: state_rules split: sum.split)

lemma single_outside:
  assumes s: "outside s"
  shows "wp (checkBan E c u) (\<lambda>r. outside) s" and "wp (checkLogin E c login) (\<lambda>r. outside) s"
  unfolding checkBan_def checkLogin_def using s
  by (auto simp: wp_simps intro!: work_state state_rules split: sum.split)

lemmas keeps_segment = keeps_tables [OF conserves_pool_segment segment_outside]

lemma thread_laws:
  "keeps (tracked n h) (segment E c (loginPhase E c login pw ip ver))"
  "keeps (tracked n h) (segment E c (rotateTokens E c u hash ver))"
  "keeps (tracked n h) (segment E c (insertAccount E c login pw email ip ver))"
  "keeps (tracked n h) (segment E c (readOptions E c))"
  "keeps (tracked n h) (segment E c (andThen (exec_prepared E c CleanupExpiredSessions) (\<lambda>_. commitT E c)))"
  "keeps (tracked n h) (checkBan E c u)" "keeps (tracked n h) (checkLogin E c login)"
  by (intro keeps_segment keeps_tables single_outside conserves_pool_segments ends_segments; simp add: pool_intros)+

end

lemma ready_slots: "mset h = mset h' \<Longrightarrow> ready txn n h s = ready txn n h' s"
  by (auto simp: ready_def pool_ok_def dest: mset_eq_setD)

context stored
begin

lemma tracked_slots: "mset h = mset h' \<Longrightarrow> tracked n h s = tracked n h' s"
  by (simp only: ready_slots [of h h'])

lemmas tracked_laws = tracked_slots close_tracked thread_laws

end

sublocale stored \<subseteq> thr: thread_inv E "\<lambda>_ :: unit. tracked n" for n
  by (rule thread_inv.intro) (rule kept.handler_inv_axioms tracked_laws; assumption?)+

text \<open>The live characters of the accounts \<open>B\<close> are those of \<open>L\<close>.\<close>

definition liveAs :: "int set \<Rightarrow> (int \<Rightarrow> character_row list) \<Rightarrow> dbase \<Rightarrow> bool" where
  "liveAs B L d \<longleftrightarrow> (\<forall>b \<in> B. liveOf b d = L b)"

lemma liveAs_frame: "sameRoster d e \<Longrightarrow> catalogue_ok d \<and> liveAs B L d \<Longrightarrow> catalogue_ok e \<and> liveAs B L e"
  by (auto simp: sameRoster_def sameCatalogue_def catalogue_ok_def liveAs_def liveOf_def)

sublocale server \<subseteq> owned: stored E Q db txn "\<lambda>d. catalogue_ok d \<and> liveAs B L d" for B L
  by unfold_locales
    (rule liveAs_frame, erule snapshot_frame, assumption, rule liveAs_frame, erule quiet_frame, assumption)

sublocale server \<subseteq> owners: thread_inv E "\<lambda>L. owned.tracked B L n" for B n
  by (rule thread_inv.intro) (rule owned.kept.handler_inv_axioms owned.tracked_laws; assumption?)+

text \<open>No property of the tables: only the connections and transactions.\<close>

sublocale server \<subseteq> bare: stored_all E Q db txn "\<lambda>d. True"
  by unfold_locales simp_all

end
