(* ===== verification/Interleaving.thy ===== *)
theory Interleaving
  imports Segments
begin

text \<open>
  The server with handlers in progress: \<open>LoginServer\<close> (\<open>src/login_server/LoginServer.cpp\<close>) and its
  workers (\<open>src/utils/ThreadPool.cpp\<close>), where a worker runs its handler move by move and the moves of
  the workers, of the loop's thread and its clean-up, and of the socket threads come in any order.
  \<open>Server\<close> is what happens when nobody interrupts a handler.
\<close>

section \<open>State and moves\<close>

type_synonym ('w, 'c) routine = "(('w, 'c) world, unit) thread"

text \<open>The server, what each worker has left to do of its handler, and the loop of its clean-up.\<close>

record ('w, 'c) cserver =
  cs_server :: "('w, 'c) lserver"
  cs_handlers :: "('w, 'c) routine list"
  cs_cleanup :: "('w, 'c) routine"

abbreviation worldOf :: "('w, 'c) cserver \<Rightarrow> ('w, 'c) world" where
  "worldOf cs \<equiv> ls_world (cs_server cs)"

abbreviation workersOf :: "('w, 'c) cserver \<Rightarrow> Event worker list" where
  "workersOf cs \<equiv> tp_workers (ls_tasks (cs_server cs))"

definition newConcurrent :: "nat \<Rightarrow> ('w, 'c) world \<Rightarrow> ('w, 'c) cserver" where
  "newConcurrent k w =
     \<lparr>cs_server = newLoginServer k w, cs_handlers = replicate k (retT ()), cs_cleanup = retT ()\<rparr>"

definition onServer :: "(('w, 'c) lserver \<Rightarrow> ('w, 'c) lserver) \<Rightarrow> ('w, 'c) cserver \<Rightarrow> ('w, 'c) cserver" where
  "onServer f cs = cs\<lparr>cs_server := f (cs_server cs)\<rparr>"

definition setWorld :: "('w, 'c) world \<Rightarrow> ('w, 'c) cserver \<Rightarrow> ('w, 'c) cserver" where
  "setWorld w = onServer (\<lambda>st. st\<lparr>ls_world := w\<rparr>)"

text \<open>
  A move of worker \<open>i\<close>: the next one of its handler, or it takes a task and enters its handler, or it
  leaves the handler that has ended.
\<close>

definition handlerOf :: "('w, 'c) senv \<Rightarrow> Event worker \<Rightarrow> ('w, 'c) routine" where
  "handlerOf E v = (case v of Running ev \<Rightarrow> taskT E ev | _ \<Rightarrow> retT ())"

definition handlerMove :: "('w, 'c) senv \<Rightarrow> nat \<Rightarrow> ('w, 'c) cserver \<Rightarrow> ('w, 'c) cserver option" where
  "handlerMove E i cs =
     (case workerStep i (ls_tasks (cs_server cs)) of
        None \<Rightarrow> None
      | Some p \<Rightarrow>
          (case moveT (cs_handlers cs ! i) (worldOf cs) of
             Some (t, w) \<Rightarrow> Some (setWorld w (cs\<lparr>cs_handlers := (cs_handlers cs)[i := t]\<rparr>))
           | None \<Rightarrow> Some (onServer (\<lambda>st. st\<lparr>ls_tasks := p\<rparr>) (cs\<lparr>cs_handlers :=
               (cs_handlers cs)[i := handlerOf E (tp_workers p ! i)]\<rparr>))))"

text \<open>A round of the loop that finds nothing: the queue it leaves.\<close>

definition idleRound :: "('w, 'c) lserver \<Rightarrow> Event event_queue option" where
  "idleRound st =
     (if ls_loop st = Looping \<and> ls_running st then
        (case tryPopBatch [] BATCH_SIZE (n_queue (w_net (ls_world st))) of
           Inr (False, eventsBatch, q) \<Rightarrow> Some q
         | _ \<Rightarrow> None)
      else None)"

definition loopMove :: "('w, 'c) senv \<Rightarrow> int \<Rightarrow> ('w, 'c) cserver \<Rightarrow> ('w, 'c) cserver" where
  "loopMove E intervalMs cs =
     (case moveT (cs_cleanup cs) (worldOf cs) of
        Some (t, w) \<Rightarrow> setWorld w (cs\<lparr>cs_cleanup := t\<rparr>)
      | None \<Rightarrow>
          (case idleRound (cs_server cs) of
             Some q \<Rightarrow> setWorld (setQueueW q (worldOf cs)) (cs\<lparr>cs_cleanup := cleanupT E intervalMs\<rparr>)
           | None \<Rightarrow> onServer (loopIteration E intervalMs) cs))"

text \<open>
  As \<open>served\<close>; \<open>seen\<close> records, for the statements, what each worker was running and the world it found
  at each of its moves (the loop's thread counts as a worker that waits).
\<close>

type_synonym ('w, 'c) history = "(Event worker \<times> ('w, 'c) world) list"

inductive cserved ::
  "('w, 'c) senv \<Rightarrow> int \<Rightarrow> nat \<Rightarrow> ('w, 'c) world \<Rightarrow> Event list \<Rightarrow> ('w, 'c) history \<Rightarrow> ('w, 'c) cserver \<Rightarrow> bool"
  for E intervalMs n w where
  Made: "cserved E intervalMs n w [] [] (newConcurrent n w)"
| Started: "cserved E intervalMs n w ps seen cs \<Longrightarrow>
     cserved E intervalMs n w ps seen (onServer startMainEventLoop cs)"
| Pushed: "cserved E intervalMs n w ps seen cs \<Longrightarrow>
     cserved E intervalMs n w (ps @ [e]) seen (setWorld (setQueueW (pushEvent e (evq (worldOf cs))) (worldOf cs)) cs)"
| Networked: "cserved E intervalMs n w ps seen cs \<Longrightarrow> n_queue x = evq (worldOf cs) \<Longrightarrow>
     cserved E intervalMs n w ps seen (setWorld ((worldOf cs)\<lparr>w_net := x\<rparr>) cs)"
| Looped: "cserved E intervalMs n w ps seen cs \<Longrightarrow>
     cserved E intervalMs n w ps (seen @ [(Waiting, worldOf cs)]) (loopMove E intervalMs cs)"
| Moved: "cserved E intervalMs n w ps seen cs \<Longrightarrow> handlerMove E i cs = Some cs' \<Longrightarrow>
     cserved E intervalMs n w ps (seen @ [(workersOf cs ! i, worldOf cs)]) cs'"
| Stopped: "cserved E intervalMs n w ps seen cs \<Longrightarrow> cserved E intervalMs n w ps seen (onServer stopServer cs)"

lemma cserver_sel [simp]:
  "cs_server (onServer f cs) = f (cs_server cs)" "cs_handlers (onServer f cs) = cs_handlers cs"
  "cs_cleanup (onServer f cs) = cs_cleanup cs" "cs_server (setWorld w cs) = (cs_server cs)\<lparr>ls_world := w\<rparr>"
  "cs_handlers (setWorld w cs) = cs_handlers cs" "cs_cleanup (setWorld w cs) = cs_cleanup cs"
  by (simp_all add: onServer_def setWorld_def)

lemma workerStep_workers:
  assumes "workerStep i p = Some p'"
  shows "i < length (tp_workers p)" and "length (tp_workers p') = length (tp_workers p)"
    and "j \<noteq> i \<Longrightarrow> tp_workers p' ! j = tp_workers p ! j"
    and "tp_workers p' = (tp_workers p)[i := tp_workers p' ! i]"
  using assms by (auto simp: workerStep_def split: if_splits worker.splits list.splits)

lemma processBatch_workers [simp]: "tp_workers (processBatch es p) = tp_workers p"
proof -
  have "tp_workers (safeEnqueue e p) = tp_workers p" for e p
    by (simp add: safeEnqueue_def enqueueFuture_def)
  then have "tp_workers (fold safeEnqueue es p) = tp_workers p" for es p by (induction es arbitrary: p) simp_all
  then show ?thesis by (simp add: processBatch_def)
qed

lemma handlerMove_cases:
  assumes "handlerMove E i cs = Some cs'"
  obtains
    (inside) t w where "moveT (cs_handlers cs ! i) (worldOf cs) = Some (t, w)"
      "cs' = setWorld w (cs\<lparr>cs_handlers := (cs_handlers cs)[i := t]\<rparr>)" "i < length (workersOf cs)"
  | (border) p where "workerStep i (ls_tasks (cs_server cs)) = Some p" "moveT (cs_handlers cs ! i) (worldOf cs) = None"
      "cs' = onServer (\<lambda>st. st\<lparr>ls_tasks := p\<rparr>) (cs\<lparr>cs_handlers :=
         (cs_handlers cs)[i := handlerOf E (tp_workers p ! i)]\<rparr>)"
  using assms unfolding handlerMove_def by (auto dest: workerStep_workers(1) split: option.splits)

lemma loopMove_cases:
  obtains
    (inside) t w where "moveT (cs_cleanup cs) (worldOf cs) = Some (t, w)"
      "loopMove E ms cs = setWorld w (cs\<lparr>cs_cleanup := t\<rparr>)"
  | (idle) q where "moveT (cs_cleanup cs) (worldOf cs) = None"
      "loopMove E ms cs = setWorld (setQueueW q (worldOf cs)) (cs\<lparr>cs_cleanup := cleanupT E ms\<rparr>)"
      "q_items q = q_items (evq (worldOf cs))"
  | (batch) q es where "moveT (cs_cleanup cs) (worldOf cs) = None"
      "loopMove E ms cs = onServer (\<lambda>st. st\<lparr>ls_world := setQueueW q (ls_world st),
         ls_tasks := processBatch es (ls_tasks st)\<rparr>) cs"
      "es @ q_items q = q_items (evq (worldOf cs))"
  | (off) l where "moveT (cs_cleanup cs) (worldOf cs) = None"
      "loopMove E ms cs = onServer (\<lambda>st. st\<lparr>ls_loop := l\<rparr>) cs"
proof (cases "moveT (cs_cleanup cs) (worldOf cs)")
  case None
  let ?st = "cs_server cs"
  show ?thesis
  proof (cases "idleRound ?st")
    case (Some q)
    then obtain es where "tryPopBatch [] BATCH_SIZE (evq (worldOf cs)) = Inr (False, es, q)"
      by (auto simp: idleRound_def split: if_splits sum.splits bool.splits)
    then have "q_items q = q_items (evq (worldOf cs))" using evq.take_many [where q = "evq (worldOf cs)"] by fastforce
    then show ?thesis by (rule idle [OF None, rotated]) (simp add: loopMove_def None Some)
  next
    case None': None
    have l: "loopMove E ms cs = onServer (loopIteration E ms) cs" by (simp add: loopMove_def None None')
    show ?thesis
    proof (cases "ls_loop ?st = Looping \<and> ls_running ?st")
      case False
      then have "loopMove E ms cs = onServer (\<lambda>st. st\<lparr>ls_loop := if ls_loop ?st = Looping then LoopEnded else ls_loop ?st\<rparr>) cs"
        by (simp add: l onServer_def loopIteration_def)
      then show ?thesis by (rule off [OF None])
    next
      case True
      show ?thesis
      proof (cases "tryPopBatch [] BATCH_SIZE (evq (worldOf cs))")
        case (Inl e)
        then have "loopMove E ms cs = onServer (\<lambda>st. st\<lparr>ls_loop := LoopEnded\<rparr>) cs"
          using True by (simp add: l onServer_def loopIteration_def)
        then show ?thesis by (rule off [OF None])
      next
        case (Inr b)
        then obtain es q where b: "b = (True, es, q)"
          using None' True by (cases b) (auto simp: idleRound_def split: bool.splits)
        have "es @ q_items q = q_items (evq (worldOf cs))" using evq.take_many [OF Inr [unfolded b]] by simp
        then show ?thesis using True Inr b by (intro batch [OF None, where q = q and es = es]) (simp_all add: l onServer_def loopIteration_def)
      qed
    qed
  qed
qed (use inside in \<open>auto simp: loopMove_def\<close>)

section \<open>An invariant with handlers in progress\<close>

text \<open>
  \<open>T seen v h t\<close>: \<open>t\<close> is what a worker may have left to do that runs \<open>v\<close> and holds \<open>h\<close> (the clean-up is
  that of a worker that waits). The invariant is about what all of them hold together.
\<close>

definition manned ::
  "('x \<Rightarrow> nat list \<Rightarrow> ('w, 'c) world \<Rightarrow> bool)
     \<Rightarrow> (('w, 'c) history \<Rightarrow> Event worker \<Rightarrow> nat list \<Rightarrow> ('w, 'c) routine \<Rightarrow> bool)
     \<Rightarrow> ('w, 'c) history \<Rightarrow> ('w, 'c) cserver \<Rightarrow> bool" where
  "manned I T seen cs \<longleftrightarrow>
     (\<exists>x hs hc. length hs = length (workersOf cs) \<and> length (cs_handlers cs) = length (workersOf cs) \<and>
        I x (concat hs @ hc) (worldOf cs) \<and> T seen Waiting hc (cs_cleanup cs) \<and>
        (\<forall>i < length hs. T seen (workersOf cs ! i) (hs ! i) (cs_handlers cs ! i)))"

locale crew =
  fixes E :: "('w, 'c) senv" and I :: "'x \<Rightarrow> nat list \<Rightarrow> ('w, 'c) world \<Rightarrow> bool"
    and T :: "('w, 'c) history \<Rightarrow> Event worker \<Rightarrow> nat list \<Rightarrow> ('w, 'c) routine \<Rightarrow> bool"
  assumes shares: "mset h = mset h' \<Longrightarrow> I x h s \<Longrightarrow> I x h' s"
    and nets: "I x h s \<Longrightarrow> \<exists>y. I y h (s\<lparr>w_net := n\<rparr>)"
    and rests: "T seen v [] (retT ())"
    and enters: "T seen (Running ev) [] (taskT E ev)"
    and cleans: "T seen Waiting [] (cleanupT E ms)"
    and moves: "T seen v h t \<Longrightarrow> moveT t s = Some (t', s') \<Longrightarrow> I x (h @ o') s \<Longrightarrow>
      \<exists>h' y. I y (h' @ o') s' \<and> T (seen @ [(v, s)]) v h' t'"
    and remembers: "T seen v h t \<Longrightarrow> T (seen @ [p]) v h t"
    and leaves: "T seen v h t \<Longrightarrow> moveT t s = None \<Longrightarrow> h = []"
begin

lemma manned_world:
  assumes "manned I T seen cs" and "\<And>x h. I x h (worldOf cs) \<Longrightarrow> \<exists>y. I y h (ls_world st)"
    and "tp_workers (ls_tasks st) = workersOf cs"
  shows "manned I T seen (cs\<lparr>cs_server := st\<rparr>)"
  using assms unfolding manned_def by (simp, blast)

lemma manned_handler:
  assumes m: "manned I T seen cs" and i: "i < length (workersOf cs)"
    and s: "moveT (cs_handlers cs ! i) (worldOf cs) = Some (t, w)"
  shows "manned I T (seen @ [(workersOf cs ! i, worldOf cs)]) (setWorld w (cs\<lparr>cs_handlers := (cs_handlers cs)[i := t]\<rparr>))"
proof -
  from m obtain x hs hc where h: "length hs = length (workersOf cs)" "length (cs_handlers cs) = length (workersOf cs)"
    "I x (concat hs @ hc) (worldOf cs)" "T seen Waiting hc (cs_cleanup cs)"
    "\<And>j. j < length hs \<Longrightarrow> T seen (workersOf cs ! j) (hs ! j) (cs_handlers cs ! j)"
    unfolding manned_def by blast
  let ?o = "concat (take i hs) @ concat (drop (Suc i) hs) @ hc"
  have slots: "mset (concat (hs[i := h']) @ hc) = mset (h' @ ?o)" for h'
    using i h(1) by (simp add: upd_conv_take_nth_drop)
  have "I x (hs ! i @ ?o) (worldOf cs)" by (rule shares [OF _ h(3)]) (use slots [of "hs ! i"] in simp)
  from moves [OF h(5) s this] i h(1) obtain h' y where
    h': "I y (h' @ ?o) w" "T (seen @ [(workersOf cs ! i, worldOf cs)]) (workersOf cs ! i) h' t" by auto
  have "I y (concat (hs[i := h']) @ hc) w" by (rule shares [OF _ h'(1)]) (simp only: slots)
  moreover have each: "T (seen @ [(workersOf cs ! i, worldOf cs)]) (workersOf cs ! j) (hs[i := h'] ! j)
      ((cs_handlers cs)[i := t] ! j)" if "j < length hs" for j
    using that h h' remembers by (cases "j = i") auto
  moreover have "T (seen @ [(workersOf cs ! i, worldOf cs)]) Waiting hc (cs_cleanup cs)" by (rule remembers [OF h(4)])
  ultimately show ?thesis
    unfolding manned_def
    by (intro exI [of _ y] exI [of _ "hs[i := h']"] exI [of _ hc])
       (use h in simp)
qed

lemma manned_cleanup:
  assumes m: "manned I T seen cs" and s: "moveT (cs_cleanup cs) (worldOf cs) = Some (t, w)"
  shows "manned I T (seen @ [(Waiting, worldOf cs)]) (setWorld w (cs\<lparr>cs_cleanup := t\<rparr>))"
proof -
  from m obtain x hs hc where h: "length hs = length (workersOf cs)" "length (cs_handlers cs) = length (workersOf cs)"
    "I x (concat hs @ hc) (worldOf cs)" "T seen Waiting hc (cs_cleanup cs)"
    "\<And>j. j < length hs \<Longrightarrow> T seen (workersOf cs ! j) (hs ! j) (cs_handlers cs ! j)"
    unfolding manned_def by blast
  have "I x (hc @ concat hs) (worldOf cs)" by (rule shares [OF _ h(3)]) simp
  from moves [OF h(4) s this] obtain h' y where
    h': "I y (h' @ concat hs) w" "T (seen @ [(Waiting, worldOf cs)]) Waiting h' t" by blast
  have "I y (concat hs @ h') w" by (rule shares [OF _ h'(1)]) simp
  then show ?thesis
    unfolding manned_def by (intro exI [of _ y] exI [of _ hs] exI [of _ h']) (use h h' in \<open>auto intro: remembers\<close>)
qed

lemma manned_border:
  assumes m: "manned I T seen cs" and s: "workerStep i (ls_tasks (cs_server cs)) = Some p"
    and e: "moveT (cs_handlers cs ! i) (worldOf cs) = None"
  shows "manned I T seen (onServer (\<lambda>st. st\<lparr>ls_tasks := p\<rparr>) (cs\<lparr>cs_handlers :=
    (cs_handlers cs)[i := handlerOf E (tp_workers p ! i)]\<rparr>))"
proof -
  from m obtain x hs hc where h: "length hs = length (workersOf cs)" "length (cs_handlers cs) = length (workersOf cs)"
    "I x (concat hs @ hc) (worldOf cs)" "T seen Waiting hc (cs_cleanup cs)"
    "\<And>j. j < length hs \<Longrightarrow> T seen (workersOf cs ! j) (hs ! j) (cs_handlers cs ! j)"
    unfolding manned_def by blast
  note w = workerStep_workers [OF s]
  have "hs ! i = []" using leaves [OF h(5) e] w(1) h(1) by simp
  then show ?thesis
    unfolding manned_def
    by (intro exI [of _ x] exI [of _ hs] exI [of _ hc])
       (use h w in \<open>auto simp: nth_list_update handlerOf_def rests enters split: worker.split\<close>)
qed

lemma manned_at:
  assumes "manned I T seen cs"
  shows "i < length (workersOf cs) \<Longrightarrow>
      \<exists>x h o'. I x (h @ o') (worldOf cs) \<and> T seen (workersOf cs ! i) h (cs_handlers cs ! i)"
    and "\<exists>x h o'. I x (h @ o') (worldOf cs) \<and> T seen Waiting h (cs_cleanup cs)"
proof -
  from assms obtain x hs hc where h: "length hs = length (workersOf cs)" "I x (concat hs @ hc) (worldOf cs)"
    "T seen Waiting hc (cs_cleanup cs)" "\<And>j. j < length hs \<Longrightarrow> T seen (workersOf cs ! j) (hs ! j) (cs_handlers cs ! j)"
    unfolding manned_def by blast
  have "I x (hc @ concat hs) (worldOf cs)" by (rule shares [OF _ h(2)]) simp
  then show "\<exists>x h o'. I x (h @ o') (worldOf cs) \<and> T seen Waiting h (cs_cleanup cs)" using h(3) by blast
  assume i: "i < length (workersOf cs)"
  have "mset (concat hs @ hc) = mset (hs ! i @ concat (take i hs) @ concat (drop (Suc i) hs) @ hc)"
    using i h(1) by (subst id_take_nth_drop [of i hs]) simp_all
  then have "I x (hs ! i @ concat (take i hs) @ concat (drop (Suc i) hs) @ hc) (worldOf cs)" using shares h(2) by blast
  then show "\<exists>x h o'. I x (h @ o') (worldOf cs) \<and> T seen (workersOf cs ! i) h (cs_handlers cs ! i)" using h(1,4) i by metis
qed

lemma manned_remembers: "manned I T seen cs \<Longrightarrow> manned I T (seen @ [p]) cs"
  unfolding manned_def by (blast intro: remembers)

lemma manned_idle:
  assumes m: "manned I T seen cs" and e: "moveT (cs_cleanup cs) (worldOf cs) = None"
  shows "manned I T seen (cs\<lparr>cs_cleanup := cleanupT E ms\<rparr>)"
proof -
  from m obtain x hs hc where h: "length hs = length (workersOf cs)" "length (cs_handlers cs) = length (workersOf cs)"
    "I x (concat hs @ hc) (worldOf cs)" "T seen Waiting hc (cs_cleanup cs)"
    "\<And>j. j < length hs \<Longrightarrow> T seen (workersOf cs ! j) (hs ! j) (cs_handlers cs ! j)"
    unfolding manned_def by blast
  have "hc = []" by (rule leaves [OF h(4) e])
  then show ?thesis
    unfolding manned_def by (intro exI [of _ x] exI [of _ hs] exI [of _ "[]"]) (use h in \<open>auto intro: cleans\<close>)
qed

lemma served_manned:
  assumes "cserved E ms k w ps seen cs" and "I x [] w"
  shows "manned I T seen cs"
  using assms(1)
proof (induction rule: cserved.induct)
  case Made
  have "T [] v [] (retT ())" for v by (rule rests)
  then show ?case
    unfolding manned_def newConcurrent_def
    by (intro exI [of _ x] exI [of _ "replicate k []"] exI [of _ "[]"])
       (use assms(2) in \<open>simp add: newLoginServer_def newThreadPool_def concat_replicate_trivial\<close>)
next
  case (Looped ps seen cs)
  note m = manned_remembers [OF Looped.IH, of "(Waiting, worldOf cs)"]
  show ?case
  proof (cases rule: loopMove_cases [where cs = cs and E = E and ms = ms])
    case (inside t v)
    then show ?thesis using manned_cleanup [OF Looped.IH inside(1)] by simp
  next
    case (idle q)
    have "manned I T (seen @ [(Waiting, worldOf cs)]) (onServer (\<lambda>st. st\<lparr>ls_world := setQueueW q (worldOf cs)\<rparr>)
        (cs\<lparr>cs_cleanup := cleanupT E ms\<rparr>))"
      unfolding onServer_def by (rule manned_world [OF manned_idle [OF m idle(1)]]) (simp_all add: setQueueW_def nets)
    then show ?thesis by (simp add: idle(2) setWorld_def)
  qed (use m in \<open>auto simp: onServer_def setQueueW_def intro!: manned_world nets\<close>)
next
  case (Moved ps seen cs i cs')
  from Moved.hyps(2) show ?case
  proof (cases rule: handlerMove_cases)
    case (inside t v)
    then show ?thesis using manned_handler [OF Moved.IH inside(3,1)] by simp
  next
    case (border p)
    then show ?thesis using manned_border [OF manned_remembers [OF Moved.IH] border(1,2)] by simp
  qed
qed (auto simp: onServer_def setWorld_def startMainEventLoop_def stopServer_def stopEventQueue_def setQueueW_def
       intro!: manned_world nets)

end

text \<open>When every handler keeps the invariant.\<close>

abbreviation keepsT ::
  "('x \<Rightarrow> nat list \<Rightarrow> ('w, 'c) world \<Rightarrow> bool) \<Rightarrow> ('w, 'c) history \<Rightarrow> Event worker \<Rightarrow> nat list
     \<Rightarrow> ('w, 'c) routine \<Rightarrow> bool" where
  "keepsT I \<equiv> \<lambda>seen v h t. safeT I (\<lambda>r h. h = []) h t"

lemma steady_crew:
  fixes E :: "('w, 'c) senv" and I :: "'x \<Rightarrow> nat list \<Rightarrow> ('w, 'c) world \<Rightarrow> bool"
  assumes "\<And>h h' x s. mset h = mset h' \<Longrightarrow> I x h s \<Longrightarrow> I x h' s" and "\<And>x h s n. I x h s \<Longrightarrow> \<exists>y. I y h (s\<lparr>w_net := n\<rparr>)"
    and "\<And>ev. steadyT I [] (taskT E ev)" and "\<And>ms. steadyT I [] (cleanupT E ms)"
  shows "crew E I (keepsT I)"
proof (rule crew.intro)
  show "\<exists>h' y. I y (h' @ o') s' \<and> safeT I (\<lambda>r h. h = []) h' t'"
    if "safeT I (\<lambda>r h. h = []) h t" "moveT t s = Some (t', s')" "I x (h @ o') s"
    for h o' x and t t' :: "('w, 'c) routine" and s s'
    using safeT_move [OF that] by blast
  show "h = []" if "safeT I (\<lambda>r h. h = []) h t" "moveT t s = None" for h s and t :: "('w, 'c) routine"
    using that by (cases t) simp_all
  show "safeT I (\<lambda>r h. h = []) [] (taskT E ev)" for ev by (rule assms(3))
  show "safeT I (\<lambda>r h. h = []) [] (cleanupT E ms)" for ms by (rule assms(4))
qed (rule assms(1); assumption | rule assms(2); assumption | simp add: retT_def)+

context stored
begin

lemma tracked_crew:
  assumes "\<And>ev. steadyT (\<lambda>_ :: unit. tracked n) [] (taskT E ev)"
  shows "crew E (\<lambda>_ :: unit. tracked n) (keepsT (\<lambda>_ :: unit. tracked n))"
  by (rule steady_crew [OF _ _ assms thr.steady_cleanup]) (use tracked_slots in blast, simp add: ready_def)

end

sublocale stored_all \<subseteq> safe: crew E "\<lambda>_ :: unit. tracked n" "keepsT (\<lambda>_ :: unit. tracked n)" for n
  by (rule tracked_crew, rule thr.full_task)
     (intro keeps_conj keeps_ready_services; simp add: keeps_wp create_outside delete_outside)+

sublocale server \<subseteq> rosters: crew E "\<lambda>_ :: unit. roster.tracked n" "keepsT (\<lambda>_ :: unit. roster.tracked n)" for n
  by (rule roster.tracked_crew, rule roster.thr.full_task) (rule create_roster delete_roster)+

section \<open>The queue while handlers are in progress\<close>

text \<open>The queue is as it was.\<close>

abbreviation sameQueue :: "Event event_queue \<Rightarrow> nat list \<Rightarrow> ('w, 'c) world \<Rightarrow> bool" where
  "sameQueue q h s \<equiv> evq s = q"

lemma evq_steady: "conserves evq m \<Longrightarrow> steadyT sameQueue h (atomT m)"
  by (intro steady_atom) (simp add: conserves_keeps)

lemma evq_work:
  "conserves evq m \<Longrightarrow> (\<And>x. steadyT sameQueue h (f x)) \<Longrightarrow> steadyT sameQueue h (workT E c m f)"
  unfolding workT_def segment_def
  by (intro steady_then steady_finally evq_steady conserves_andThen conserves_onError) (simp_all add: closeW_def)

lemma evq_guard: "(\<And>k. steadyT sameQueue h (body k)) \<Longrightarrow> steadyT sameQueue h (guardT E body)"
  unfolding guardT_def by (intro steady_then steady_finally evq_steady) (simp_all add: releaseW_def)

lemma evq_wrappers:
  "steadyT sameQueue h t \<Longrightarrow> steadyT sameQueue h (catchVariantT t)"
  "(\<And>d. steadyT sameQueue h (f d)) \<Longrightarrow> steadyT sameQueue h (withClientT ev f)"
  by (auto simp: catchVariantT_def withClientT_def intro!: steady_catch split: EventData.split)

lemma evq_genTs [simp]: "conserves evq (onNet (genResponseTs N st j ts))"
  by (rule evq_onNet) (auto simp: genResponseTs_def andThen_def tick_def split: sum.split)

lemma evq_respondT: "steadyT sameQueue h (respondT E so st b)"
  unfolding respondT_def by (intro steady_then evq_steady) simp_all

lemma evq_sessionGuardT: "steadyT sameQueue h t \<Longrightarrow> steadyT sameQueue h (sessionGuardT E et u d t)"
  by (auto simp: sessionGuardT_def intro!: steady_then evq_steady evq_respondT)

lemma evq_segments [simp]:
  "conserves evq (loginPhase E c login pw ip ver)" "conserves evq (rotateTokens E c u hash ver)"
  "conserves evq (insertAccount E c login pw email ip ver)" "conserves evq (readOptions E c)"
  "conserves evq (checkBan E c u)" "conserves evq (checkLogin E c login)" "conserves evq (hashPasswordW E pw)"
  unfolding loginPhase_def rotateTokens_def insertAccount_def readOptions_def checkBan_def checkLogin_def
    probeStatus_def hashPasswordW_def
  by (auto simp: Let_def intro!: evq_intros split: option.split)

lemmas evq_threads = steady_intros evq_steady evq_work evq_guard evq_wrappers evq_respondT evq_sessionGuardT
  steady_finally conserves_mapE

lemma evq_services_threads:
  "steadyT sameQueue h (authenticateT E c login pw ip ver)"
  "steadyT sameQueue h (registerAccountT E c login pw email ip ver u hash)"
  "steadyT sameQueue h (storeSessionT E d)"
proof -
  show store: "steadyT sameQueue h (storeSessionT E d)" for d
    unfolding storeSessionT_def by (intro steady_then evq_steady) simp_all
  show "steadyT sameQueue h (authenticateT E c login pw ip ver)"
    unfolding authenticateT_def admitUserT_def openSessionT_def
    by (auto intro!: evq_threads store split: sum.split option.split)
  show "steadyT sameQueue h (registerAccountT E c login pw email ip ver u hash)"
    unfolding registerAccountT_def createAccountT_def
    by (auto simp: Let_def intro!: evq_threads store split: option.split)
qed

lemma evq_handlers:
  "steadyT sameQueue h (pingT E ev)" "steadyT sameQueue h (loginT E ev)" "steadyT sameQueue h (registerT E ev)"
  "steadyT sameQueue h (listT E ev)" "steadyT sameQueue h (createT E ev)" "steadyT sameQueue h (deleteT E ev)"
  "steadyT sameQueue h (optionsT E ev)" "steadyT sameQueue h (disconnectT E ev)"
proof -
  show "steadyT sameQueue h (pingT E ev)"
    by (auto simp: pingT_def intro!: evq_threads split: option.split)
  show "steadyT sameQueue h (loginT E ev)"
    by (auto simp: loginT_def authenticateClientT_def clientIpT_def releaseW_def
        intro!: evq_threads evq_services_threads split: option.split)
  show "steadyT sameQueue h (registerT E ev)"
    by (auto simp: registerT_def registerClientT_def intro!: evq_threads evq_services_threads split: EventData.split)
  show "steadyT sameQueue h (listT E ev)"
    by (auto simp: listT_def listCharactersT_def characterJsonT_def intro!: evq_threads split: option.split)
  show "steadyT sameQueue h (createT E ev)" "steadyT sameQueue h (deleteT E ev)"
    by (auto simp: createT_def deleteT_def Let_def intro!: evq_threads)
  show "steadyT sameQueue h (optionsT E ev)"
    by (auto simp: optionsT_def creationOptionsT_def intro!: evq_threads)
  show "steadyT sameQueue h (disconnectT E ev)"
    by (auto simp: disconnectT_def broadcastT_def intro!: evq_threads)
qed

interpretation queued: crew E sameQueue "keepsT sameQueue" for E :: "('w, 'c) senv"
proof (rule steady_crew)
  show "steadyT sameQueue [] (taskT E ev)" for ev :: Event
    unfolding taskT_def dispatchT_def by (intro steady_catch) (auto intro: evq_handlers split: EventType.split)
  show "steadyT sameQueue [] (cleanupT E ms)" for ms
    by (auto simp: cleanupT_def intro!: evq_threads evq_onNet conserves_andThen)
qed simp_all

lemma safe_queue: "safeT sameQueue Q h t \<Longrightarrow> moveT t s = Some (t', s') \<Longrightarrow> evq s' = evq s"
  using safeT_move [of sameQueue Q h t s t' s' "evq s" "[]"] by auto

lemma inside_queue:
  assumes "cserved E ms k w ps seen cs"
  shows "moveT (cs_cleanup cs) (worldOf cs) = Some (t, s) \<Longrightarrow> evq s = evq (worldOf cs)"
    and "moveT (cs_handlers cs ! i) (worldOf cs) = Some (t, s) \<Longrightarrow> i < length (workersOf cs) \<Longrightarrow> evq s = evq (worldOf cs)"
  using queued.served_manned [OF assms] unfolding manned_def by (blast intro: safe_queue, auto intro: safe_queue)

lemma cserved_flow:
  assumes "cserved E ms k w ps seen cs" and "q_items (evq w) = []"
  shows "flow k ps (cs_server cs)"
  using assms(1)
proof (induction rule: cserved.induct)
  case Made
  show ?case using assms(2) by (simp add: newConcurrent_def flow_def newLoginServer_def newThreadPool_def pool_inv_def running_def)
next
  case (Pushed ps seen cs e)
  then show ?case by (auto simp: flow_def evq.contents_push)
next
  case (Looped ps seen cs)
  show ?case
  proof (cases rule: loopMove_cases [where cs = cs and E = E and ms = ms])
    case (batch q es)
    from Looped.IH obtain ts where ts: "\<not> tp_stop (ls_tasks (cs_server cs))" "pool_inv k ts (ls_tasks (cs_server cs))"
      "ts @ q_items (evq (worldOf cs)) = ps" by (auto simp: flow_def)
    then have "pool_inv k (ts @ es) (processBatch es (ls_tasks (cs_server cs)))"
      by (auto simp: processBatch_open pool_inv_def)
    moreover have "(ts @ es) @ q_items q = ps" using ts(3) batch(3) by simp
    ultimately show ?thesis using ts(1) unfolding batch(2) flow_def
      by (intro conjI exI [of _ "ts @ es"]) (simp_all add: processBatch_open)
  qed (use Looped inside_queue(1) [OF Looped.hyps] in \<open>auto simp: flow_def\<close>)
next
  case (Moved ps seen cs i cs')
  from Moved.hyps(2) show ?case
  proof (cases rule: handlerMove_cases)
    case (inside t v)
    then show ?thesis using Moved.IH inside_queue(2) [OF Moved.hyps(1) inside(1,3)] by (simp add: flow_def)
  next
    case (border p)
    then show ?thesis using Moved.IH by (auto simp: flow_def workerStep_stop intro: workerStep_inv)
  qed
qed (auto simp: flow_def startMainEventLoop_def stopServer_def stopEventQueue_def stopQueue_def)

text \<open>
  The moves that serve what was pushed. What is left to do gets less: first the work, then the clean-up
  in progress, then the handlers in progress.
\<close>

inductive cserve_step :: "('w, 'c) senv \<Rightarrow> int \<Rightarrow> ('w, 'c) cserver \<Rightarrow> ('w, 'c) cserver \<Rightarrow> bool" for E intervalMs where
  Loop: "q_items (evq (worldOf cs)) \<noteq> [] \<or> moveT (cs_cleanup cs) (worldOf cs) \<noteq> None \<Longrightarrow>
     cserve_step E intervalMs cs (loopMove E intervalMs cs)"
| Work: "handlerMove E i cs = Some cs' \<Longrightarrow> cserve_step E intervalMs cs cs'"

definition nearer :: "(('w, 'c) cserver \<times> ('w, 'c) cserver) set" where
  "nearer = inv_image (less_than <*lex*> (moved <*lex*> listrel1 moved))
     (\<lambda>cs. (todo (cs_server cs), cs_cleanup cs, cs_handlers cs))"

lemma wf_nearer: "wf nearer"
  unfolding nearer_def by (intro wf_inv_image wf_lex_prod wf_less_than wf_moved iffD2 [OF wf_listrel1_iff])

lemma loop_nearer:
  assumes r: "cserved E ms k w ps seen cs" and f: "flow k ps (cs_server cs)"
    and on: "ls_loop (cs_server cs) = Looping" "ls_running (cs_server cs)" and len: "int (length ps) \<le> INT_MAX"
    and busy: "q_items (evq (worldOf cs)) \<noteq> [] \<or> moveT (cs_cleanup cs) (worldOf cs) \<noteq> None"
  shows "(loopMove E ms cs, cs) \<in> nearer \<and> ls_loop (cs_server (loopMove E ms cs)) = Looping \<and>
    ls_running (cs_server (loopMove E ms cs))"
proof (cases "moveT (cs_cleanup cs) (worldOf cs)")
  case (Some m)
  obtain t s where m: "m = (t, s)" by (cases m)
  then have "todo (cs_server (loopMove E ms cs)) = todo (cs_server cs)"
    using inside_queue(1) [OF r Some [unfolded m]] Some by (simp add: todo_def loopMove_def)
  then show ?thesis using Some on movedI [OF Some [unfolded m]] by (simp add: m nearer_def loopMove_def)
next
  case None
  let ?st = "cs_server cs"
  have takes: "todo (loopIteration E ms ?st) < todo ?st" "ls_loop (loopIteration E ms ?st) = Looping"
    "ls_running (loopIteration E ms ?st)"
    using loop_takes [OF on, of E ms] f busy None len by (auto simp: flow_def)
  have "idleRound ?st = None"
  proof (rule ccontr)
    assume "idleRound ?st \<noteq> None"
    then obtain es q where b: "tryPopBatch [] BATCH_SIZE (evq (ls_world ?st)) = Inr (False, es, q)"
      by (auto simp: idleRound_def split: if_splits sum.splits bool.splits)
    have "q_items q = q_items (evq (ls_world ?st))" using evq.take_many [OF b] by auto
    then show False using takes(1) on b by (simp add: loopIteration_def todo_def evq_cleanup)
  qed
  then show ?thesis using takes None by (simp add: loopMove_def nearer_def)
qed

lemma handler_nearer:
  assumes r: "cserved E ms k w ps seen cs" and s: "handlerMove E i cs = Some cs'"
  shows "(cs', cs) \<in> nearer \<and> ls_loop (cs_server cs') = ls_loop (cs_server cs) \<and>
    ls_running (cs_server cs') = ls_running (cs_server cs)"
  using s
proof (cases rule: handlerMove_cases)
  case (inside t v)
  have "todo (cs_server cs') = todo (cs_server cs)"
    using inside_queue(2) [OF r inside(1,3)] inside(2) by (simp add: todo_def)
  moreover have "length (cs_handlers cs) = length (workersOf cs)"
    using queued.served_manned [OF r] unfolding manned_def by blast
  ultimately have "((cs_handlers cs)[i := t], cs_handlers cs) \<in> listrel1 moved"
    using inside(3) movedI [OF inside(1)]
    unfolding listrel1_iff_update by (intro exI [of _ "cs_handlers cs ! i"] exI [of _ i]) simp
  then show ?thesis using \<open>todo _ = _\<close> inside(2) by (simp add: nearer_def)
next
  case (border p)
  then show ?thesis using workLeft_decreases [OF border(1)] by (simp add: nearer_def todo_def)
qed

text \<open>No handler and no clean-up is in progress.\<close>

definition quiescent :: "('w, 'c) cserver \<Rightarrow> bool" where
  "quiescent cs \<longleftrightarrow> (\<forall>t \<in> set (cs_cleanup cs # cs_handlers cs). moveT t (worldOf cs) = None)"

context crew
begin

lemma quiescent_holds:
  assumes "manned I T seen cs" and "quiescent cs"
  shows "\<exists>x. I x [] (worldOf cs)"
proof -
  from assms(1) obtain x hs hc where h: "length hs = length (workersOf cs)" "length (cs_handlers cs) = length (workersOf cs)"
    "I x (concat hs @ hc) (worldOf cs)" "T seen Waiting hc (cs_cleanup cs)"
    "\<And>j. j < length hs \<Longrightarrow> T seen (workersOf cs ! j) (hs ! j) (cs_handlers cs ! j)"
    unfolding manned_def by blast
  have "hc = []" by (rule leaves [OF h(4), of "worldOf cs"]) (use assms(2) in \<open>simp add: quiescent_def\<close>)
  moreover have "hs ! j = []" if "j < length hs" for j
    by (rule leaves [OF h(5) [OF that], of "worldOf cs"]) (use assms(2) that h in \<open>simp add: quiescent_def\<close>)
  then have "concat hs = []" by (auto simp: concat_eq_Nil_conv in_set_conv_nth)
  ultimately show ?thesis using h(3) by (metis append_Nil)
qed

end

section \<open>Nobody interrupts\<close>

text \<open>The moves of one handler in a row, until it has ended, in anything that has them among its moves.\<close>

lemma handler_to_end:
  assumes closed: "\<And>seen cs cs'. R seen cs \<Longrightarrow> handlerMove E i cs = Some cs' \<Longrightarrow> R (seen @ [(workersOf cs ! i, worldOf cs)]) cs'"
    and "R seen cs" and "cs_handlers cs ! i = t"
    and "i < length (cs_handlers cs)" and "workerStep i (ls_tasks (cs_server cs)) \<noteq> None"
  shows "\<exists>seen'. R seen' (setWorld (snd (runT t (worldOf cs)))
    (cs\<lparr>cs_handlers := (cs_handlers cs)[i := Ended (fst (runT t (worldOf cs)))]\<rparr>))"
  using assms(2-)
proof (induction t arbitrary: seen cs rule: thread_moves)
  case (Ended r)
  then have "setWorld (worldOf cs) (cs\<lparr>cs_handlers := (cs_handlers cs)[i := Ended r]\<rparr>) = cs"
    by (simp add: setWorld_def onServer_def list_update_same_conv)
  then show ?case using Ended.prems(1) by auto
next
  case (More g)
  let ?s = "worldOf cs"
  let ?cs = "setWorld (snd (g ?s)) (cs\<lparr>cs_handlers := (cs_handlers cs)[i := fst (g ?s)]\<rparr>)"
  have "handlerMove E i cs = Some ?cs" using More.prems by (auto simp: handlerMove_def split: prod.split)
  then have "R (seen @ [(workersOf cs ! i, ?s)]) ?cs" by (rule closed [OF More.prems(1)])
  from More.IH [OF this] More.prems show ?case by (simp add: run_more setWorld_def onServer_def del: runT.simps)
qed

lemma cleanup_to_end:
  assumes "cserved E ms k w ps seen cs" and "cs_cleanup cs = t"
  shows "\<exists>seen'. cserved E ms k w ps seen' (setWorld (snd (runT t (worldOf cs)))
    (cs\<lparr>cs_cleanup := Ended (fst (runT t (worldOf cs)))\<rparr>))"
  using assms
proof (induction t arbitrary: seen cs rule: thread_moves)
  case (Ended r)
  then have "setWorld (worldOf cs) (cs\<lparr>cs_cleanup := Ended r\<rparr>) = cs" by (simp add: setWorld_def onServer_def)
  then show ?case using Ended.prems(1) by auto
next
  case (More g)
  let ?s = "worldOf cs"
  let ?cs = "setWorld (snd (g ?s)) (cs\<lparr>cs_cleanup := fst (g ?s)\<rparr>)"
  have "loopMove E ms cs = ?cs" using More.prems by (auto simp: loopMove_def split: prod.split)
  then have "cserved E ms k w ps (seen @ [(Waiting, ?s)]) ?cs" by (metis cserved.Looped More.prems(1))
  from More.IH [OF this] show ?case by (simp add: run_more setWorld_def onServer_def del: runT.simps)
qed

text \<open>The server of \<open>Server\<close>: every handler is about to start, no clean-up is in progress.\<close>

definition between :: "('w, 'c) senv \<Rightarrow> ('w, 'c) lserver \<Rightarrow> ('w, 'c) cserver \<Rightarrow> bool" where
  "between E st cs \<longleftrightarrow> cs_server cs = st \<and> (\<exists>r. cs_cleanup cs = Ended r) \<and>
     cs_handlers cs = map (handlerOf E) (tp_workers (ls_tasks st))"

lemma between_iteration:
  assumes r: "cserved E ms k w ps seen cs" and b: "between E st cs"
  shows "\<exists>seen' cs'. cserved E ms k w ps seen' cs' \<and> between E (loopIteration E ms st) cs'"
proof (cases "idleRound st")
  case None
  then have "loopMove E ms cs = onServer (loopIteration E ms) cs" using b by (auto simp: loopMove_def between_def)
  moreover have "tp_workers (ls_tasks (loopIteration E ms st)) = tp_workers (ls_tasks st)"
    by (cases E ms st rule: loopIteration_cases) simp_all
  ultimately have "between E (loopIteration E ms st) (loopMove E ms cs)" using b by (simp add: between_def)
  then show ?thesis using cserved.Looped [OF r] by blast
next
  case (Some q)
  let ?cs = "setWorld (setQueueW q (worldOf cs)) (cs\<lparr>cs_cleanup := cleanupT E ms\<rparr>)"
  have "loopMove E ms cs = ?cs" using b Some by (auto simp: loopMove_def between_def)
  then have "cserved E ms k w ps (seen @ [(Waiting, worldOf cs)]) ?cs" using cserved.Looped [OF r] by metis
  from cleanup_to_end [OF this] obtain seen' r' where
    "cserved E ms k w ps seen' (setWorld (snd (periodicCleanup E ms (setQueueW q (worldOf cs)))) (cs\<lparr>cs_cleanup := Ended r'\<rparr>))"
    by (auto simp: run_cleanup setWorld_def onServer_def)
  moreover have "loopIteration E ms st = st\<lparr>ls_world := snd (periodicCleanup E ms (setQueueW q (ls_world st)))\<rparr>"
    using Some by (auto simp: idleRound_def loopIteration_def split: if_splits sum.splits bool.splits)
  then have "between E (loopIteration E ms st)
      (setWorld (snd (periodicCleanup E ms (setQueueW q (worldOf cs)))) (cs\<lparr>cs_cleanup := Ended r'\<rparr>))"
    using b by (simp add: between_def)
  ultimately show ?thesis by blast
qed

lemma between_move:
  assumes r: "cserved E ms k w ps seen cs" and b: "between E st cs" and m: "workerMove E i st = Some st'"
  shows "\<exists>seen' cs'. cserved E ms k w ps seen' cs' \<and> between E st' cs'"
proof -
  obtain p where p: "workerStep i (ls_tasks st) = Some p" using m by (auto simp: workerMove_def split: option.splits)
  note v = workerStep_workers [OF p]
  let ?v = "tp_workers (ls_tasks st) ! i" and ?s = "ls_world st"
  let ?s' = "snd (runT (handlerOf E ?v) ?s)"
  have st': "st' = st\<lparr>ls_tasks := p, ls_world := ?s'\<rparr>"
    using m p by (auto simp: workerMove_def handlerOf_def run_task run_ret ret_def split: worker.split)
  have "\<exists>seen1. cserved E ms k w ps seen1 (setWorld (snd (runT (handlerOf E ?v) (worldOf cs)))
      (cs\<lparr>cs_handlers := (cs_handlers cs)[i := Ended (fst (runT (handlerOf E ?v) (worldOf cs)))]\<rparr>))"
    by (rule handler_to_end [where R = "cserved E ms k w ps" and E = E, OF _ r]) (erule (1) cserved.Moved, use b v p in \<open>auto simp: between_def\<close>)
  then obtain seen1 x where
    1: "cserved E ms k w ps seen1 (setWorld ?s' (cs\<lparr>cs_handlers := (cs_handlers cs)[i := Ended x]\<rparr>))"
    using b by (auto simp: between_def)
  let ?cs = "onServer (\<lambda>st. st\<lparr>ls_tasks := p\<rparr>)
    (setWorld ?s' (cs\<lparr>cs_handlers := (cs_handlers cs)[i := handlerOf E (tp_workers p ! i)]\<rparr>))"
  have "handlerMove E i (setWorld ?s' (cs\<lparr>cs_handlers := (cs_handlers cs)[i := Ended x]\<rparr>)) = Some ?cs"
    using b p v by (simp add: handlerMove_def between_def setWorld_def onServer_def)
  moreover have "between E st' ?cs"
    using b v(4) by (auto simp: between_def st' map_update [symmetric])
  ultimately show ?thesis using cserved.Moved [OF 1] by blast
qed

lemma served_cserved:
  "served E ms k w ps st \<Longrightarrow> \<exists>seen cs. cserved E ms k w ps seen cs \<and> between E st cs"
proof (induction rule: served.induct)
  case Made
  have "between E (newLoginServer k w) (newConcurrent k w)"
    by (simp add: between_def newConcurrent_def newLoginServer_def newThreadPool_def retT_def handlerOf_def)
  then show ?case using cserved.Made by blast
next
  case (Started ps st)
  then obtain seen cs where c: "cserved E ms k w ps seen cs" "between E st cs" by blast
  have "between E (startMainEventLoop st) (onServer startMainEventLoop cs)"
    using c(2) by (simp add: between_def startMainEventLoop_def)
  then show ?case using cserved.Started [OF c(1)] by blast
next
  case (Pushed ps st e)
  then obtain seen cs where c: "cserved E ms k w ps seen cs" "between E st cs" by blast
  show ?case using cserved.Pushed [OF c(1), of e] c(2) by (fastforce simp: between_def)
next
  case (Networked ps st x)
  then obtain seen cs where c: "cserved E ms k w ps seen cs" "between E st cs" by blast
  show ?case using cserved.Networked [OF c(1), of x] c(2) Networked.hyps(2) by (fastforce simp: between_def)
next
  case (Stopped ps st)
  then obtain seen cs where c: "cserved E ms k w ps seen cs" "between E st cs" by blast
  have "between E (stopServer st) (onServer stopServer cs)"
    using c(2) by (simp add: between_def stopServer_def stopEventQueue_def)
  then show ?case using cserved.Stopped [OF c(1)] by blast
qed (blast intro: between_iteration, blast intro: between_move)

context server
begin

lemma cserved_ready:
  assumes "cserved E ms k w ps seen cs" and "ready txn n [] w"
  shows "\<exists>held. ready txn n held (worldOf cs) \<and> (quiescent cs \<longrightarrow> held = [])"
proof -
  have "bare.tracked n [] w" using assms(2) by (simp add: bare.outside_def ready_def)
  note m = bare.safe.served_manned [OF assms(1) this]
  show ?thesis
  proof (cases "quiescent cs")
    case True
    then show ?thesis using bare.safe.quiescent_holds [OF m] by auto
  next
    case False
    then show ?thesis using m by (auto simp: manned_def)
  qed
qed

end

section \<open>A handler that holds a connection\<close>

text \<open>A deletion that has passed the session check and holds the only connection of the pool.\<close>

lemma deletion_holds:
  obtains seen cs where "cserved (relServer False) 60000 1 sessionWorld [deletion] seen cs"
    "pl_available (w_pool (worldOf cs)) = []" "workersOf cs = [Running deletion]"
proof -
  let ?E = "relServer False" and ?p = "(w_pool sessionWorld)\<lparr>pl_available := []\<rparr>"
  have acq: "acquireW ?E sessionWorld = (Inr 0, sessionWorld\<lparr>w_pool := ?p\<rparr>)"
    by (simp add: acquireW_def acquire_def relServer_def relLib_def relConn_def rel_defs sessionWorld_def relWorld_def
        andThen_def onPool_def onWorld_def healthy_def tryCatch_def connectionAt_def)
  have valid: "validateSession 7 ''tok'' (w_sessions sessionWorld)"
    by (simp add: validateSession_iff sessionWorld_def relWorld_def)
  obtain t1 t2 where moves: "moveT (taskT ?E deletion) sessionWorld = Some (t1, sessionWorld)"
    "moveT t1 sessionWorld = Some (t2, sessionWorld\<lparr>w_pool := ?p\<rparr>)"
    by (simp add: taskT_def dispatchT_def deleteT_def deletion_def catchVariantT_def withClientT_def askDelete_def
        newClient_def newCharacter_def sessionGuardT_def atomT_def readS_def guardT_def valid acq)
  obtain st where st: "served ?E 60000 1 sessionWorld [deletion] st" "ls_world st = sessionWorld"
    "tp_workers (ls_tasks st) = [Running deletion]" by (rule one_started [OF sessionWorld_queue])
  then obtain seen cs where c: "cserved ?E 60000 1 sessionWorld [deletion] seen cs" "between ?E st cs"
    using served_cserved by blast
  let ?c1 = "setWorld sessionWorld (cs\<lparr>cs_handlers := [t1]\<rparr>)"
  let ?c2 = "setWorld (sessionWorld\<lparr>w_pool := ?p\<rparr>) (?c1\<lparr>cs_handlers := [t2]\<rparr>)"
  have "handlerMove ?E 0 cs = Some ?c1" "handlerMove ?E 0 ?c1 = Some ?c2"
    using c(2) st moves by (simp_all add: handlerMove_def between_def workerStep_def handlerOf_def)
  then have "cserved ?E 60000 1 sessionWorld [deletion]
      ((seen @ [(workersOf cs ! 0, worldOf cs)]) @ [(workersOf ?c1 ! 0, worldOf ?c1)]) ?c2"
    using cserved.Moved [OF c(1)] cserved.Moved by blast
  then show ?thesis using that c(2) st(3) by (simp add: between_def)
qed

section \<open>Properties\<close>



text \<open>C10: with handlers in progress, whatever has failed: the pool's slots are the free ones and those
  held by handlers, a held slot has a connection, no transaction is open between two moves, and
  when no handler and no clean-up is in progress every slot is free.\<close>

theorem connections_accounted:
  assumes "server E Q db txn" and "ready txn n [] w" and "cserved E ms k w ps seen cs"
  shows "\<exists>held. mset (pl_available (w_pool (worldOf cs))) + mset held = mset [0..<n] \<and>
    (\<forall>i \<in> set held. pl_connections (w_pool (worldOf cs)) ! i \<noteq> None) \<and>
    length (pl_connections (w_pool (worldOf cs))) = n \<and> txn (w_out (worldOf cs)) = Map.empty \<and>
    (quiescent cs \<longrightarrow> held = [])"
  using server.cserved_ready [OF assms(1,3,2)] by (auto simp: ready_def pool_ok_def)

theorem connections_accounted_witness:
  "\<exists>seen cs held. cserved (relServer False) 60000 1 sessionWorld [deletion] seen cs \<and>
     pl_available (w_pool (worldOf cs)) = [] \<and> mset held = {#0#} \<and> \<not> quiescent cs"
proof -
  obtain seen cs where c: "cserved (relServer False) 60000 1 sessionWorld [deletion] seen cs"
    "pl_available (w_pool (worldOf cs)) = []" by (rule deletion_holds)
  from connections_accounted [OF rel_server.server_axioms sessionWorld_ready c(1)] obtain held where
    "mset held = {#0#}" "quiescent cs \<longrightarrow> held = []" by (auto simp: c(2))
  moreover from this have "\<not> quiescent cs" by auto
  ultimately show ?thesis using c by blast
qed

text \<open>Whatever the interleaving of the I/O threads, the loop and the moves of the handlers, with or
  without a stop: the tasks started, then the tasks waiting in the pool, then the queue are exactly
  the pushed events, each once and in the order pushed, and a started event is running or finished.\<close>

lemma dispatched_in_order:
  assumes "cserved E ms k w ps seen cs" and "q_items (evq w) = []"
  shows "tp_started (ls_tasks (cs_server cs)) @ tp_tasks (ls_tasks (cs_server cs)) @ q_items (evq (worldOf cs)) = ps \<and>
    mset (tp_started (ls_tasks (cs_server cs))) =
      running (ls_tasks (cs_server cs)) + mset (tp_finished (ls_tasks (cs_server cs)))"
  using cserved_flow [OF assms] by (auto simp: flow_def pool_inv_def)

lemma dispatched_in_order_witness:
  "\<exists>seen cs. cserved (relServer False) 60000 1 sessionWorld [deletion] seen cs \<and>
     tp_started (ls_tasks (cs_server cs)) = [deletion] \<and> tp_finished (ls_tasks (cs_server cs)) = []"
proof -
  obtain seen cs where c: "cserved (relServer False) 60000 1 sessionWorld [deletion] seen cs"
    "workersOf cs = [Running deletion]" by (rule deletion_holds)
  from dispatched_in_order [OF c(1) sessionWorld_idle]
  have "tp_started (ls_tasks (cs_server cs)) @ tp_tasks (ls_tasks (cs_server cs)) @ q_items (evq (worldOf cs)) = [deletion]"
    "mset (tp_started (ls_tasks (cs_server cs))) = add_mset deletion (mset (tp_finished (ls_tasks (cs_server cs))))"
    by (simp_all add: running_def c(2))
  then have "tp_started (ls_tasks (cs_server cs)) = [deletion] \<and> tp_finished (ls_tasks (cs_server cs)) = []"
    by (cases "tp_started (ls_tasks (cs_server cs))") auto
  then show ?thesis using c(1) by blast
qed



end
