(* ===== verification/System.thy ===== *)
theory System
  imports Interleaving
begin

text \<open>
  The whole server: the I/O threads of \<open>NetworkManager\<close> with their connections and the sockets'
  executor, the event loop and its clean-up, the workers with their handlers in progress, and the
  objects' lifetimes, interleaved as steps over one state. The invariant ties the components together:
  the write queues go through steps of their own protocol, everything that waits to be handled is about
  a live socket and was admitted, each registered client has its one read armed, and the sessions hold
  no socket.
\<close>

section \<open>State\<close>

text \<open>What the I/O threads work on, inside the state \<open>main\<close> builds.\<close>

definition netOf :: "('w, 'c) process \<Rightarrow> net" where
  "netOf p = (pr_conns p, w_net (ls_world (pr_server p)))"

definition setNet :: "net \<Rightarrow> ('w, 'c) process \<Rightarrow> ('w, 'c) process" where
  "setNet t p = p\<lparr>pr_conns := fst t,
     pr_server := (pr_server p)\<lparr>ls_world := (ls_world (pr_server p))\<lparr>w_net := snd t\<rparr>\<rparr>\<rparr>"

abbreviation ioOf :: "('w, 'c) process \<Rightarrow> netio" where
  "ioOf p \<equiv> n_io (snd (netOf p))"

definition setIO :: "netio \<Rightarrow> ('w, 'c) process \<Rightarrow> ('w, 'c) process" where
  "setIO io p = setNet (pr_conns p, (snd (netOf p))\<lparr>n_io := io\<rparr>) p"

definition setServer :: "('w, 'c) lserver \<Rightarrow> ('w, 'c) process \<Rightarrow> ('w, 'c) process" where
  "setServer st p = p\<lparr>pr_server := st\<rparr>"

text \<open>The sockets an event keeps alive, and the events that are queued or being handled.\<close>

fun optList :: "'a option \<Rightarrow> 'a list" where
  "optList None = []"
| "optList (Some x) = [x]"

definition evSocks :: "Event \<Rightarrow> sock list" where
  "evSocks e = optList (ev_socket e) @
     (case ev_data e of ED_client c \<Rightarrow> optList (cd_socket c) | ED_registration r \<Rightarrow> optList (reg_socket r)
      | _ \<Rightarrow> [])"

definition runningEvents :: "Event thread_pool \<Rightarrow> Event list" where
  "runningEvents p = concat (map (\<lambda>w. case w of Running e \<Rightarrow> [e] | _ \<Rightarrow> []) (tp_workers p))"

definition heldEvents :: "('w, 'c) lserver \<Rightarrow> Event list" where
  "heldEvents st = q_items (evq (ls_world st)) @ tp_tasks (ls_tasks st) @ runningEvents (ls_tasks st)"

text \<open>
  Every \<open>shared_ptr\<close> to a socket: pending reads, posted handlers and writes in flight, events, sessions.
\<close>

definition sockRefs :: "('w, 'c) process \<Rightarrow> sock list" where
  "sockRefs p =
     c_reading (pr_conns p) @ map po_sock (io_posted (ioOf p) @ io_flight (ioOf p)) @
     concat (map evSocks (heldEvents (pr_server p))) @
     concat (map (\<lambda>(k, d). optList (cd_socket d)) (w_sessions (ls_world (pr_server p))))"

section \<open>Steps\<close>

text \<open>
  What the I/O threads do: \<open>net_step E p es p'\<close> pushes the events \<open>es\<close>. A completion that throws leaves
  its thread and ends the process, so only those that return are steps. An accepted socket is a new
  object at an address no live object has; a read gives at most a buffer; an object to which no
  reference is left dies.
\<close>

inductive net_step ::
  "('w, 'c) senv \<Rightarrow> ('w, 'c) process \<Rightarrow> Event list \<Rightarrow> ('w, 'c) process \<Rightarrow> bool" for E p where
  Listening: "net_step E p [] (setNet (snd (startIOEventLoop threads (netOf p))) p)"
| Accepted: "c_accepting (pr_conns p) \<Longrightarrow> s = io_born (ioOf p) \<Longrightarrow>
     ne_addr (se_net E) s \<notin> ne_addr (se_net E) ` set (io_live (ioOf p)) \<Longrightarrow>
     onAccept (se_net E) s error (netOf p) = (Inr (), t) \<Longrightarrow> net_step E p [] (setNet t p)"
| Read: "s \<in> set (c_reading (pr_conns p)) \<Longrightarrow>
     (case r of ReadData bytes \<Rightarrow> length bytes \<le> kReadChunkBytes | _ \<Rightarrow> True) \<Longrightarrow>
     onRead (se_net E) s r (netOf p) = (Inr (), t) \<Longrightarrow>
     q_items (n_queue (snd t)) = q_items (evq (ls_world (pr_server p))) @ es \<Longrightarrow>
     net_step E p es (setNet t p)"
| HandlerRun: "io_posted (ioOf p) = as @ x # bs \<Longrightarrow> \<forall>y \<in> set as. po_queue y \<noteq> po_queue x \<Longrightarrow>
     net_step E p [] (setIO (runPosted x ((ioOf p)\<lparr>io_posted := as @ bs\<rparr>)) p)"
| Written: "x \<in> set (io_flight (ioOf p)) \<Longrightarrow> net_step E p [] (setIO (writeDone x (ioOf p)) p)"
| WriteFailed: "x \<in> set (io_flight (ioOf p)) \<Longrightarrow> net_step E p [] (setIO (writeFailed x (ioOf p)) p)"
| Died: "s \<notin> set (sockRefs p) \<Longrightarrow> net_step E p [] (setIO (expireSocket s (ioOf p)) p)"

text \<open>The server with handlers in progress, and the connections.\<close>

record ('w, 'c) whole =
  wh_crew :: "('w, 'c) cserver"
  wh_conns :: conns

definition processOf :: "('w, 'c) whole \<Rightarrow> ('w, 'c) process" where
  "processOf x = \<lparr>pr_server = cs_server (wh_crew x), pr_conns = wh_conns x\<rparr>"

definition setProcess :: "('w, 'c) process \<Rightarrow> ('w, 'c) whole \<Rightarrow> ('w, 'c) whole" where
  "setProcess p x = x\<lparr>wh_crew := (wh_crew x)\<lparr>cs_server := pr_server p\<rparr>, wh_conns := pr_conns p\<rparr>"

abbreviation ioAt :: "('w, 'c) whole \<Rightarrow> netio" where
  "ioAt x \<equiv> ioOf (processOf x)"

text \<open>
  \<open>sys E ms k w ps seen x\<close>: from the world \<open>w\<close> with \<open>k\<close> workers the server can get to \<open>x\<close>, the I/O threads
  have pushed \<open>ps\<close> so far, and \<open>seen\<close> is the history of \<open>cserved\<close>.
\<close>

inductive sys ::
  "('w, 'c) senv \<Rightarrow> int \<Rightarrow> nat \<Rightarrow> ('w, 'c) world \<Rightarrow> Event list \<Rightarrow> ('w, 'c) history \<Rightarrow> ('w, 'c) whole \<Rightarrow> bool"
  for E ms k w where
  Built: "sys E ms k w [] [] \<lparr>wh_crew = newConcurrent k w, wh_conns = newConns\<rparr>"
| Started: "sys E ms k w ps seen x \<Longrightarrow>
     sys E ms k w ps seen (x\<lparr>wh_crew := onServer startMainEventLoop (wh_crew x)\<rparr>)"
| Net: "sys E ms k w ps seen x \<Longrightarrow> net_step E (processOf x) es p \<Longrightarrow> sys E ms k w (ps @ es) seen (setProcess p x)"
| Looped: "sys E ms k w ps seen x \<Longrightarrow>
     sys E ms k w ps (seen @ [(Waiting, worldOf (wh_crew x))]) (x\<lparr>wh_crew := loopMove E ms (wh_crew x)\<rparr>)"
| Moved: "sys E ms k w ps seen x \<Longrightarrow> handlerMove E i (wh_crew x) = Some cs \<Longrightarrow>
     sys E ms k w ps (seen @ [(workersOf (wh_crew x) ! i, worldOf (wh_crew x))]) (x\<lparr>wh_crew := cs\<rparr>)"
| Stopped: "sys E ms k w ps seen x \<Longrightarrow> sys E ms k w ps seen (x\<lparr>wh_crew := onServer stopServer (wh_crew x)\<rparr>)"

lemma processOf_sel [simp]:
  "pr_server (processOf x) = cs_server (wh_crew x)" "pr_conns (processOf x) = wh_conns x"
  "processOf (setProcess p x) = p" "wh_crew (setProcess p x) = (wh_crew x)\<lparr>cs_server := pr_server p\<rparr>"
  "wh_conns (setProcess p x) = pr_conns p" "processOf (x\<lparr>wh_crew := cs\<rparr>) = setServer (cs_server cs) (processOf x)"
  by (simp_all add: processOf_def setProcess_def setServer_def)

lemma process_sel [simp]:
  "netOf (setNet t p) = t" "pr_conns (setNet t p) = fst t"
  "ls_tasks (pr_server (setNet t p)) = ls_tasks (pr_server p)"
  "w_net (ls_world (pr_server (setNet t p))) = snd t"
  "w_sessions (ls_world (pr_server (setNet t p))) = w_sessions (ls_world (pr_server p))"
  "pr_server (setServer st p) = st" "pr_conns (setServer st p) = pr_conns p"
  by (simp_all add: netOf_def setNet_def setServer_def)

lemma netOf_sel [simp]: "fst (netOf p) = pr_conns p" "snd (netOf p) = w_net (ls_world (pr_server p))"
  by (simp_all add: netOf_def)

lemma setIO_sel [simp]:
  "pr_conns (setIO io p) = pr_conns p" "ls_tasks (pr_server (setIO io p)) = ls_tasks (pr_server p)"
  "w_net (ls_world (pr_server (setIO io p))) = (w_net (ls_world (pr_server p)))\<lparr>n_io := io\<rparr>"
  "w_sessions (ls_world (pr_server (setIO io p))) = w_sessions (ls_world (pr_server p))"
  by (simp_all add: setIO_def)

section \<open>Sending goes through the protocol of the write queues\<close>

text \<open>
  The write queues are in a state their protocol can reach, everything enqueued is the frame of a
  message within the cap, and the live sockets are those of \<open>L\<close>.
\<close>

definition framed :: "(sock \<times> string) list \<Rightarrow> bool" where
  "framed log \<longleftrightarrow> (\<forall>(s, d) \<in> set log. \<exists>m. length m \<le> kMaxFrameBytes \<and> d = packFramedMessage m)"

definition io_of :: "net_env \<Rightarrow> sock set \<Rightarrow> services \<Rightarrow> bool" where
  "io_of N L n \<longleftrightarrow> (\<exists>log. io_reach (ne_addr N) log (n_io n) \<and> framed log) \<and> set (io_live (n_io n)) = L"

lemma io_of_other [simp]:
  "io_of N L (n\<lparr>n_queue := q\<rparr>) = io_of N L n" "io_of N L (n\<lparr>n_stats := v\<rparr>) = io_of N L n"
  "io_of N L (n\<lparr>n_ticks := t\<rparr>) = io_of N L n"
  by (simp_all add: io_of_def)

lemma io_of_step:
  assumes "io_of N L n" and "io_step (ne_addr N) (n_io n) new io" and "framed new"
  shows "io_of N (set (io_live io)) (n\<lparr>n_io := io\<rparr>)"
proof -
  obtain log where "io_reach (ne_addr N) log (n_io n)" "framed log" using assms(1) by (auto simp: io_of_def)
  then have "io_reach (ne_addr N) (log @ new) io" "framed (log @ new)"
    using assms(2,3) io_reach.Step by (blast, auto simp: framed_def)
  then show ?thesis by (auto simp: io_of_def)
qed

lemma framed_Nil [simp]: "framed []"
  by (simp add: framed_def)

lemma framed_response: "frameResponse line = Some d \<Longrightarrow> framed [(s, d)]"
  using pack_empty_iff [of "stripNewline line"]
  by (auto simp: frameResponse_def framed_def Let_def not_less split: if_splits
      intro!: exI [of _ "stripNewline line"])

lemma enqueueWrite_live [simp]: "io_live (enqueueWrite addr so d n) = io_live n"
  by (auto simp: enqueueWrite_def getOrCreateWriteQueue_def registerQueue_def Let_def split: option.split)

lemma removeWriteQueue_live [simp]: "io_live (removeWriteQueue key so n) = io_live n"
  by (auto simp: removeWriteQueue_def split: option.split)

lemma close_live [simp]: "io_live (closeSocket s n) = io_live n" "io_live (gcWriteQueues n) = io_live n"
  by (simp_all add: closeSocket_def gcWriteQueues_def)

lemma doNextWrite_live [simp]: "io_live (doNextWrite s q n) = io_live n"
  by (auto simp: doNextWrite_def Let_def split: list.split)

lemma executor_live [simp]:
  "io_live (runPosted p n) = io_live n" "io_live (writeDone p n) = io_live n" "io_live (writeFailed p n) = io_live n"
  by (simp_all add: runPosted_def writeDone_def writeFailed_def Let_def)

lemma keeps_io_send: "so \<in> insert None (Some ` L) \<Longrightarrow> keeps (io_of N L) (sendResponse N so line)"
proof (rule keepsI)
  fix n assume so: "so \<in> insert None (Some ` L)" and n: "io_of N L n"
  show "io_of N L (snd (sendResponse N so line n))"
  proof (cases so)
    case None
    then show ?thesis using n by (simp add: sendResponse_null)
  next
    case (Some s)
    then have s: "s \<in> set (io_live (n_io n))" using so n by (auto simp: io_of_def)
    show ?thesis
    proof (cases "frameResponse line")
      case (Some d)
      from io_of_step [OF n Enqueue [OF s] framed_response [OF Some]] show ?thesis
        using n by (simp add: \<open>so = _\<close> Some sendResponse_def) (simp add: io_of_def)
    qed (use n in \<open>simp add: sendResponse_def\<close>)
  qed
qed

lemma keeps_io_tick [intro!, simp]: "keeps (io_of N L) (tick f)"
  by (simp add: keeps_def tick_def)

lemma keeps_io_gen [intro!]: "keeps (io_of N L) (genResponse N st j)" "keeps (io_of N L) (genResponseTs N st j ts)"
  unfolding genResponse_def genResponseTs_def by (auto intro!: keeps_andThen)

lemma keeps_io_error: "s \<in> L \<Longrightarrow> keeps (io_of N L) (sendError N s et msg body)"
  unfolding sendError_def by (auto intro!: keeps_andThen keeps_io_send)

lemma keeps_io_version: "s \<in> L \<Longrightarrow> keeps (io_of N L) (checkClientVersion N v et s)"
  unfolding checkClientVersion_def
  by (auto intro!: keeps_andThen keeps_updS keeps_io_error split: gate.split)

lemma keeps_io_push [intro!]: "keeps (io_of N L) (pushQ e)"
  unfolding pushQ_def by (auto intro!: keeps_updS)

lemma keeps_io_message: "s \<in> L \<Longrightarrow> keeps (io_of N L) (processMessage N s m)"
  unfolding processMessage_def dispatchRequest_def remoteAddress_def Let_def
  by (auto intro!: keeps_tryCatch keeps_andThen keeps_if keeps_io_error keeps_io_version split: option.split)

text \<open>The messages of frames, and that the frames determine them.\<close>

lemma framed_messages:
  "\<forall>d \<in> set ds. \<exists>m. length m \<le> kMaxFrameBytes \<and> d = packFramedMessage m \<Longrightarrow>
     \<exists>ms. ds = map packFramedMessage ms \<and> sendable ms"
proof (induction ds)
  case (Cons d ds)
  then obtain m ms where "d = packFramedMessage m" "length m \<le> kMaxFrameBytes" "ds = map packFramedMessage ms" "sendable ms"
    by auto
  then show ?case by (intro exI [of _ "m # ms"]) simp
qed simp

lemma packAll_unique:
  assumes "sendable xs" and "sendable ys" and "packAll xs = packAll ys"
  shows "xs = ys"
proof -
  obtain zs where zs: "ys = xs @ zs" "[] = packAll zs"
    using packAll_prefix_unique [OF assms(1,2), of "[]"] assms(3) by auto
  then have "zs = []" using assms(2) by (cases zs) (auto simp: pack_empty_iff)
  then show ?thesis using zs by simp
qed

section \<open>What a completion does\<close>

lemma onAccept_result:
  assumes "onAccept N s error (c, n) = (Inr (), t)"
  obtains (failed) "t = (c\<lparr>c_accepting := True\<rparr>, n)"
  | (full) "t = (c\<lparr>c_accepting := True\<rparr>,
      n\<lparr>n_io := closeSocket s (connectSocket s (n_io n)), n_ticks := Suc (n_ticks n)\<rparr>)"
  | (added) "t = (c\<lparr>c_active := List.insert (ne_addr N s) (c_active c), c_reading := s # c_reading c,
        c_accepting := True\<rparr>, n\<lparr>n_io := connectSocket s (n_io n), n_ticks := Suc (n_ticks n)\<rparr>)"
proof (cases error)
  case True
  then show ?thesis
    using assms failed by (auto simp: onAccept_def andThen_def onConns_def startAccept_def)
next
  case False
  then show ?thesis
    using assms full added
    by (cases "ne_peer N s (n_ticks n)")
       (auto simp: onAccept_def andThen_def onConns_def updIO_def onServices_def remoteAddress_def startAccept_def
          startReadingFromClient_def split: if_splits)
qed

text \<open>
  While the completion of a read of \<open>s\<close> is at work: the armed reads are \<open>rd\<close>, what is registered or
  buffered belongs to \<open>s\<close> or to one of them, and the queue \<open>q\<close> has got admissible events of \<open>s\<close>.
\<close>

definition clientKeys :: "conns \<Rightarrow> nat set" where
  "clientKeys c = set (c_active c) \<union> fst ` set (c_buffers c)"

lemma clientKeys_other [simp]:
  "clientKeys (c\<lparr>c_reading := rd\<rparr>) = clientKeys c" "clientKeys (c\<lparr>c_accepting := b\<rparr>) = clientKeys c"
  by (simp_all add: clientKeys_def)

definition reading_inv ::
  "net_env \<Rightarrow> sock set \<Rightarrow> sock list \<Rightarrow> sock \<Rightarrow> Event event_queue \<Rightarrow> net \<Rightarrow> bool" where
  "reading_inv N L rd s q t \<longleftrightarrow>
     io_of N L (snd t) \<and> conns_ok N (fst t) \<and> c_reading (fst t) = rd \<and>
     clientKeys (fst t) \<subseteq> ne_addr N ` insert s (set rd) \<and>
     (\<exists>es. n_queue (snd t) = pushBatch es q \<and> (\<forall>e \<in> set es. admissible N s e))"

lemma pushBatch_snoc: "pushEvent e (pushBatch es q) = pushBatch (es @ [e]) q"
  by (simp add: pushBatch_def)

lemma queuesOne_pushes:
  assumes "queuesOne N s n n'" and "\<exists>es. n_queue n = pushBatch es q \<and> (\<forall>e \<in> set es. admissible N s e)"
  shows "\<exists>es. n_queue n' = pushBatch es q \<and> (\<forall>e \<in> set es. admissible N s e)"
proof -
  obtain es where es: "n_queue n = pushBatch es q" "\<forall>e \<in> set es. admissible N s e" using assms(2) by blast
  from assms(1) consider "n_queue n' = n_queue n" | e where "n_queue n' = pushEvent e (n_queue n)" "admissible N s e"
    by (auto simp: queuesOne_def)
  then show ?thesis
  proof cases
    case (2 e)
    then have "n_queue n' = pushBatch (es @ [e]) q" using es(1) by (simp add: pushBatch_snoc)
    then show ?thesis using es(2) 2(2) by (intro exI [of _ "es @ [e]"]) auto
  qed (use es in auto)
qed

lemma keeps_reading_services:
  assumes "keeps (io_of N L) m" and "\<And>n. queuesOne N s n (snd (m n))"
  shows "keeps (reading_inv N L rd s q) (onServices m)"
  unfolding keeps_def
proof (intro allI impI)
  fix t assume i: "reading_inv N L rd s q t"
  obtain c n where t: "t = (c, n)" by (cases t)
  obtain r n' where m: "m n = (r, n')" by fastforce
  have "queuesOne N s n n'" using assms(2) [of n] m by simp
  then show "reading_inv N L rd s q (snd (onServices m t))"
    using i keepsD [OF assms(1), of n] queuesOne_pushes [of N s n n' q]
    by (auto simp: reading_inv_def t onServices_def m)
qed

lemma keeps_reading_error: "s \<in> L \<Longrightarrow> keeps (reading_inv N L rd s q) (onServices (sendError N s et msg body))"
  by (rule keeps_reading_services) (simp_all add: keeps_io_error queuesOne_same sendError_queue)

lemma keeps_reading_conns:
  assumes "\<And>c. conns_ok N c \<Longrightarrow> conns_ok N (f c)" and "\<And>c. c_reading (f c) = c_reading c"
    and "\<And>c. clientKeys (f c) \<subseteq> insert (ne_addr N s) (clientKeys c)"
  shows "keeps (reading_inv N L rd s q) (onConns f)"
  unfolding keeps_def
proof (intro allI impI)
  fix t assume i: "reading_inv N L rd s q t"
  obtain c n where t: "t = (c, n)" by (cases t)
  have "clientKeys (f c) \<subseteq> ne_addr N ` insert s (set rd)"
    using i by (intro order_trans [OF assms(3)]) (auto simp: reading_inv_def t)
  then show "reading_inv N L rd s q (snd (onConns f t))"
    using i assms(1,2) [of c] by (auto simp: reading_inv_def t onConns_def)
qed

lemma keeps_reading_io:
  "(\<And>io. io_step (ne_addr N) io [] (f io)) \<Longrightarrow> (\<And>io. io_live (f io) = io_live io) \<Longrightarrow>
     keeps (reading_inv N L rd s q) (updIO f)"
  unfolding keeps_def
proof (intro allI impI)
  fix t assume st: "\<And>io. io_step (ne_addr N) io [] (f io)" "\<And>io. io_live (f io) = io_live io"
    and i: "reading_inv N L rd s q t"
  obtain c n where t: "t = (c, n)" by (cases t)
  have "io_of N L (n\<lparr>n_io := f (n_io n)\<rparr>)"
    using i io_of_step [of N L n, OF _ st(1)] st(2) by (auto simp: reading_inv_def t io_of_def)
  then show "reading_inv N L rd s q (snd (updIO f t))"
    using i by (auto simp: reading_inv_def t updIO_def onServices_def)
qed

lemma clientKeys_buffers:
  "clientKeys (c\<lparr>c_buffers := AList.delete k (c_buffers c)\<rparr>) \<subseteq> insert k (clientKeys c)"
  "clientKeys (c\<lparr>c_buffers := AList.update k b (c_buffers c)\<rparr>) \<subseteq> insert k (clientKeys c)"
  "clientKeys (c\<lparr>c_active := removeAll k (c_active c)\<rparr>) \<subseteq> insert k (clientKeys c)"
  using set_delete_sub [of k "c_buffers c"] by (auto simp: clientKeys_def dest!: set_update_cases)

lemmas io_step_quiet = io_step.Close io_step.Unregister

lemma updIO_both: "updIO (\<lambda>io. f (g io)) = andThen (updIO g) (\<lambda>_. updIO f)"
  by (rule ext) (auto simp: updIO_def onServices_def andThen_def)

lemma keeps_reading_reap: "keeps (reading_inv N L rd s q) (reapSocket N (Some s))"
  by (auto simp: reapSocket_def updIO_both intro!: keeps_andThen keeps_reading_conns keeps_reading_io io_step_quiet
      conns_ok_delete conns_ok_remove clientKeys_buffers)

text \<open>Any loop that handles messages one by one.\<close>

lemma keeps_messages:
  assumes "s \<in> L" and "reading_inv N L rd s q (c, n)"
  shows "reading_inv N L rd s q (c, fold (procMsg N s) ms n)"
  using assms(2)
proof (induction ms arbitrary: n)
  case (Cons m ms)
  have "keeps (reading_inv N L rd s q) (onServices (processMessage N s m))"
    using processMessage_result [of N s m] keeps_io_message [OF assms(1)]
    by (intro keeps_reading_services) (metis snd_conv)+
  then have "reading_inv N L rd s q (c, procMsg N s m n)"
    using Cons.prems keepsD [of "reading_inv N L rd s q" "onServices (processMessage N s m)" "(c, n)"]
    by (simp add: onServices_def split_beta)
  then show ?case using Cons.IH by simp
qed simp

lemma keeps_reading_extract:
  assumes s: "s \<in> L"
  shows "keeps (reading_inv N L rd s q) (extractV2Messages N s acc)"
proof (rule keepsI)
  let ?I = "reading_inv N L rd s q"
  fix t assume i: "?I t"
  obtain c n where t: "t = (c, n)" by (cases t)
  obtain r rest n' where x: "extractLoop (procMsg N s) 0 acc n = (r, rest, n')"
    by (cases "extractLoop (procMsg N s) 0 acc n") auto
  have i': "?I (c, n')"
    using extractLoop_conserves [of acc "procMsg N s" 0 n] keeps_messages [OF s] i by (auto simp: x t)
  let ?err = "onServices (sendError N s ''framing'' kErrOversize [])"
  have 1: "?I (snd (andThen ?err (\<lambda>_. reapSocket N (Some s)) (c, n')))"
    by (rule keepsD [where I = ?I]) (use i' s in \<open>auto intro!: keeps_andThen keeps_reading_error keeps_reading_reap\<close>)
  have set: "keeps ?I (onConns (\<lambda>c. c\<lparr>c_buffers := AList.update (ne_addr N s) b (c_buffers c)\<rparr>))"
    if "length b \<le> kMaxAccumulatedBytesV2" for b
    by (intro keeps_reading_conns) (simp_all add: conns_ok_update that clientKeys_buffers)
  have 2: "?I (snd (andThen ?err (\<lambda>_. onConns (\<lambda>c. c\<lparr>c_buffers := AList.update (ne_addr N s) []
        (c_buffers c)\<rparr>)) (c, n')))"
    by (rule keepsD [where I = ?I]) (use i' s set in \<open>auto intro!: keeps_andThen keeps_reading_error\<close>)
  have 3: "?I (c\<lparr>c_buffers := AList.update (ne_addr N s) rest (c_buffers c)\<rparr>, n')"
    if "length rest \<le> kMaxAccumulatedBytesV2"
    using keepsD [where I = ?I, OF set [OF that], of "(c, n')"] i' by (simp add: onConns_def)
  show "?I (snd (extractV2Messages N s acc t))"
    using 1 2 3 i' by (auto simp: t extractV2Messages_def x split: option.split)
qed

lemma keeps_reading_handle: "s \<in> L \<Longrightarrow> keeps (reading_inv N L rd s q) (handleClientData N s buf k)"
proof -
  have take: "keeps (reading_inv N L rd s q) (onConns (\<lambda>c. case found of None \<Rightarrow> c
      | Some b \<Rightarrow> c\<lparr>c_buffers := AList.update (ne_addr N s) [] (c_buffers c)\<rparr>))" for found :: "string option"
    by (cases found) (auto intro!: keeps_reading_conns conns_ok_update clientKeys_buffers)
  show "s \<in> L \<Longrightarrow> ?thesis"
    unfolding handleClientData_def Let_def
    by (intro keeps_andThen keeps_readS take keeps_if keeps_reading_conns keeps_reading_extract keeps_reading_io
        io_step_quiet conns_ok_delete clientKeys_buffers) simp_all
qed

text \<open>
  Between completions: at most one read is armed per socket, only on live ones, and whatever is
  registered or buffered under an address belongs to one of them.
\<close>

definition conn_inv :: "net_env \<Rightarrow> sock set \<Rightarrow> net \<Rightarrow> bool" where
  "conn_inv N L t \<longleftrightarrow>
     io_of N L (snd t) \<and> conns_ok N (fst t) \<and> distinct (c_reading (fst t)) \<and> set (c_reading (fst t)) \<subseteq> L \<and>
     clientKeys (fst t) \<subseteq> ne_addr N ` set (c_reading (fst t))"

lemma reap_keys:
  "reapSocket N (Some s) (c, n) = (Inr (), t) \<Longrightarrow> c_reading (fst t) = c_reading c \<and>
     clientKeys (fst t) = clientKeys c - {ne_addr N s}"
  by (auto simp: reapSocket_def onConns_def updIO_def onServices_def andThen_def clientKeys_def AList.delete_eq)

lemma onRead_inv:
  assumes inv: "conn_inv N L (c, n)" and s: "s \<in> set (c_reading c)" and r: "onRead N s r (c, n) = (Inr (), t)"
  shows "conn_inv N L t" and "\<exists>es. n_queue (snd t) = pushBatch es (n_queue n) \<and> (\<forall>e \<in> set es. admissible N s e)"
proof -
  let ?rd = "removeAll s (c_reading c)" and ?c = "c\<lparr>c_reading := removeAll s (c_reading c)\<rparr>"
  let ?I = "reading_inv N L ?rd s (n_queue n)"
  have sL: "s \<in> L" and rd: "set ?rd \<subseteq> L" "distinct ?rd" "s \<notin> set ?rd"
    using inv s by (auto simp: conn_inv_def distinct_removeAll)
  have i: "?I (?c, n)"
    using inv by (auto simp: conn_inv_def reading_inv_def pushBatch_def intro!: exI [of _ "[]"])
  have "conn_inv N L t \<and> (\<exists>es. n_queue (snd t) = pushBatch es (n_queue n) \<and> (\<forall>e \<in> set es. admissible N s e))"
  proof (cases "\<exists>bytes. r = ReadData bytes")
    case True
    then obtain bytes where bytes: "r = ReadData bytes" by blast
    obtain q1 c1 n1 where h: "handleClientData N s bytes (length bytes) (?c, n) = (q1, (c1, n1))"
      by (metis prod.exhaust)
    have "?I (c1, n1)"
      using keepsD [where I = ?I, OF keeps_reading_handle [OF sL] i, of bytes "length bytes"] unfolding h by simp
    moreover have "t = (c1\<lparr>c_reading := s # c_reading c1\<rparr>, n1)"
      using r h by (cases q1) (auto simp: onRead_def bytes onConns_def andThen_def startReadingFromClient_def)
    ultimately show ?thesis using rd sL by (auto simp: reading_inv_def conn_inv_def)
  next
    case False
    then have p: "reapSocket N (Some s) (?c, n) = (Inr (), t)"
      using r by (cases r) (simp_all add: onRead_def onConns_def)
    have "?I t" using keepsD [where I = ?I, OF keeps_reading_reap i] p by simp
    then show ?thesis using rd reap_keys [OF p] by (auto simp: reading_inv_def conn_inv_def)
  qed
  then show "conn_inv N L t"
    and "\<exists>es. n_queue (snd t) = pushBatch es (n_queue n) \<and> (\<forall>e \<in> set es. admissible N s e)" by blast+
qed

section \<open>What a handler does\<close>

text \<open>
  The sessions in memory are filed under their own ids, without passwords and without sockets, and the
  answers go through the write queues of live sockets.
\<close>

definition sound :: "net_env \<Rightarrow> sock set \<Rightarrow> ('w, 'c) world \<Rightarrow> bool" where
  "sound N L s \<longleftrightarrow> io_of N L (w_net s) \<and> sessions_ok (w_sessions s) \<and> no_sockets (w_sessions s)"

lemma sound_other [simp]:
  "sound N L (s\<lparr>w_pool := p\<rparr>) = sound N L s" "sound N L (s\<lparr>w_out := x\<rparr>) = sound N L s"
  by (simp_all add: sound_def)

lemma sound_releaseW [simp]: "sound N L (releaseW k s) = sound N L s"
  by (simp add: releaseW_def)

lemma keeps_sound_net: "keeps (io_of N L) m \<Longrightarrow> keeps (sound N L) (onNet m)"
  by (auto simp: keeps_def onNet_def sound_def split_beta)

lemma keeps_sound_onOut [intro!, simp]: "keeps (sound N L) (onOut m)"
  by (auto simp: keeps_def onOut_def split: prod.split)

lemma keeps_sound_out [intro!, simp]:
  "keeps (sound N L) (exec_prepared E c q)" "keeps (sound N L) (commitT E c)"
  "keeps (sound N L) (abortT E c)" "keeps (sound N L) (acquireW E)" "keeps (sound N L) (tickW g)"
  unfolding exec_prepared_def commitT_def abortT_def tickW_def
  by (auto intro!: keeps_sound_net) (auto simp: keeps_def acquireW_def split: prod.split)

lemma keeps_sound_sessions:
  "(\<And>m. sessions_ok m \<Longrightarrow> no_sockets m \<Longrightarrow> sessions_ok (f m) \<and> no_sockets (f m)) \<Longrightarrow>
     keeps (sound N L) (onSessions f)"
  by (auto simp: onSessions_def sound_def intro!: keeps_updS)

lemma keeps_sound_work: "keeps (sound N L) body \<Longrightarrow> keeps (sound N L) (withWork E c body)"
  unfolding withWork_def by (auto intro!: keeps_andThen keeps_scopeExit)

lemmas sound_intros = keeps_andThen keeps_tryCatch keeps_sound_work keeps_mapE keeps_if

lemma keeps_sound_segment: "keeps (sound N L) m \<Longrightarrow> keeps (sound N L) (segment E c m)"
  unfolding segment_def by (intro keeps_andThen keeps_sound_onOut keeps_onError) (simp_all add: closeW_def)

lemma keeps_sound_services [intro!]:
  "keeps (sound N L) (loginPhase E c login pw ip ver)" "keeps (sound N L) (rotateTokens E c u hash ver)"
  "keeps (sound N L) (insertAccount E c login pw email ip ver)" "keeps (sound N L) (readOptions E c)"
  "keeps (sound N L) (checkBan E c u)" "keeps (sound N L) (checkLogin E c login)"
  "keeps (sound N L) (hashPasswordW E pw)"
  "keeps (sound N L) (getCharactersList E c a)" "keeps (sound N L) (getCharacterEquipmentPreview E c i)"
  "keeps (sound N L) (createCharacter E c o' nm cls race gender)" "keeps (sound N L) (deleteCharacter E c o' i)"
proof -
  show "keeps (sound N L) (loginPhase E c login pw ip ver)" "keeps (sound N L) (rotateTokens E c u hash ver)"
    "keeps (sound N L) (insertAccount E c login pw email ip ver)" "keeps (sound N L) (readOptions E c)"
    "keeps (sound N L) (checkBan E c u)" "keeps (sound N L) (checkLogin E c login)"
    "keeps (sound N L) (hashPasswordW E pw)"
    unfolding loginPhase_def rotateTokens_def insertAccount_def readOptions_def checkBan_def checkLogin_def
      probeStatus_def hashPasswordW_def
    by (auto simp: Let_def intro!: sound_intros split: option.split)
  show "keeps (sound N L) (getCharactersList E c a)" "keeps (sound N L) (getCharacterEquipmentPreview E c i)"
    "keeps (sound N L) (createCharacter E c o' nm cls race gender)" "keeps (sound N L) (deleteCharacter E c o' i)"
    unfolding getCharactersList_def getCharacterEquipmentPreview_def createCharacter_def
      insertCharacterRow_def initCharacter_def execIf_def deleteCharacter_def
    by (auto intro!: sound_intros split: prod.split option.split)
qed

text \<open>An answer goes to no socket or to one of \<open>L\<close>.\<close>

abbreviation among :: "sock set \<Rightarrow> sock option set" where
  "among L \<equiv> insert None (Some ` L)"

lemma keeps_sound_send: "so \<in> among L \<Longrightarrow> keeps (sound N L) (onNet (sendResponse N so line))"
  by (intro keeps_sound_net keeps_io_send)

lemma keeps_sound_gen [intro!]: "keeps (sound N L) (onNet (genResponse N st j))"
  by (intro keeps_sound_net keeps_io_gen)

text \<open>
  The handler of a worker that runs \<open>v\<close> is sound while the sockets of its event live: the invariant of
  its moves, whatever the others connect, close and let die in between.
\<close>

definition workerSocks :: "Event worker \<Rightarrow> sock set" where
  "workerSocks v = (case v of Running ev \<Rightarrow> set (evSocks ev) | _ \<Rightarrow> {})"

definition soundFor :: "('w, 'c) senv \<Rightarrow> sock set \<Rightarrow> sock set \<Rightarrow> nat list \<Rightarrow> ('w, 'c) world \<Rightarrow> bool" where
  "soundFor E S L h s \<longleftrightarrow> S \<subseteq> L \<and> sound (se_net E) L s"

lemma sound_atom: "(\<And>L. S \<subseteq> L \<Longrightarrow> keeps (sound (se_net E) L) m) \<Longrightarrow> steadyT (soundFor E S) h (atomT m)"
  by (intro steady_atom) (auto simp: soundFor_def keeps_def)

lemma sound_send: "so \<in> among S \<Longrightarrow> steadyT (soundFor E S) h (atomT (onNet (sendResponse (se_net E) so line)))"
  by (rule sound_atom, rule keeps_sound_send) blast

lemma sound_respondT: "so \<in> among S \<Longrightarrow> steadyT (soundFor E S) h (respondT E so st b)"
  unfolding respondT_def by (intro steady_then sound_send sound_atom keeps_sound_gen)

lemma sound_work:
  "(\<And>L. keeps (sound (se_net E) L) m) \<Longrightarrow> (\<And>x. steadyT (soundFor E S) h (f x)) \<Longrightarrow>
     steadyT (soundFor E S) h (workT E c m f)"
  unfolding workT_def
  by (intro steady_then steady_finally sound_atom keeps_sound_segment) (simp_all add: soundFor_def closeW_def)

lemma sound_guard: "(\<And>k. steadyT (soundFor E S) h (body k)) \<Longrightarrow> steadyT (soundFor E S) h (guardT E body)"
  unfolding guardT_def by (intro steady_then steady_finally sound_atom keeps_sound_out) (simp_all add: soundFor_def)

lemma sound_wrappers:
  "steadyT (soundFor E S) h t \<Longrightarrow> steadyT (soundFor E S) h (catchVariantT t)"
  "(\<And>d. ev_data ev = ED_client d \<Longrightarrow> steadyT (soundFor E S) h (f d)) \<Longrightarrow> steadyT (soundFor E S) h (withClientT ev f)"
  by (auto simp: catchVariantT_def withClientT_def intro!: steady_catch split: EventData.split)

lemma sound_sessionGuardT:
  "cd_socket d \<in> among S \<Longrightarrow> steadyT (soundFor E S) h t \<Longrightarrow> steadyT (soundFor E S) h (sessionGuardT E et u d t)"
  unfolding sessionGuardT_def by (auto intro!: steady_then sound_atom sound_respondT)

lemma sound_storeT: "cd_socket d = None \<Longrightarrow> steadyT (soundFor E S) h (storeSessionT E d)"
  unfolding storeSessionT_def
  by (intro steady_then sound_atom keeps_sound_out keeps_sound_sessions)
     (use runOp_sessions_ok [where op = "OpStore t d" for t] in \<open>auto simp: no_sockets_store\<close>)

text \<open>No session has a socket, so the broadcast of a disconnect is sent to none.\<close>

lemma sound_broadcastT: "steadyT (soundFor E S) h (broadcastT E line)"
  unfolding broadcastT_def
proof (rule safe_then [where Q = "\<lambda>r h'. h' = h \<and> (\<forall>m. r = Inr m \<longrightarrow> no_sockets m)"])
  show "safeT (soundFor E S) (\<lambda>r h'. h' = h \<and> (\<forall>m. r = Inr m \<longrightarrow> no_sockets m)) h
      (atomT (readS (\<lambda>w. getClientsDataMap (w_sessions w))))"
    by (rule safe_atom) (auto simp: readS_def soundFor_def sound_def getClientsDataMap_def)
  fix m h' assume m: "h' = h \<and> (\<forall>m'. (Inr m :: exn + _) = Inr m' \<longrightarrow> no_sockets m')"
  then have "no_sockets m" by simp
  then have "steadyT (soundFor E S) h (forEachT m (\<lambda>(i, client). atomT (onNet (sendResponse (se_net E) (cd_socket client) line))))"
    by (induction m) (auto simp: no_sockets_def intro!: steady_then sound_send)
  then show "safeT (soundFor E S) (\<lambda>r h'. h' = h) h' (forEachT m (\<lambda>(i, client).
      atomT (onNet (sendResponse (se_net E) (cd_socket client) line))))" using m by simp
qed auto

lemma keeps_sound_remove: "keeps (sound N L) (onSessions (\<lambda>m. snd (removeClientData i m)))"
  using runOp_sessions_ok [where op = "OpRemove i"] by (auto intro!: keeps_sound_sessions no_sockets_remove)

lemma keeps_sound_touch: "keeps (sound N L) (onSessions (\<lambda>m. snd (touchSession t i now m)))"
  using runOp_sessions_ok [where op = "OpTouch t i now"] by (auto intro!: keeps_sound_sessions no_sockets_touch)

lemmas sound_threads = steady_intros sound_atom sound_send sound_respondT sound_work sound_guard sound_wrappers
  sound_sessionGuardT sound_storeT sound_broadcastT keeps_sound_remove keeps_sound_touch keeps_andThen keeps_mapE
  keeps_sound_net keeps_io_gen

lemma sound_services_threads:
  "steadyT (soundFor E S) h (authenticateT E c login pw ip ver)"
  "steadyT (soundFor E S) h (registerAccountT E c login pw email ip ver u hash)"
  unfolding authenticateT_def admitUserT_def openSessionT_def registerAccountT_def createAccountT_def
  by (auto simp: Let_def newClient_def intro!: sound_threads split: sum.split option.split)

lemma task_sound: "steadyT (soundFor E (set (evSocks ev))) h (taskT E ev)"
proof -
  let ?S = "set (evSocks ev)"
  have client: "cd_socket d = None" if "ev_data ev = ED_client d" "cd_socket d \<notin> Some ` ?S" for d
    using that by (cases "cd_socket d") (auto simp: evSocks_def)
  have ip: "steadyT (soundFor E ?S) h (clientIpT E so)" for h so
    by (auto simp: clientIpT_def intro!: sound_threads split: option.split)
  have "steadyT (soundFor E ?S) h (pingT E ev)"
    by (auto simp: pingT_def intro!: sound_threads client split: option.split)
  moreover have "steadyT (soundFor E ?S) h (disconnectT E ev)"
    by (auto simp: disconnectT_def intro!: sound_threads client)
  moreover have "steadyT (soundFor E ?S) h (registerT E ev)"
    by (auto simp: registerT_def registerClientT_def evSocks_def intro!: sound_threads sound_services_threads
        split: EventData.split)
  moreover have "steadyT (soundFor E ?S) h (optionsT E ev)"
    by (auto simp: optionsT_def creationOptionsT_def intro!: sound_threads client)
  moreover have "steadyT (soundFor E ?S) h (createT E ev)" "steadyT (soundFor E ?S) h (deleteT E ev)"
    by (auto simp: createT_def deleteT_def Let_def intro!: sound_threads client)
  moreover have "steadyT (soundFor E ?S) h (listT E ev)"
    by (auto simp: listT_def listCharactersT_def characterJsonT_def intro!: sound_threads client split: option.split)
  moreover have "steadyT (soundFor E ?S) h (loginT E ev)"
    by (auto simp: loginT_def authenticateClientT_def soundFor_def
        intro!: sound_threads sound_services_threads steady_finally ip client split: option.split)
  ultimately show ?thesis
    unfolding taskT_def by (intro steady_catch) (auto simp: dispatchT_def split: EventType.split)
qed

lemma cleanup_sound: "steadyT (soundFor E {}) h (cleanupT E ms)"
proof -
  have gc: "keeps (io_of (se_net E) L) (updS (\<lambda>n. n\<lparr>n_io := gcWriteQueues (n_io n)\<rparr>))" for L
    using io_of_step [OF _ Collect framed_Nil] by (fastforce simp: io_of_def intro!: keeps_updS)
  have sweep: "keeps (sound (se_net E) L) (onSessions (\<lambda>m. snd (sweepExpiredSessions t ttl m)))" for t ttl L
    using runOp_sessions_ok [where op = "OpSweep t ttl"]
    by (intro keeps_sound_sessions) (auto simp: sweepExpiredSessions_def sweepLoop_eq no_sockets_def)
  show ?thesis
    by (auto simp: cleanupT_def intro!: sound_threads sweep gc)
qed

section \<open>The invariant of the whole server\<close>

definition sys_inv :: "('w, 'c) senv \<Rightarrow> ('w, 'c) process \<Rightarrow> bool" where
  "sys_inv E p \<longleftrightarrow>
     (let L = set (io_live (ioOf p)) in
      conn_inv (se_net E) L (netOf p) \<and> sound (se_net E) L (ls_world (pr_server p)) \<and>
      (\<forall>e \<in> set (heldEvents (pr_server p)). set (evSocks e) \<subseteq> L))"

lemma conn_inv_services: "conn_inv N L (c, n) \<Longrightarrow> io_of N L n' \<Longrightarrow> conn_inv N L (c, n')"
  by (simp add: conn_inv_def)

lemma sound_set_net: "sound N L s \<Longrightarrow> io_of N L' n \<Longrightarrow> sound N L' (s\<lparr>w_net := n\<rparr>)"
  by (simp add: sound_def)

lemma sound_io: "sound N L s \<Longrightarrow> io_of N L (w_net s)"
  by (simp add: sound_def)

lemma admissible_socks: "admissible N s e \<Longrightarrow> set (evSocks e) \<subseteq> {s}"
  by (auto simp: admissible_def evSocks_def Let_def split: EventData.splits EventType.splits)

lemma held_batch:
  assumes "es @ q_items q = q_items (evq (ls_world st))"
  shows "set (heldEvents (st\<lparr>ls_world := setQueueW q (ls_world st), ls_tasks := processBatch es (ls_tasks st)\<rparr>))
    \<subseteq> set (heldEvents st)"
proof -
  have add: "set (tp_tasks (fold safeEnqueue es p)) \<subseteq> set es \<union> set (tp_tasks p)" for es p
  proof (induction es arbitrary: p)
    case (Cons e es)
    have "set (tp_tasks (safeEnqueue e p)) \<subseteq> insert e (set (tp_tasks p))"
      by (auto simp: safeEnqueue_def enqueueFuture_def)
    then show ?case using Cons [of "safeEnqueue e p"] by auto
  qed simp
  have "set (q_items (evq (ls_world st))) = set es \<union> set (q_items q)" using assms by (metis set_append)
  then show ?thesis
    using add [of es "ls_tasks st"] processBatch_workers [of es "ls_tasks st"]
    by (auto simp: heldEvents_def processBatch_def runningEvents_def)
qed

lemma running_iff: "e \<in> set (runningEvents p) \<longleftrightarrow> Running e \<in> set (tp_workers p)"
  by (force simp: runningEvents_def split: worker.splits)

lemma held_step:
  assumes step: "workerStep i p = Some p'" and e: "e \<in> set (tp_tasks p') \<or> Running e \<in> set (tp_workers p')"
  shows "e \<in> set (tp_tasks p) \<or> Running e \<in> set (tp_workers p)"
proof -
  have upd: "Running e \<in> set ((tp_workers p)[i := x]) \<Longrightarrow> x = Running e \<or> Running e \<in> set (tp_workers p)" for x
    using set_update_subset_insert [of "tp_workers p" i x] by auto
  consider x where "p' = p\<lparr>tp_workers := (tp_workers p)[i := Returned]\<rparr>"
    | t rest where "tp_tasks p = t # rest" "p' = p\<lparr>tp_tasks := rest, tp_workers := (tp_workers p)[i := Running t],
        tp_started := tp_started p @ [t]\<rparr>"
    | t where "p' = p\<lparr>tp_workers := (tp_workers p)[i := Waiting], tp_finished := tp_finished p @ [t]\<rparr>"
    using step by (auto simp: workerStep_def split: if_splits worker.splits list.splits)
  then show ?thesis using e upd by cases auto
qed

text \<open>Each kind of step keeps the invariant.\<close>

lemma held_member:
  "e \<in> set (heldEvents st) \<longleftrightarrow>
     e \<in> set (q_items (evq (ls_world st))) \<or> e \<in> set (tp_tasks (ls_tasks st)) \<or> Running e \<in> set (tp_workers (ls_tasks st))"
  by (auto simp: heldEvents_def running_iff)

lemma held_ball:
  "(\<forall>e \<in> set (heldEvents st). P e) \<longleftrightarrow>
     (\<forall>e \<in> set (q_items (evq (ls_world st))). P e) \<and> (\<forall>e \<in> set (tp_tasks (ls_tasks st)). P e) \<and>
     (\<forall>e. Running e \<in> set (tp_workers (ls_tasks st)) \<longrightarrow> P e)"
  by (auto simp: held_member)

lemma inv_server:
  assumes inv: "sys_inv E p" and w: "sound (se_net E) (set (io_live (ioOf p))) (ls_world st)"
    and held: "set (heldEvents st) \<subseteq> set (heldEvents (pr_server p))"
  shows "sys_inv E (setServer st p)"
proof -
  have "set (io_live (n_io (w_net (ls_world st)))) = set (io_live (ioOf p))" using w by (simp add: sound_def io_of_def)
  then show ?thesis
    using inv w held conn_inv_services [OF _ sound_io [OF w], of "pr_conns p" "snd (netOf p)"]
    by (auto simp: sys_inv_def Let_def netOf_def setServer_def)
qed

lemma inv_io:
  assumes inv: "sys_inv E p" and st: "io_step (ne_addr (se_net E)) (ioOf p) [] io"
    and live: "set (c_reading (pr_conns p)) \<union> \<Union> (set ` evSocks ` set (heldEvents (pr_server p))) \<subseteq> set (io_live io)"
  shows "sys_inv E (setIO io p)"
proof -
  let ?n = "(snd (netOf p))\<lparr>n_io := io\<rparr>"
  have i: "io_of (se_net E) (set (io_live io)) ?n"
    using inv io_of_step [OF _ st] by (auto simp: sys_inv_def Let_def sound_def)
  have held: "heldEvents (pr_server (setIO io p)) = heldEvents (pr_server p)"
    by (simp add: heldEvents_def)
  have "sound (se_net E) (set (io_live io)) (ls_world (pr_server (setIO io p)))"
    using inv i by (auto simp: sys_inv_def Let_def sound_def)
  then show ?thesis
    using inv i live held by (auto simp: sys_inv_def Let_def conn_inv_def)
qed

lemma inv_same_live:
  assumes "sys_inv E p" and "io_step (ne_addr (se_net E)) (ioOf p) [] io" and "io_live io = io_live (ioOf p)"
  shows "sys_inv E (setIO io p)"
  using assms(1) unfolding assms(3) [symmetric]
  by (intro inv_io [OF assms(1,2)]) (auto simp: sys_inv_def Let_def conn_inv_def assms(3))

lemma inv_died:
  assumes inv: "sys_inv E p" and s: "s \<notin> set (sockRefs p)"
  shows "sys_inv E (setIO (expireSocket s (ioOf p)) p)"
proof (rule inv_io [OF inv io_step.Expire])
  show "\<forall>x \<in> set (io_posted (ioOf p)) \<union> set (io_flight (ioOf p)). po_sock x \<noteq> s"
    using s by (auto simp: sockRefs_def)
  show "set (c_reading (pr_conns p)) \<union> \<Union> (set ` evSocks ` set (heldEvents (pr_server p)))
      \<subseteq> set (io_live (expireSocket s (ioOf p)))"
    using inv s by (auto simp: sys_inv_def Let_def conn_inv_def sockRefs_def expireSocket_def)
qed

lemma inv_accept:
  assumes inv: "sys_inv E p" and s: "s = io_born (ioOf p)"
    and fresh: "ne_addr (se_net E) s \<notin> ne_addr (se_net E) ` set (io_live (ioOf p))"
    and acc: "onAccept (se_net E) s error (netOf p) = (Inr (), t)"
  shows "sys_inv E (setNet t p) \<and> n_queue (snd t) = n_queue (snd (netOf p))"
proof -
  let ?N = "se_net E" and ?n = "snd (netOf p)" and ?L = "set (io_live (ioOf p))"
  have c: "conn_inv ?N ?L (netOf p)" and w: "sound ?N ?L (ls_world (pr_server p))"
    and e: "\<forall>e \<in> set (heldEvents (pr_server p)). set (evSocks e) \<subseteq> ?L"
    using inv by (simp_all add: sys_inv_def Let_def)
  have conn: "io_step (ne_addr ?N) (ioOf p) [] (connectSocket s (ioOf p))"
    by (rule io_step.Connect [OF s]) (metis fresh imageI)
  let ?m = "?n\<lparr>n_io := connectSocket s (ioOf p)\<rparr>"
  have live: "set (io_live (connectSocket s io)) = insert s (set (io_live io))" for io
    by (simp add: connectSocket_def)
  have i: "io_of ?N (insert s ?L) ?m"
    using io_of_step [OF sound_io [OF w] conn [unfolded netOf_sel]] live by simp
  have i2: "io_of ?N (insert s ?L) (?n\<lparr>n_io := closeSocket s (connectSocket s (ioOf p))\<rparr>)"
    using io_of_step [OF i io_step.Close] live by simp
  have sL: "s \<notin> ?L" using fresh by blast
  have e': "\<forall>e \<in> set (heldEvents (pr_server (setNet t p))). set (evSocks e) \<subseteq> insert s ?L"
    if "n_queue (snd t) = n_queue ?n"
    using e that by (auto simp: held_member)
  have "onAccept ?N s error (pr_conns p, ?n) = (Inr (), t)" using acc by (simp add: netOf_def)
  then show ?thesis
  proof (cases rule: onAccept_result)
    case failed
    then show ?thesis using inv by (auto simp: sys_inv_def Let_def conn_inv_def sound_def held_member)
  next
    case full
    then show ?thesis
      using c w e' i2 live
      by (auto simp: sys_inv_def Let_def conn_inv_def sound_def)
  next
    case added
    have "conns_ok ?N (fst t)"
      using keepsI onAccept_ok [of ?N "netOf p" s error] c acc by (simp add: conn_inv_def)
    then show ?thesis
      using c w e' i live sL
      by (auto simp: added sys_inv_def Let_def conn_inv_def sound_def clientKeys_def)
  qed
qed

lemma inv_read:
  assumes inv: "sys_inv E p" and s: "s \<in> set (c_reading (pr_conns p))"
    and r: "onRead (se_net E) s r (netOf p) = (Inr (), t)"
    and es: "q_items (n_queue (snd t)) = q_items (evq (ls_world (pr_server p))) @ es"
  shows "sys_inv E (setNet t p) \<and> n_queue (snd t) = pushBatch es (evq (ls_world (pr_server p))) \<and>
    (\<forall>e \<in> set es. admissible (se_net E) s e)"
proof -
  let ?N = "se_net E" and ?L = "set (io_live (ioOf p))"
  have c: "conn_inv ?N ?L (pr_conns p, snd (netOf p))" and w: "sound ?N ?L (ls_world (pr_server p))"
    and e: "\<forall>e \<in> set (heldEvents (pr_server p)). set (evSocks e) \<subseteq> ?L"
    using inv by (simp_all add: sys_inv_def Let_def netOf_def)
  have sL: "s \<in> ?L" using c s by (auto simp: conn_inv_def)
  have r': "onRead ?N s r (pr_conns p, snd (netOf p)) = (Inr (), t)" using r by (simp add: netOf_def)
  obtain es' where es': "n_queue (snd t) = pushBatch es' (n_queue (snd (netOf p)))"
    "\<forall>e \<in> set es'. admissible ?N s e" using onRead_inv(2) [OF c s r'] by blast
  have eq: "es' = es" using es es'(1) by (simp add: pushBatch_items)
  have t: "conn_inv ?N ?L t" by (rule onRead_inv(1) [OF c s r'])
  then have live: "set (io_live (n_io (snd t))) = ?L" by (simp add: conn_inv_def io_of_def)
  have "set (evSocks e) \<subseteq> ?L" if "e \<in> set es" for e
    using admissible_socks [of ?N s e] es'(2) that sL eq by auto
  then have "\<forall>e \<in> set (heldEvents (pr_server (setNet t p))). set (evSocks e) \<subseteq> ?L"
    using e es by (auto simp: held_ball)
  moreover have "sound ?N ?L (ls_world (pr_server (setNet t p)))"
    using w t by (auto simp: sound_def conn_inv_def)
  ultimately show ?thesis using t es' eq live by (simp add: sys_inv_def Let_def)
qed

lemma net_keeps:
  assumes inv: "sys_inv E p" and st: "net_step E p es p'"
  shows "sys_inv E p' \<and> (\<forall>e \<in> set es. \<exists>s. admissible (se_net E) s e) \<and>
    (\<exists>n. pr_server p' = (pr_server p)\<lparr>ls_world := (ls_world (pr_server p))\<lparr>w_net := n\<rparr>\<rparr> \<and>
       n_queue n = pushBatch es (evq (ls_world (pr_server p))))"
  using st
proof (cases rule: net_step.cases)
  case (Listening threads)
  have "sys_inv E p'"
    using inv unfolding Listening
    by (simp add: startIOEventLoop_def startAccept_def onConns_def netOf_def)
      (auto simp: sys_inv_def Let_def conn_inv_def sound_def held_member)
  then show ?thesis
    using Listening
    by (auto simp: startIOEventLoop_def startAccept_def onConns_def netOf_def setNet_def pushBatch_def
        intro!: exI [of _ "w_net (ls_world (pr_server p))"])
next
  case (Accepted s error t)
  then show ?thesis using inv_accept [OF inv Accepted(4,5,6)] by (auto simp: setNet_def pushBatch_def)
next
  case (Read s r t)
  then show ?thesis using inv_read [OF inv Read(2,4,5)] by (auto simp: setNet_def)
next
  case (HandlerRun as x bs)
  then show ?thesis
    using inv_same_live [OF inv io_step.RunHandler [OF HandlerRun(3,4)]]
    by (auto simp: setIO_def setNet_def pushBatch_def)
next
  case (Written x)
  then show ?thesis
    using inv_same_live [OF inv io_step.WriteOk [OF Written(3)]] by (auto simp: setIO_def setNet_def pushBatch_def)
next
  case (WriteFailed x)
  then show ?thesis
    using inv_same_live [OF inv io_step.WriteError [OF WriteFailed(3)]] by (auto simp: setIO_def setNet_def pushBatch_def)
next
  case (Died s)
  then show ?thesis using inv_died [OF inv Died(3)] by (auto simp: setIO_def setNet_def pushBatch_def)
qed

text \<open>Every handler in progress is sound for the sockets of its event, and so is the clean-up.\<close>

definition soundT :: "('w, 'c) senv \<Rightarrow> sock set \<Rightarrow> ('w, 'c) routine \<Rightarrow> bool" where
  "soundT E S t \<longleftrightarrow> (\<exists>h. safeT (soundFor E S) (\<lambda>r h. h = []) h t)"

definition at_work :: "('w, 'c) senv \<Rightarrow> ('w, 'c) cserver \<Rightarrow> bool" where
  "at_work E cs \<longleftrightarrow> length (cs_handlers cs) = length (workersOf cs) \<and> soundT E {} (cs_cleanup cs) \<and>
     (\<forall>i < length (workersOf cs). soundT E (workerSocks (workersOf cs ! i)) (cs_handlers cs ! i))"

lemma soundT_move:
  assumes "soundT E S t" and "moveT t s = Some (t', s')" and "S \<subseteq> L" and "sound (se_net E) L s"
  shows "sound (se_net E) L s' \<and> soundT E S t'"
proof -
  obtain h where h: "safeT (soundFor E S) (\<lambda>r h. h = []) h t" using assms(1) by (auto simp: soundT_def)
  have "soundFor E S L (h @ []) s" using assms(3,4) by (simp add: soundFor_def)
  from safeT_move [OF h assms(2) this] obtain h' where "soundFor E S L (h' @ []) s'"
    "safeT (soundFor E S) (\<lambda>r h. h = []) h' t'" by blast
  then show ?thesis by (auto simp: soundT_def) (simp add: soundFor_def)
qed

lemma soundT_starts: "soundT E S (retT ())" "soundT E (workerSocks v) (handlerOf E v)" "soundT E {} (cleanupT E ms)"
proof -
  show none: "soundT E S (retT ())" for S by (auto simp: soundT_def retT_def)
  show "soundT E (workerSocks v) (handlerOf E v)"
    using task_sound [of E _ "[]"] none
    by (auto simp: soundT_def handlerOf_def workerSocks_def split: worker.split)
  show "soundT E {} (cleanupT E ms)" using cleanup_sound [of E "[]"] by (auto simp: soundT_def)
qed

lemma move_keeps:
  assumes r: "cserved E ms k w ps seen cs" and inv: "sys_inv E p" "at_work E cs" and p: "pr_server p = cs_server cs"
    and m: "handlerMove E i cs = Some cs'"
  shows "sys_inv E (setServer (cs_server cs') p) \<and> at_work E cs'"
  using m
proof (cases rule: handlerMove_cases)
  case (inside t s)
  let ?L = "set (io_live (ioOf p))"
  have w: "sound (se_net E) ?L (worldOf cs)" and e: "\<forall>e \<in> set (heldEvents (cs_server cs)). set (evSocks e) \<subseteq> ?L"
    using inv(1) by (simp_all add: sys_inv_def Let_def p)
  have "Running ev \<in> set (workersOf cs)" if "workersOf cs ! i = Running ev" for ev
    using that inside(3) by (metis nth_mem)
  then have socks: "workerSocks (workersOf cs ! i) \<subseteq> ?L"
    using e by (auto simp: workerSocks_def held_ball split: worker.splits)
  have "soundT E (workerSocks (workersOf cs ! i)) (cs_handlers cs ! i)" using inv(2) inside(3) by (simp add: at_work_def)
  from soundT_move [OF this inside(1) socks w]
  have s: "sound (se_net E) ?L s" "soundT E (workerSocks (workersOf cs ! i)) t" by simp_all
  have "sys_inv E (setServer (cs_server cs') p)"
    by (rule inv_server [OF inv(1)]) (use s(1) inside(2) inside_queue(2) [OF r inside(1,3)] p in \<open>simp_all add: heldEvents_def\<close>)
  moreover have "at_work E cs'"
    using inv(2) s(2) inside(2,3) by (auto simp: at_work_def nth_list_update)
  ultimately show ?thesis by blast
next
  case (border q)
  note v = workerStep_workers [OF border(1)]
  have "sys_inv E (setServer (cs_server cs') p)"
  proof (rule inv_server [OF inv(1)])
    show "sound (se_net E) (set (io_live (ioOf p))) (ls_world (cs_server cs'))"
      using inv(1) border(3) by (simp add: sys_inv_def Let_def p)
    show "set (heldEvents (cs_server cs')) \<subseteq> set (heldEvents (pr_server p))"
      unfolding subset_iff held_member using held_step [OF border(1)] border(3) p by auto
  qed
  moreover have "at_work E cs'"
    using inv(2) border(3) v soundT_starts(2) by (auto simp: at_work_def nth_list_update)
  ultimately show ?thesis by blast
qed

lemma loop_keeps:
  assumes r: "cserved E ms k w ps seen cs" and inv: "sys_inv E p" "at_work E cs" and p: "pr_server p = cs_server cs"
  shows "sys_inv E (setServer (cs_server (loopMove E ms cs)) p) \<and> at_work E (loopMove E ms cs)"
proof -
  let ?L = "set (io_live (ioOf p))"
  have w: "sound (se_net E) ?L (worldOf cs)" using inv(1) by (simp add: sys_inv_def Let_def p)
  then have q: "sound (se_net E) ?L (setQueueW q (worldOf cs))" for q by (simp add: setQueueW_def sound_def)
  have a: "length (cs_handlers cs) = length (workersOf cs)" "soundT E {} (cs_cleanup cs)"
    "\<And>i. i < length (workersOf cs) \<Longrightarrow> soundT E (workerSocks (workersOf cs ! i)) (cs_handlers cs ! i)"
    using inv(2) by (simp_all add: at_work_def)
  show ?thesis
  proof (cases rule: loopMove_cases [where cs = cs and E = E and ms = ms])
    case (inside t s)
    note s = soundT_move [OF a(2) inside(1) empty_subsetI w]
    have "sys_inv E (setServer (cs_server (loopMove E ms cs)) p)"
      by (rule inv_server [OF inv(1)]) (use s inside(2) inside_queue(1) [OF r inside(1)] p in \<open>simp_all add: heldEvents_def\<close>)
    then show ?thesis using a s inside(2) by (simp add: at_work_def)
  next
    case (idle n)
    have "sys_inv E (setServer (cs_server (loopMove E ms cs)) p)"
      by (rule inv_server [OF inv(1)]) (use q idle p in \<open>simp_all add: heldEvents_def\<close>)
    then show ?thesis using a soundT_starts(3) idle(2) by (simp add: at_work_def)
  next
    case (batch n es)
    have "sys_inv E (setServer (cs_server (loopMove E ms cs)) p)"
      by (rule inv_server [OF inv(1)]) (use q batch(2) held_batch [OF batch(3)] p in simp_all)
    then show ?thesis using a batch(2) by (simp add: at_work_def)
  next
    case (off l)
    have "sys_inv E (setServer (cs_server (loopMove E ms cs)) p)"
      by (rule inv_server [OF inv(1)]) (use w off(2) p in \<open>simp_all add: heldEvents_def\<close>)
    then show ?thesis using a off(2) by (simp add: at_work_def)
  qed
qed

text \<open>What the server may start from: no socket yet, and sessions as the server itself would leave them.\<close>

definition fresh_world :: "('w, 'c) world \<Rightarrow> bool" where
  "fresh_world w \<longleftrightarrow> n_io (w_net w) = emptyIO \<and> q_items (evq w) = [] \<and> sessions_ok (w_sessions w) \<and>
     no_sockets (w_sessions w)"

lemma cserved_net:
  assumes "cserved E ms k w ps seen cs" and "n_queue n = pushBatch es (evq (worldOf cs))"
  shows "cserved E ms k w (ps @ es) seen (setWorld ((worldOf cs)\<lparr>w_net := n\<rparr>) cs)"
proof -
  have push: "cserved E ms k w (ps @ es) seen (setWorld (setQueueW (pushBatch es (evq (worldOf cs))) (worldOf cs)) cs)"
    using assms(1)
  proof (induction es arbitrary: ps cs)
    case Nil
    then show ?case by (simp add: pushBatch_def setQueueW_def setWorld_def onServer_def)
  next
    case (Cons e es)
    from Cons.IH [OF cserved.Pushed [OF Cons.prems, of e]]
    show ?case by (simp add: pushBatch_def setQueueW_def setWorld_def onServer_def)
  qed
  from cserved.Networked [OF push, of n] assms(2) show ?thesis by (simp add: setQueueW_def setWorld_def onServer_def)
qed

lemma sys_keeps:
  assumes "sys E ms k w ps seen x" and "fresh_world w" and "0 \<le> ls_max_clients (ne_cfg (se_net E))"
  shows "sys_inv E (processOf x) \<and> cserved E ms k w ps seen (wh_crew x) \<and> at_work E (wh_crew x) \<and>
    (\<forall>e \<in> set ps. \<exists>s. admissible (se_net E) s e)"
  using assms
proof (induction rule: sys.induct)
  case Built
  have "io_reach (ne_addr (se_net E)) [] emptyIO" by (rule io_reach.Start)
  then have io: "io_of (se_net E) {} (w_net w)"
    using Built by (auto simp: io_of_def fresh_world_def emptyIO_def)
  moreover have "io_live (n_io (w_net w)) = []" using Built by (simp add: fresh_world_def emptyIO_def)
  ultimately have "sys_inv E (processOf \<lparr>wh_crew = newConcurrent k w, wh_conns = newConns\<rparr>)"
    using Built
    by (auto simp: sys_inv_def Let_def conn_inv_def sound_def conns_ok_def newConns_def clientKeys_def held_member
        newConcurrent_def newLoginServer_def newThreadPool_def fresh_world_def netOf_def)
  moreover have "at_work E (newConcurrent k w)"
    by (simp add: at_work_def newConcurrent_def newLoginServer_def newThreadPool_def soundT_starts(1))
  ultimately show ?case by (simp add: cserved.Made)
next
  case (Started ps seen x)
  then have "sys_inv E (setServer (startMainEventLoop (cs_server (wh_crew x))) (processOf x))"
    by (intro inv_server) (auto simp: sys_inv_def Let_def startMainEventLoop_def heldEvents_def)
  moreover have "at_work E (onServer startMainEventLoop (wh_crew x))"
    using Started by (simp add: at_work_def startMainEventLoop_def)
  ultimately show ?case using Started by (simp add: cserved.Started)
next
  case (Net ps seen x es p)
  then have i: "sys_inv E (processOf x)" "cserved E ms k w ps seen (wh_crew x)" "at_work E (wh_crew x)" by simp_all
  from net_keeps [OF i(1) Net.hyps(2)] obtain n where n: "sys_inv E p" "\<forall>e \<in> set es. \<exists>s. admissible (se_net E) s e"
    "pr_server p = (cs_server (wh_crew x))\<lparr>ls_world := (worldOf (wh_crew x))\<lparr>w_net := n\<rparr>\<rparr>"
    "n_queue n = pushBatch es (evq (worldOf (wh_crew x)))" by auto
  have "cserved E ms k w (ps @ es) seen ((wh_crew x)\<lparr>cs_server := pr_server p\<rparr>)"
    using cserved_net [OF i(2) n(4)] by (simp add: n(3) setWorld_def onServer_def)
  then show ?case using n(1,2) Net i(3) by (auto simp: at_work_def n(3))
next
  case (Looped ps seen x)
  then show ?case using loop_keeps [of E ms k w ps seen "wh_crew x" "processOf x"] by (simp add: cserved.Looped)
next
  case (Moved ps seen x i cs)
  then show ?case using move_keeps [of E ms k w ps seen "wh_crew x" "processOf x" i cs] by (simp add: cserved.Moved)
next
  case (Stopped ps seen x)
  then have "sys_inv E (setServer (stopServer (cs_server (wh_crew x))) (processOf x))"
    by (intro inv_server)
       (auto simp: sys_inv_def Let_def stopServer_def stopEventQueue_def stopQueue_def heldEvents_def setQueueW_def sound_def)
  moreover have "at_work E (onServer stopServer (wh_crew x))"
    using Stopped by (simp add: at_work_def stopServer_def stopEventQueue_def)
  ultimately show ?case using Stopped by (simp add: cserved.Stopped)
qed

section \<open>A concrete run\<close>

text \<open>A client connects and sends an empty frame, which the demo library parses as a ping.\<close>

definition pingJson :: json where
  "pingJson = JObj [(''header'', JObj [(''eventType'', JStr ''pingClient'')])]"

definition runEnv :: "(rel, nat) senv" where
  "runEnv = (relServer False)\<lparr>se_net := openEnv\<lparr>ne_json := echoLib pingJson\<rparr>\<rparr>"

definition runWorld :: "(rel, nat) world" where
  "runWorld = sessionWorld\<lparr>w_net := newServices\<rparr>"

lemma runWorld_fresh: "fresh_world runWorld"
  by (simp add: fresh_world_def runWorld_def newServices_def newQueue_def sessionWorld_def sessions_ok_def no_sockets_def
      newClient_def)

lemma runEnv_max: "0 \<le> ls_max_clients (ne_cfg (se_net runEnv))"
  by (simp add: runEnv_def openEnv_def)

definition zeroFrame :: string where
  "zeroFrame = [CHR 0x00, CHR 0x00, CHR 0x00, CHR 0x00]"

definition afterAccept :: net where
  "afterAccept = (newConns\<lparr>c_active := [0], c_reading := [0], c_accepting := True\<rparr>,
     newServices\<lparr>n_io := connectSocket 0 emptyIO, n_ticks := 1\<rparr>)"

definition builtWhole :: "(rel, nat) whole" where
  "builtWhole = \<lparr>wh_crew = newConcurrent 1 runWorld, wh_conns = newConns\<rparr>"

lemma setProcess_twice [simp]: "setProcess p (setProcess q x) = setProcess p x"
  by (simp add: setProcess_def)

definition connected :: "(rel, nat) process" where
  "connected = setNet afterAccept (setNet (snd (startIOEventLoop 1 (newConns, newServices))) (processOf builtWhole))"

lemma connected_run: "sys runEnv 60000 1 runWorld [] [] (setProcess connected builtWhole)"
proof -
  let ?p0 = "processOf builtWhole"
  have n0: "netOf ?p0 = (newConns, newServices)"
    by (simp add: netOf_def builtWhole_def newConcurrent_def newLoginServer_def runWorld_def)
  let ?p1 = "setNet (snd (startIOEventLoop 1 (newConns, newServices))) ?p0"
  have p1: "sys runEnv 60000 1 runWorld [] [] (setProcess ?p1 builtWhole)"
    using sys.Net [OF sys.Built [of runEnv 60000 1 runWorld, folded builtWhole_def] net_step.Listening [where threads = 1]]
    by (simp only: n0 append_Nil)
  have n1: "netOf ?p1 = (newConns\<lparr>c_accepting := True\<rparr>, newServices)"
    by (simp add: startIOEventLoop_def startAccept_def onConns_def)
  have acc: "onAccept (se_net runEnv) 0 False (netOf ?p1) = (Inr (), afterAccept)"
    unfolding n1
    by (simp add: demoEnv_def onAccept_def onConns_def updIO_def onServices_def remoteAddress_def andThen_def startAccept_def
        startReadingFromClient_def afterAccept_def runEnv_def openEnv_def newConns_def newServices_def)
  have "net_step runEnv ?p1 [] connected"
    unfolding connected_def
    by (rule net_step.Accepted [OF _ _ _ acc])
       (simp_all add: startIOEventLoop_def startAccept_def onConns_def newServices_def emptyIO_def)
  then show ?thesis using sys.Net [OF p1, of "[]" connected] by simp
qed

lemma connected_sel [simp]:
  "pr_conns connected = newConns\<lparr>c_active := [0], c_reading := [0], c_accepting := True\<rparr>"
  "w_net (ls_world (pr_server connected)) = newServices\<lparr>n_io := connectSocket 0 emptyIO, n_ticks := 1\<rparr>"
  "ls_tasks (pr_server connected) = newThreadPool 1"
  by (simp_all add: connected_def afterAccept_def builtWhole_def newConcurrent_def newLoginServer_def)

lemma zeroFrame_read:
  "extractLoop proc 0 zeroFrame n = (None, [], proc [] n)"
proof -
  have "frameLen zeroFrame = 0" by (simp add: zeroFrame_def frameLen_def byteWord_def)
  then show ?thesis
    by (subst extractLoop.simps) (simp add: MAX_MESSAGES_PER_READ_def Let_def zeroFrame_def, subst extractLoop.simps, simp)
qed

definition pingEvent :: Event where
  "pingEvent = clientEvent PING_CLIENT ((parseClientData pingJson)\<lparr>cd_socket := Some 0\<rparr>) 0
     (parseTimestampsFromHeader (echoLib pingJson) 1 pingJson)"

definition heard :: "(rel, nat) process" where
  "heard = setNet (pr_conns connected, (snd (netOf connected))
     \<lparr>n_queue := pushEvent pingEvent newQueue, n_ticks := 2\<rparr>) connected"

lemma heard_conns: "pr_conns heard = pr_conns connected"
  by (simp add: heard_def)

lemma ping_message:
  "processMessage (se_net runEnv) 0 [] n =
     (Inr (), n\<lparr>n_queue := pushEvent (clientEvent PING_CLIENT ((parseClientData pingJson)\<lparr>cd_socket := Some 0\<rparr>) 0
        (parseTimestampsFromHeader (echoLib pingJson) (int (n_ticks n)) pingJson)) (n_queue n),
        n_ticks := Suc (n_ticks n)\<rparr>)"
proof -
  have "parseEventType pingJson = ''pingClient''"
    by (simp add: parseEventType_def pingJson_def hasField_def)
  then show ?thesis
    by (simp add: processMessage_def tryCatch_def andThen_def runEnv_def openEnv_def demoEnv_def echoLib_def
        dispatchRequest_def Let_def pushQ_def)
qed

lemma heard_run: "sys runEnv 60000 1 runWorld [pingEvent] [] (setProcess heard builtWhole)"
proof -
  let ?t = "(pr_conns connected, (snd (netOf connected))\<lparr>n_queue := pushEvent pingEvent newQueue, n_ticks := 2\<rparr>)"
  have "onRead (se_net runEnv) 0 (ReadData zeroFrame) (pr_conns connected, snd (netOf connected)) = (Inr (), ?t)"
    by (simp add: onRead_def onConns_def andThen_def handleClientData_def Let_def newConns_def extractV2Messages_def
        zeroFrame_read ping_message startReadingFromClient_def newServices_def pingEvent_def kMaxAccumulatedBytesV2_def)
      (simp add: zeroFrame_def)
  then have r: "onRead (se_net runEnv) 0 (ReadData zeroFrame) (netOf connected) = (Inr (), ?t)"
    by (subst netOf_def) simp
  have "net_step runEnv connected [pingEvent] (setNet ?t connected)"
    by (rule net_step.Read [OF _ _ r])
       (simp_all add: kReadChunkBytes_def zeroFrame_def pushEvent_def newQueue_def newServices_def)
  then show ?thesis using sys.Net [OF connected_run, of "[pingEvent]" heard] by (simp add: heard_def)
qed

text \<open>The loop takes the event, and the one worker starts it.\<close>

lemma ping_started:
  obtains seen x where "sys runEnv 60000 1 runWorld [pingEvent] seen x" "workersOf (wh_crew x) = [Running pingEvent]"
    "cs_handlers (wh_crew x) = [taskT runEnv pingEvent]" "tp_started (ls_tasks (cs_server (wh_crew x))) = [pingEvent]"
    "w_net (worldOf (wh_crew x)) = newServices\<lparr>n_io := connectSocket 0 emptyIO, n_ticks := 2\<rparr>"
proof -
  let ?E = runEnv and ?x = "setProcess heard builtWhole"
  let ?c = "onServer startMainEventLoop (wh_crew ?x)"
  let ?st = "startMainEventLoop (pr_server heard)"
  have on: "ls_loop ?st = Looping" "ls_running ?st" "ls_tasks ?st = newThreadPool 1" "cs_cleanup ?c = retT ()"
    "cs_handlers ?c = [retT ()]" "w_net (ls_world ?st) = newServices\<lparr>n_io := connectSocket 0 emptyIO,
       n_queue := pushEvent pingEvent newQueue, n_ticks := 2\<rparr>"
    by (simp_all add: startMainEventLoop_def heard_def connected_def afterAccept_def setNet_def newLoginServer_def
        builtWhole_def newConcurrent_def)
  have q: "n_queue (w_net (ls_world ?st)) = \<lparr>q_items = [pingEvent], q_stopped = False\<rparr>"
    by (simp add: startMainEventLoop_def heard_def pushEvent_def newQueue_def)
  have pop: "tryPopBatch [] BATCH_SIZE (n_queue (w_net (ls_world ?st))) =
      Inr (True, [pingEvent], \<lparr>q_items = [], q_stopped = False\<rparr>)"
    using reserve_small [of 10 1]
    by (simp add: q tryPopBatch_def wouldWait_def takeBatch_def BATCH_SIZE_def
        in_int_def INT_MIN_def INT_MAX_def)
  let ?l = "loopMove ?E 60000 ?c"
  have "idleRound ?st = None" using pop by (simp add: idleRound_def)
  then have l0: "?l = onServer (loopIteration ?E 60000) ?c" using on(4) by (simp add: loopMove_def retT_def)
  have "ls_tasks (cs_server ?l) =
      \<lparr>tp_tasks = [pingEvent], tp_stop = False, tp_workers = [Waiting], tp_started = [], tp_finished = []\<rparr>"
    "w_net (worldOf ?l) = newServices\<lparr>n_io := connectSocket 0 emptyIO, n_ticks := 2\<rparr>" "cs_handlers ?l = [retT ()]"
    unfolding l0 using on pop
    by (simp_all add: loopIteration_def newThreadPool_def processBatch_open setQueueW_def newServices_def newQueue_def)
  moreover have "\<exists>seen. sys ?E 60000 1 runWorld [pingEvent] seen (?x\<lparr>wh_crew := ?l\<rparr>)"
    using sys.Looped [OF sys.Started [OF heard_run]] by auto
  ultimately obtain seen l where run: "sys ?E 60000 1 runWorld [pingEvent] seen (?x\<lparr>wh_crew := l\<rparr>)" and
    l: "ls_tasks (cs_server l) =
      \<lparr>tp_tasks = [pingEvent], tp_stop = False, tp_workers = [Waiting], tp_started = [], tp_finished = []\<rparr>"
    "w_net (worldOf l) = newServices\<lparr>n_io := connectSocket 0 emptyIO, n_ticks := 2\<rparr>" "cs_handlers l = [retT ()]"
    by blast
  obtain m where m: "handlerMove ?E 0 l = Some m" "worldOf m = worldOf l" "cs_handlers m = [taskT ?E pingEvent]"
    "ls_tasks (cs_server m) =
      \<lparr>tp_tasks = [], tp_stop = False, tp_workers = [Running pingEvent], tp_started = [pingEvent], tp_finished = []\<rparr>"
    by (simp add: handlerMove_def workerStep_def l retT_def handlerOf_def)
  from sys.Moved [OF run, of 0 m] m(1)
  have "\<exists>seen. sys ?E 60000 1 runWorld [pingEvent] seen (?x\<lparr>wh_crew := m\<rparr>)" by auto
  then show ?thesis using that m l(2) by auto
qed

text \<open>The handler posts its answer, and the strand puts it in flight.\<close>

lemma ping_answered:
  obtains seen x where "sys runEnv 60000 1 runWorld [pingEvent] seen x" "io_wire (ioAt x) = []"
    "map po_sock (io_flight (ioAt x)) = [0]" "workersOf (wh_crew x) = [Running pingEvent]"
proof -
  obtain seen0 x0 where x0: "sys runEnv 60000 1 runWorld [pingEvent] seen0 x0"
    "workersOf (wh_crew x0) = [Running pingEvent]" "cs_handlers (wh_crew x0) = [taskT runEnv pingEvent]"
    "w_net (worldOf (wh_crew x0)) = newServices\<lparr>n_io := connectSocket 0 emptyIO, n_ticks := 2\<rparr>"
    by (rule ping_started)
  let ?R = "\<lambda>seen cs. sys runEnv 60000 1 runWorld [pingEvent] seen (x0\<lparr>wh_crew := cs\<rparr>)"
  let ?s = "snd (runTask runEnv pingEvent (worldOf (wh_crew x0)))"
  have closed: "?R (seen @ [(workersOf cs ! 0, worldOf cs)]) cs'" if "?R seen cs" "handlerMove runEnv 0 cs = Some cs'" for seen cs cs'
    using sys.Moved [OF that(1), of 0 cs'] that(2) by simp
  have "\<exists>seen1. ?R seen1 (setWorld (snd (runT (taskT runEnv pingEvent) (worldOf (wh_crew x0)))) ((wh_crew x0)\<lparr>cs_handlers :=
      (cs_handlers (wh_crew x0))[0 := Ended (fst (runT (taskT runEnv pingEvent) (worldOf (wh_crew x0))))]\<rparr>))"
    by (rule handler_to_end [where R = ?R and E = runEnv, OF closed, of seen0])
       (use x0 in \<open>simp_all add: workerStep_def\<close>)
  then obtain seen1 cs where c: "?R seen1 cs" "worldOf cs = ?s" "workersOf cs = [Running pingEvent]"
    using x0(2) by (fastforce simp: run_task)
  let ?io = "enqueueWrite id (Some 0) (packFramedMessage []) (connectSocket 0 emptyIO)"
  have ev: "ev_type pingEvent = PING_CLIENT" "ev_data pingEvent = ED_client ((parseClientData pingJson)\<lparr>cd_socket := Some 0\<rparr>)"
    "ev_hasTimestamps pingEvent"
    by (simp_all add: pingEvent_def clientEvent_def setEventTimestamps_def mkEvent_def)
  have ip: "se_net runEnv = openEnv\<lparr>ne_json := echoLib pingJson\<rparr>" "ne_addr (se_net runEnv) = id"
    "json_dump (ne_json (se_net runEnv)) j = Inr []" for j
    by (simp_all add: runEnv_def openEnv_def demoEnv_def echoLib_def noLib_def)
  have gen: "genResponseTs (se_net runEnv) ''success'' (build b) ts n =
      (Inr [CHR 0x0A], n\<lparr>n_ticks := Suc (Suc (n_ticks n))\<rparr>)" for b ts n
  proof -
    obtain j where "responseJsonTs ''success''
        (getCurrentTimestamp (ne_puttime (se_net runEnv)) (ne_clock (se_net runEnv) (n_ticks n)))
        (ne_clock (se_net runEnv) (Suc (n_ticks n))) (build b) ts = Inr j"
      using responseJsonTs_build by blast
    then show ?thesis by (simp add: genResponseTs_def generateResponseMessageTs_def dumpLine_def ip(3))
  qed
  have send: "sendResponse (se_net runEnv) (Some 0) [CHR 0x0A] n =
      (Inr (), n\<lparr>n_io := enqueueWrite id (Some 0) (packFramedMessage []) (n_io n)\<rparr>)" for n
    using frameResponse_line [of "[]"] by (simp add: sendResponse_def ip(2))
  have net: "w_net ?s = newServices\<lparr>n_io := ?io, n_ticks := 4\<rparr>"
    using x0(4) getTimestamps_has [OF ev(3)]
    by (simp add: runTask_def tryCatch_def dispatchEvent_def ev handlePingClientEvent_def catchVariant_def
        withClient_def andThen_def onNet_def gen send newServices_def)
  have posted: "io_posted ?io = [] @ \<lparr>po_queue = 0, po_sock = 0, po_data = packFramedMessage []\<rparr> # []"
    by (simp add: enqueueWrite_def getOrCreateWriteQueue_def registerQueue_def connectSocket_def emptyIO_def Let_def)
  let ?x = "x0\<lparr>wh_crew := cs\<rparr>"
  have io: "ioOf (processOf ?x) = ?io" using net c(2) by (simp add: netOf_def)
  have "net_step runEnv (processOf ?x) [] (setIO (runPosted \<lparr>po_queue = 0, po_sock = 0,
      po_data = packFramedMessage []\<rparr> (?io\<lparr>io_posted := [] @ []\<rparr>)) (processOf ?x))"
    using net_step.HandlerRun [where E = runEnv and p = "processOf ?x", unfolded io, OF posted] by simp
  from sys.Net [OF c(1) this] have run: "sys runEnv 60000 1 runWorld [pingEvent] seen1 (setProcess (setIO
      (runPosted \<lparr>po_queue = 0, po_sock = 0, po_data = packFramedMessage []\<rparr> (?io\<lparr>io_posted := [] @ []\<rparr>)) (processOf ?x)) ?x)"
    by simp
  show ?thesis
    by (rule that [OF run])
       (simp_all add: c(3) runPosted_def doNextWrite_def enqueueWrite_def getOrCreateWriteQueue_def registerQueue_def
          connectSocket_def emptyIO_def queueAt_def setQueue_def newQueueObj_def Let_def)
qed

section \<open>Properties\<close>

text \<open>C6: in every interleaving of the whole server, with its handlers in progress, the write queues only
  take steps of their protocol, so at every moment each socket has at most one write in flight and what was written to it is a
  prefix of what the handlers and the I/O threads sent it, in that order; and every socket that a
  pending read, a write, a queued or running event refers to is alive.\<close>

theorem whole_server_writes:
  assumes "sys E ms k w ps seen x" and "fresh_world w" and "0 \<le> ls_max_clients (ne_cfg (se_net E))"
  shows "(\<exists>log. io_reach (ne_addr (se_net E)) log (ioAt x) \<and>
      (\<forall>s. prefix (dataOf s (io_wire (ioAt x)) @ postsOf s (io_flight (ioAt x))) (dataOf s log))) \<and>
    distinct (map po_sock (io_flight (ioAt x))) \<and> set (sockRefs (processOf x)) \<subseteq> set (io_live (ioAt x))"
proof -
  have inv: "sys_inv E (processOf x)" using sys_keeps [OF assms] by blast
  then obtain log where log: "io_reach (ne_addr (se_net E)) log (ioAt x)"
    by (auto simp: sys_inv_def Let_def sound_def io_of_def)
  have ok: "io_ok (ne_addr (se_net E)) log (ioAt x)" by (rule io_reach_ok [OF log])
  have none: "concat (map (\<lambda>(k, d). optList (cd_socket d)) m) = []" if "no_sockets m" for m
    using that by (auto simp: no_sockets_def)
  have "no_sockets (w_sessions (worldOf (wh_crew x)))"
    using inv by (simp add: sys_inv_def Let_def sound_def)
  moreover have "io_shape (ne_addr (se_net E)) (ioAt x)" using ok by (simp add: io_ok_def)
  ultimately have "set (sockRefs (processOf x)) \<subseteq> set (io_live (ioAt x))"
    using inv shape_post [of "ne_addr (se_net E)" "ioAt x"]
    by (auto simp: sockRefs_def none sys_inv_def Let_def conn_inv_def)
  then show ?thesis
    using log io_no_overlap [OF ok] ok by (auto simp: io_ok_def io_data_def)
qed

theorem whole_server_writes_witness:
  "\<exists>seen x. sys runEnv 60000 1 runWorld [pingEvent] seen x \<and> map po_sock (io_flight (ioAt x)) = [0] \<and>
     {0} \<subseteq> set (io_live (ioAt x))"
proof -
  obtain seen x where p: "sys runEnv 60000 1 runWorld [pingEvent] seen x" "map po_sock (io_flight (ioAt x)) = [0]"
    by (rule ping_answered)
  have "0 \<in> set (sockRefs (processOf x))" using arg_cong [OF p(2), of set] by (auto simp: sockRefs_def)
  moreover have "set (sockRefs (processOf x)) \<subseteq> set (io_live (ioAt x))"
    using whole_server_writes [OF p(1) runWorld_fresh runEnv_max] by blast
  ultimately have "{0} \<subseteq> set (io_live (ioAt x))" by (intro subsetI) (simp add: subset_iff)
  then show ?thesis by (intro exI [of _ seen] exI [of _ x] conjI p)
qed

text \<open>C7: in every interleaving of the whole server no client slot and no buffer leaks: each registered
  address and each receive buffer belongs to a live socket whose one read is armed (so that the end of
  the connection frees it), a buffer is at most 64 KB over the frame cap, and no more clients are
  registered than configured.\<close>

theorem clients_never_leak:
  assumes "sys E ms k w ps seen x" and "fresh_world w" and "0 \<le> ls_max_clients (ne_cfg (se_net E))"
  shows "distinct (c_reading (wh_conns x)) \<and> set (c_reading (wh_conns x)) \<subseteq> set (io_live (ioAt x)) \<and>
    list_all (\<lambda>a. \<exists>s \<in> set (c_reading (wh_conns x)). ne_addr (se_net E) s = a) (c_active (wh_conns x)) \<and>
    list_all (\<lambda>(a, b). length b \<le> kMaxFrameBytes + 65536 \<and>
      (\<exists>s \<in> set (c_reading (wh_conns x)). ne_addr (se_net E) s = a)) (c_buffers (wh_conns x)) \<and>
    int (length (c_active (wh_conns x))) \<le> ls_max_clients (ne_cfg (se_net E))"
proof -
  have "sys_inv E (processOf x)" using sys_keeps [OF assms] by blast
  then have c: "conn_inv (se_net E) (set (io_live (ioAt x))) (netOf (processOf x))" by (simp add: sys_inv_def Let_def)
  then have key: "\<exists>s \<in> set (c_reading (wh_conns x)). ne_addr (se_net E) s = a" if "a \<in> clientKeys (wh_conns x)" for a
    using that by (auto simp: conn_inv_def)
  show ?thesis
    using c key by (fastforce simp: conn_inv_def conns_ok_def clientKeys_def list_all_iff kMaxAccumulatedBytesV2_def)
qed

theorem clients_never_leak_witness:
  "let x = setProcess connected builtWhole in
     sys runEnv 60000 1 runWorld [] [] x \<and> c_active (wh_conns x) = [0] \<and> c_reading (wh_conns x) = [0] \<and>
     set [0] \<subseteq> set (io_live (ioAt x))"
  using clients_never_leak [OF connected_run runWorld_fresh runEnv_max] connected_run by (simp add: Let_def)

text \<open>C8: in every interleaving of the whole server the events the workers have started, then the tasks
  that wait, then the queue, are the events that reads have pushed, in that order and each once; and
  every one of them was admitted for the socket it names: within the accepted client versions or, for a
  request of a session, with a client id and a token.\<close>

theorem handled_events_admitted:
  assumes "sys E ms k w ps seen x" and "fresh_world w" and "0 \<le> ls_max_clients (ne_cfg (se_net E))"
  shows "tp_started (ls_tasks (cs_server (wh_crew x))) @ tp_tasks (ls_tasks (cs_server (wh_crew x))) @
      q_items (evq (worldOf (wh_crew x))) = ps \<and>
    list_all (\<lambda>e. \<exists>s. ev_socket e = Some s \<and> admissible (se_net E) s e) ps"
proof -
  have "cserved E ms k w ps seen (wh_crew x)" "\<forall>e \<in> set ps. \<exists>s. admissible (se_net E) s e"
    using sys_keeps [OF assms] by blast+
  then show ?thesis
    using cserved_flow [of E ms k w ps seen "wh_crew x"] assms(2)
    by (auto simp: flow_def pool_inv_def fresh_world_def list_all_iff admissible_def)
qed

theorem handled_events_admitted_witness:
  "\<exists>seen x. sys runEnv 60000 1 runWorld [pingEvent] seen x \<and> tp_started (ls_tasks (cs_server (wh_crew x))) = [pingEvent] \<and>
     (\<exists>s. ev_socket pingEvent = Some s \<and> admissible (se_net runEnv) s pingEvent)"
proof -
  obtain seen x where p: "sys runEnv 60000 1 runWorld [pingEvent] seen x" "tp_started (ls_tasks (cs_server (wh_crew x))) = [pingEvent]"
    by (rule ping_started)
  show ?thesis
    using handled_events_admitted [OF p(1) runWorld_fresh runEnv_max] p by auto
qed

text \<open>C11: in every interleaving of the whole server the sessions kept in memory are filed under their own
  client ids, one per id, with neither a cleartext password nor a socket.\<close>

theorem sessions_hold_no_secret:
  assumes "sys E ms k w ps seen x" and "fresh_world w" and "0 \<le> ls_max_clients (ne_cfg (se_net E))"
  shows "dkeys (w_sessions (worldOf (wh_crew x))) \<and>
    list_all (\<lambda>(i, d). cd_clientId d = i \<and> cd_password d = [] \<and> cd_socket d = None)
      (w_sessions (worldOf (wh_crew x)))"
  using sys_keeps [OF assms]
  by (auto simp: sys_inv_def Let_def sound_def sessions_ok_def no_sockets_def list_all_iff)

theorem sessions_hold_no_secret_witness:
  "\<exists>seen x. sys runEnv 60000 1 runWorld [pingEvent] seen x \<and>
     list_all (\<lambda>(i, d). cd_clientId d = i \<and> cd_password d = [] \<and> cd_socket d = None)
       (w_sessions (worldOf (wh_crew x)))"
proof -
  obtain seen x where p: "sys runEnv 60000 1 runWorld [pingEvent] seen x" by (rule ping_answered)
  show ?thesis using sessions_hold_no_secret [OF p runWorld_fresh runEnv_max] p by blast
qed



end
