(* ===== verification/Stages.thy ===== *)
theory Stages
  imports Interleaving
begin

text \<open>
  Handlers that check before they act, in the server of \<open>Interleaving\<close>: the locale \<open>stages\<close> is an
  invariant family whose later stages permit more, and it gives, for each move of a worker, the stage
  which the checks among the worker's earlier moves had reached.
\<close>

section \<open>The states that moves have found\<close>

lemma seen_served:
  "cserved E ms k w ps seen cs \<Longrightarrow> (v, s) \<in> set seen \<Longrightarrow>
     \<exists>ps' seen' cs'. cserved E ms k w ps' seen' cs' \<and> worldOf cs' = s"
  by (induction rule: cserved.induct) auto

lemma running_pushed:
  assumes "cserved E ms k w ps seen cs" and "q_items (evq w) = []"
    and "i < length (workersOf cs)" and "workersOf cs ! i = Running e"
  shows "e \<in> set ps"
proof -
  have "e \<in># running (ls_tasks (cs_server cs))"
    using assms(4) nth_mem [OF assms(3)] by (auto simp: running_def intro!: bexI [of _ "Running e"])
  then have "e \<in># mset (tp_started (ls_tasks (cs_server cs)))"
    using cserved_flow [OF assms(1,2)] by (auto simp: flow_def pool_inv_def)
  then show ?thesis using cserved_flow [OF assms(1,2)] by (auto simp: flow_def pool_inv_def)
qed

lemma handlerMove_index: "handlerMove E i cs = Some cs' \<Longrightarrow> i < length (workersOf cs)"
  by (auto simp: handlerMove_def split: option.splits dest: workerStep_workers(1))

section \<open>What the checks so far permit\<close>

text \<open>The stages that a worker which runs \<open>v\<close> can have reached by its moves in \<open>seen\<close>.\<close>

inductive reached ::
  "(Event worker \<Rightarrow> 'q \<Rightarrow> 'q \<Rightarrow> ('w, 'c) world \<Rightarrow> bool) \<Rightarrow> 'q \<Rightarrow> Event worker \<Rightarrow> ('w, 'c) history \<Rightarrow> 'q \<Rightarrow> bool"
  for V start v where
  Start: "reached V start v seen start"
| Past: "reached V start v seen q \<Longrightarrow> reached V start v (seen @ [p]) q"
| Check: "reached V start v seen q \<Longrightarrow> V v q q' s \<Longrightarrow> reached V start v (seen @ [(v, s)]) q'"

locale stages =
  fixes E :: "('w, 'c) senv" and B :: "'x \<Rightarrow> nat list \<Rightarrow> ('w, 'c) world \<Rightarrow> bool"
    and I :: "Event worker \<Rightarrow> 'q \<Rightarrow> 'x \<Rightarrow> nat list \<Rightarrow> ('w, 'c) world \<Rightarrow> bool"
    and V :: "Event worker \<Rightarrow> 'q \<Rightarrow> 'q \<Rightarrow> ('w, 'c) world \<Rightarrow> bool" and start :: 'q
  assumes shared: "mset h = mset h' \<Longrightarrow> B x h s \<Longrightarrow> B x h' s"
    and networks: "B x h s \<Longrightarrow> \<exists>y. B y h (s\<lparr>w_net := n\<rparr>)"
    and permits: "B x h s \<Longrightarrow> I v q x h s"
    and anew: "I v q x h s \<Longrightarrow> \<exists>y. B y h s"
    and tasks: "stagedT (I (Running ev)) (V (Running ev)) (\<lambda>q r h. h = []) start [] (taskT E ev)"
    and cleanups: "stagedT (I Waiting) (V Waiting) (\<lambda>q r h. h = []) start [] (cleanupT E ms)"
begin

definition duty :: "('w, 'c) history \<Rightarrow> Event worker \<Rightarrow> nat list \<Rightarrow> ('w, 'c) routine \<Rightarrow> bool" where
  "duty seen v h t \<longleftrightarrow>
     (\<exists>q. reached V start v seen q \<and> stagedT (I v) (V v) (\<lambda>q r h. h = []) q h t)"

lemma duty_start: "stagedT (I v) (V v) (\<lambda>q r h. h = []) start h t \<Longrightarrow> duty seen v h t"
  unfolding duty_def by (blast intro: reached.Start)

lemma duty_move:
  assumes "duty seen v h t" and "moveT t s = Some (t', s')"
  shows "\<exists>q. reached V start v seen q \<and>
    (\<forall>x o'. B x (h @ o') s \<longrightarrow> (\<exists>h'. I v q x (h' @ o') s' \<and> duty (seen @ [(v, s)]) v h' t'))"
proof -
  obtain q where q: "reached V start v seen q" "stagedT (I v) (V v) (\<lambda>q r h. h = []) q h t"
    using assms(1) by (auto simp: duty_def)
  have "\<exists>h'. I v q x (h' @ o') s' \<and> duty (seen @ [(v, s)]) v h' t'" if "B x (h @ o') s" for x o'
  proof -
    from staged_move [where I = "I v" and x = x and o' = o', OF q(2) assms(2) permits [OF that]]
    obtain h' q' where h': "I v q x (h' @ o') s'" "q' = q \<or> V v q q' s" "stagedT (I v) (V v) (\<lambda>q r h. h = []) q' h' t'"
      by blast
    have "reached V start v (seen @ [(v, s)]) q'" using q(1) h'(2) by (auto intro: reached.intros)
    then show ?thesis using h'(1,3) unfolding duty_def by blast
  qed
  then show ?thesis using q(1) by blast
qed

lemma duty_crew: "crew E B duty"
proof (rule crew.intro)
  show "\<exists>h' y. B y (h' @ o') s' \<and> duty (seen @ [(v, s)]) v h' t'"
    if "duty seen v h t" "moveT t s = Some (t', s')" "B x (h @ o') s" for seen v h t s t' s' x o'
    using duty_move [OF that(1,2)] that(3) anew by blast
  show "duty (seen @ [p]) v h t" if "duty seen v h t" for seen p v h t
    using that unfolding duty_def by (blast intro: reached.Past)
  show "h = []" if "duty seen v h t" "moveT t s = None" for seen v h t s
    using that by (cases t) (auto simp: duty_def)
  show "duty seen v [] (retT ())" for seen v by (rule duty_start) (simp add: retT_def)
  show "duty seen (Running ev) [] (taskT E ev)" for seen ev by (rule duty_start) (rule tasks)
  show "duty seen Waiting [] (cleanupT E ms)" for seen ms by (rule duty_start) (rule cleanups)
qed (rule shared, assumption+, rule networks)

end

sublocale stages \<subseteq> duties: crew E B duty
  by (rule duty_crew)

context stages
begin

text \<open>A move of a worker leaves the state as it is or does what a stage permits which it has reached.\<close>

definition permitted :: "('w, 'c) history \<Rightarrow> Event worker \<Rightarrow> ('w, 'c) world \<Rightarrow> ('w, 'c) world \<Rightarrow> bool" where
  "permitted seen v s s' \<longleftrightarrow>
     (\<exists>q h. reached V start v seen q \<and> (\<exists>x. B x h s) \<and> (\<forall>x. B x h s \<longrightarrow> (\<exists>h'. I v q x h' s')))"

lemma duty_permitted:
  assumes "duty seen v h t" and "moveT t s = Some (t', s')" and "B x (h @ o') s"
  shows "permitted seen v s s'"
  using duty_move [OF assms(1,2)] assms(3) unfolding permitted_def by blast

lemma worker_stage:
  assumes "cserved E ms k w ps seen cs" and "B x [] w" and "handlerMove E i cs = Some cs'"
  shows "worldOf cs' = worldOf cs \<or> permitted seen (workersOf cs ! i) (worldOf cs) (worldOf cs')"
  using assms(3)
proof (cases rule: handlerMove_cases)
  case (inside t v)
  obtain y h o' where h: "B y (h @ o') (worldOf cs)" "duty seen (workersOf cs ! i) h (cs_handlers cs ! i)"
    using duties.manned_at(1) [OF duties.served_manned [OF assms(1,2)] inside(3)] by blast
  then show ?thesis using duty_permitted [OF h(2) inside(1) h(1)] inside(2) by simp
qed simp

lemma loop_stage:
  assumes "cserved E ms k w ps seen cs" and "B x [] w"
  shows "w_sessions (worldOf (loopMove E ms cs)) = w_sessions (worldOf cs) \<and>
      w_out (worldOf (loopMove E ms cs)) = w_out (worldOf cs) \<or>
    permitted seen Waiting (worldOf cs) (worldOf (loopMove E ms cs))"
proof (cases rule: loopMove_cases [where cs = cs and E = E and ms = ms])
  case (inside t v)
  obtain y h o' where h: "B y (h @ o') (worldOf cs)" "duty seen Waiting h (cs_cleanup cs)"
    using duties.manned_at(2) [OF duties.served_manned [OF assms(1,2)]] by blast
  then show ?thesis using duty_permitted [OF h(2) inside(1) h(1)] inside(2) by simp
qed (simp_all add: setQueueW_def)

end

end
