(* ===== verification/Ownership.thy ===== *)
theory Ownership
  imports Stages
begin

text \<open>
  What the interleaved handlers do to the tables: they stay legal, and an account's characters change
  only under a request that names the account and whose token was the session's when it was checked.
\<close>

section \<open>The tables while handlers are in progress\<close>

context server
begin

lemma cserved_tables:
  assumes "cserved E ms k w ps seen cs" and "ready txn n [] w" and "tables_ok (dbW w)"
  shows "tables_ok (dbW (worldOf cs))"
proof -
  have "tables.tracked n [] w" using assms(2,3) by (simp add: tables.outside_def ready_def)
  from tables.safe.served_manned [OF assms(1) this] show ?thesis by (auto simp: manned_def tables.outside_def)
qed

lemma cserved_roster:
  assumes "cserved E ms k w ps seen cs" and "ready txn n [] w" and "rosterOk Q (dbW w)" and "catalogue_ok (dbW w)"
  shows "rosterOk Q (dbW (worldOf cs)) \<and> catalogue_ok (dbW (worldOf cs))"
proof -
  have "roster.tracked n [] w" using assms(2-4) by (simp add: roster.outside_def ready_def)
  from rosters.served_manned [OF assms(1) this] show ?thesis by (auto simp: manned_def roster.outside_def)
qed

end

section \<open>Requests that may change characters\<close>

text \<open>The request of a worker that runs a creation or a deletion, and the check of its token.\<close>

definition writerOf :: "Event worker \<Rightarrow> ClientDataStruct option" where
  "writerOf v =
     (case v of
        Running ev \<Rightarrow>
          if ev_type ev \<in> {CREATE_CHARACTER, DELETE_CHARACTER} then
            (case ev_data ev of ED_client d \<Rightarrow> Some d | _ \<Rightarrow> None)
          else None
      | _ \<Rightarrow> None)"

abbreviation tokenValid :: "ClientDataStruct \<Rightarrow> ('w, 'c) world \<Rightarrow> bool" where
  "tokenValid d s \<equiv> validateSession (cd_clientId d) (cd_hash d) (w_sessions s)"

context server
begin

text \<open>Nobody's live characters change, and nobody's but those of \<open>a\<close>.\<close>

abbreviation nobody :: "nat \<Rightarrow> (int \<Rightarrow> character_row list) \<Rightarrow> nat list \<Rightarrow> ('w, 'c) world \<Rightarrow> bool" where
  "nobody n L \<equiv> owned.tracked UNIV L n"

abbreviation only :: "int \<Rightarrow> nat \<Rightarrow> (int \<Rightarrow> character_row list) \<Rightarrow> nat list \<Rightarrow> ('w, 'c) world \<Rightarrow> bool" where
  "only a n L \<equiv> owned.tracked (- {a}) L n"

lemma own_services:
  "keeps (only a n L held) (createCharacter E c a name cls race gender)"
  "keeps (only a n L held) (deleteCharacter E c a i)"
proof -
  have within: "keeps (only a n L held) m" if "\<And>s0. keeps (within n a s0 held) m" for m :: "(('w, 'c) world, 'r) eff"
  proof (rule keepsI)
    fix s assume s: "only a n L held s"
    then have "within n a s held s" by (auto simp: within_def ownEffect_def owned.outside_def)
    from keepsD [where I = "within n a s held", OF that this] s show "only a n L held (snd (m s))"
      unfolding owned.outside_def by (auto simp: within_def ownEffect_def liveAs_def ready_def)
  qed
  show "keeps (only a n L held) (createCharacter E c a name cls race gender)" by (rule within) (rule within_services)
  show "keeps (only a n L held) (deleteCharacter E c a i)" by (rule within) (rule within_services)
qed

text \<open>Unchecked, nobody's characters change; once the token was found valid, those of its account.\<close>

definition mayWrite :: "nat \<Rightarrow> Event worker \<Rightarrow> bool \<Rightarrow> (int \<Rightarrow> character_row list) \<Rightarrow> nat list \<Rightarrow> ('w, 'c) world \<Rightarrow> bool" where
  "mayWrite n v checked =
     (case writerOf v of Some d \<Rightarrow> (if checked then only (cd_clientId d) n else nobody n) | None \<Rightarrow> nobody n)"

definition tokenCheck :: "Event worker \<Rightarrow> bool \<Rightarrow> bool \<Rightarrow> ('w, 'c) world \<Rightarrow> bool" where
  "tokenCheck v p q s \<longleftrightarrow> q \<and> (\<exists>d. writerOf v = Some d \<and> tokenValid d s)"

abbreviation writerT :: "nat \<Rightarrow> Event worker \<Rightarrow> ('w, 'c) routine \<Rightarrow> bool" where
  "writerT n v \<equiv> stagedT (mayWrite n v) (tokenCheck v) (\<lambda>q r h. h = []) False []"

lemma nobody_only: "nobody n L h s \<Longrightarrow> only a n L h s"
  unfolding owned.outside_def by (auto simp: liveAs_def)

lemma only_nobody: "only a n L h s \<Longrightarrow> nobody n (\<lambda>b. liveOf b (dbW s)) h s"
  unfolding owned.outside_def by (auto simp: liveAs_def)

lemma mayWrite_weaker: "nobody n L h s \<Longrightarrow> mayWrite n v q L h s"
  by (auto simp: mayWrite_def nobody_only split: option.split)

lemma mayWrite_cases:
  assumes "mayWrite n v q L h s"
  obtains (nobody) "nobody n L h s" | (own) d where "q" "writerOf v = Some d" "only (cd_clientId d) n L h s"
  using assms by (cases "writerOf v"; cases q) (simp_all add: mayWrite_def)

lemma mayWrite_back: "mayWrite n v q L h s \<Longrightarrow> nobody n (\<lambda>b. liveOf b (dbW s)) h s"
  by (erule mayWrite_cases) (rule only_nobody, erule nobody_only, erule only_nobody)

lemma quiet_writer: "steadyT (nobody n) [] t \<Longrightarrow> writerT n v t"
  by (rule staged_safe) (simp add: mayWrite_def option.case_eq_if)

lemma writer_guard:
  assumes w: "writerOf v = Some d" and body: "steadyT (only (cd_clientId d) n) [] body"
  shows "writerT n v (sessionGuardT E et u d body)"
proof (cases "cd_clientId d = 0 \<or> cd_hash d = []")
  case True
  then show ?thesis by (simp add: sessionGuardT_def quiet_writer owners.steady_respond)
next
  case False
  let ?Q = "\<lambda>q r h. h = [] \<and> (\<forall>ok. r = Inr ok \<longrightarrow> q = ok)"
  have "stagedT (mayWrite n v) (tokenCheck v) ?Q False [] (atomT (readS (tokenValid d)))"
    by (rule staged_atom) (auto simp: readS_def tokenCheck_def w)
  then show ?thesis
    unfolding sessionGuardT_def if_not_P [OF False]
    by (rule staged_then)
       (use body in \<open>auto simp: mayWrite_def w intro!: quiet_writer owners.steady_respond staged_safe\<close>)
qed

lemma writer_catch:
  assumes "writerT n v t" and "\<And>e. k e = retT () \<or> k e = throwT e"
  shows "writerT n v (catchT t k)"
proof (rule staged_catch [OF assms(1)])
  show "stagedT (mayWrite n v) (tokenCheck v) (\<lambda>q r h. h = []) q h (k e)" if "h = []" for q e h
    using assms(2) [of e] that by (auto simp: retT_def throwT_def)
qed

lemma writer_task: "writerT n (Running ev) (taskT E ev)"
proof (cases "writerOf (Running ev)")
  case None
  then have "ev_data ev = ED_client d \<Longrightarrow> ev_type ev \<notin> {CREATE_CHARACTER, DELETE_CHARACTER}" for d
    by (auto simp: writerOf_def split: if_splits)
  then have "steadyT (nobody n) [] (taskT E ev)"
    by (cases "ev_type ev \<in> {CREATE_CHARACTER, DELETE_CHARACTER}")
       (blast intro: owners.full_task, blast intro: owners.quiet_task)
  then show ?thesis by (rule quiet_writer)
next
  case (Some d)
  then have d: "ev_type ev \<in> {CREATE_CHARACTER, DELETE_CHARACTER}" "ev_data ev = ED_client d"
    by (auto simp: writerOf_def split: if_splits EventData.splits)
  have "writerT n (Running ev) (createT E ev)" "writerT n (Running ev) (deleteT E ev)"
    unfolding createT_def deleteT_def withClientT_def catchVariantT_def
    by (auto simp: d(2) Let_def
        intro!: writer_catch writer_guard [OF Some] owners.steady_thread_intros own_services)
  then show ?thesis unfolding taskT_def using d(1) by (intro writer_catch) (auto simp: dispatchT_def)
qed

end

sublocale server \<subseteq> writers: stages E "nobody n" "mayWrite n" tokenCheck False for n
proof
  show "nobody n L h' s" if "mset h = mset h'" "nobody n L h s" for L h h' s
    using that owned.tracked_slots by blast
  show "\<exists>y. nobody n y h (s\<lparr>w_net := x\<rparr>)" if "nobody n L h s" for L h s x
    using that by (auto simp: ready_def)
  show "\<exists>y. nobody n y h s" if "mayWrite n v q L h s" for v q L h s
    using mayWrite_back [OF that] by blast
qed (rule mayWrite_weaker, assumption, rule writer_task, rule quiet_writer, rule owners.steady_cleanup)

context server
begin

lemma nobody_start:
  assumes "ready txn n [] w" and "catalogue_ok (dbW w)"
  shows "nobody n (\<lambda>b. liveOf b (dbW w)) [] w"
  using assms unfolding owned.outside_def by (auto simp: liveAs_def ready_def)

lemma checked_token:
  "reached tokenCheck False v seen q \<Longrightarrow> q \<Longrightarrow> \<exists>d s. writerOf v = Some d \<and> (v, s) \<in> set seen \<and> tokenValid d s"
  by (induction rule: reached.induct) (auto simp: tokenCheck_def)

lemma nobody_same: "nobody n L h s \<Longrightarrow> nobody n L h' s' \<Longrightarrow> liveOf a (dbW s') = liveOf a (dbW s)"
  unfolding owned.outside_def by (auto simp: liveAs_def)

lemma only_same: "nobody n L h s \<Longrightarrow> only b n L h' s' \<Longrightarrow> a \<noteq> b \<Longrightarrow> liveOf a (dbW s') = liveOf a (dbW s)"
  unfolding owned.outside_def by (auto simp: liveAs_def)

lemma mayWrite_same:
  assumes "nobody n L h s" and "mayWrite n v q L h' s'"
  shows "liveOf a (dbW s') = liveOf a (dbW s) \<or> q \<and> (\<exists>d. writerOf v = Some d \<and> cd_clientId d = a)"
  using assms(2)
proof (cases rule: mayWrite_cases)
  case nobody
  then show ?thesis using nobody_same [OF assms(1)] by blast
next
  case (own d)
  then show ?thesis using only_same [OF assms(1) own(3), of a] by (cases "cd_clientId d = a") auto
qed

lemma permitted_writes:
  assumes "writers.permitted n seen v s s'"
  shows "liveOf a (dbW s') = liveOf a (dbW s) \<or>
    (\<exists>d s0. writerOf v = Some d \<and> cd_clientId d = a \<and> (v, s0) \<in> set seen \<and> tokenValid d s0)"
proof -
  obtain q L h h' where q: "reached tokenCheck False v seen q" and n: "nobody n L h s" and m: "mayWrite n v q L h' s'"
    using assms unfolding writers.permitted_def by blast
  show ?thesis using mayWrite_same [OF n m, of a] checked_token [OF q] by auto
qed

lemma cserved_owner:
  assumes c: "cserved E ms k w ps seen cs" and r: "ready txn n [] w" "catalogue_ok (dbW w)"
  shows "handlerMove E i cs = Some cs' \<Longrightarrow> liveOf a (dbW (worldOf cs')) = liveOf a (dbW (worldOf cs)) \<or>
      (\<exists>d s0. writerOf (workersOf cs ! i) = Some d \<and> cd_clientId d = a \<and>
         (workersOf cs ! i, s0) \<in> set seen \<and> tokenValid d s0)"
    and "liveOf a (dbW (worldOf (loopMove E ms cs))) = liveOf a (dbW (worldOf cs))"
proof -
  show "liveOf a (dbW (worldOf cs')) = liveOf a (dbW (worldOf cs)) \<or>
      (\<exists>d s0. writerOf (workersOf cs ! i) = Some d \<and> cd_clientId d = a \<and>
         (workersOf cs ! i, s0) \<in> set seen \<and> tokenValid d s0)" if "handlerMove E i cs = Some cs'"
    using writers.worker_stage [OF c nobody_start [OF r] that]
    by (rule disjE) (simp, erule permitted_writes)
  show "liveOf a (dbW (worldOf (loopMove E ms cs))) = liveOf a (dbW (worldOf cs))"
    using writers.loop_stage [OF c nobody_start [OF r]]
  proof
    assume "writers.permitted n seen Waiting (worldOf cs) (worldOf (loopMove E ms cs))"
    from permitted_writes [OF this, of a] show ?thesis by (simp add: writerOf_def)
  qed simp
qed

end

section \<open>The concrete deletion again\<close>

text \<open>A change that a handler makes is made by one of its moves.\<close>

lemma change_has_move:
  assumes "cserved E ms k w ps seen cs" and "cs_handlers cs ! i = t"
    and "i < length (cs_handlers cs)" and "workerStep i (ls_tasks (cs_server cs)) \<noteq> None"
    and "f (snd (runT t (worldOf cs))) \<noteq> f (worldOf cs)"
  shows "\<exists>seen1 cs1 cs2. cserved E ms k w ps seen1 cs1 \<and> handlerMove E i cs1 = Some cs2 \<and>
    workersOf cs1 = workersOf cs \<and> f (worldOf cs1) = f (worldOf cs) \<and> f (worldOf cs2) \<noteq> f (worldOf cs1)"
  using assms
proof (induction t arbitrary: seen cs rule: thread_moves)
  case (More g)
  let ?s = "worldOf cs"
  let ?cs = "setWorld (snd (g ?s)) (cs\<lparr>cs_handlers := (cs_handlers cs)[i := fst (g ?s)]\<rparr>)"
  have m: "handlerMove E i cs = Some ?cs" using More.prems by (auto simp: handlerMove_def split: prod.split)
  show ?case
  proof (cases "f (worldOf ?cs) = f ?s")
    case True
    have "f (snd (runT (fst (g ?s)) (worldOf ?cs))) \<noteq> f (worldOf ?cs)"
      using More.prems(5) True by (simp add: run_more del: runT.simps)
    then have "\<exists>seen1 cs1 cs2. cserved E ms k w ps seen1 cs1 \<and> handlerMove E i cs1 = Some cs2 \<and>
        workersOf cs1 = workersOf ?cs \<and> f (worldOf cs1) = f (worldOf ?cs) \<and> f (worldOf cs2) \<noteq> f (worldOf cs1)"
      by (intro More.IH [OF cserved.Moved [OF More.prems(1) m]]) (use More.prems(3,4) in simp_all)
    then show ?thesis using True by simp
  next
    case False
    then show ?thesis using More.prems(1) m by blast
  qed
qed simp

lemma deletion_move:
  obtains seen cs cs' where "cserved (relServer False) 60000 1 sessionWorld [deletion] seen cs"
    "handlerMove (relServer False) 0 cs = Some cs'" "workersOf cs ! 0 = Running deletion"
    "liveOf 7 (rl_db (w_out (worldOf cs'))) \<noteq> liveOf 7 (rl_db (w_out (worldOf cs)))"
proof -
  obtain st where st: "served (relServer False) 60000 1 sessionWorld [deletion] st" "ls_world st = sessionWorld"
    "tp_workers (ls_tasks st) = [Running deletion]" by (rule one_started [OF sessionWorld_queue])
  then obtain seen cs where c: "cserved (relServer False) 60000 1 sessionWorld [deletion] seen cs"
    "between (relServer False) st cs" using served_cserved by blast
  have "liveOf 7 (rl_db (w_out (snd (runT (taskT (relServer False) deletion) sessionWorld)))) = []"
    by (simp add: run_task runTask_world deletion_deletes)
  moreover have "liveOf 7 (rl_db (w_out sessionWorld)) \<noteq> []"
    by (simp add: liveOf_def sessionWorld_def relWorld_def oneCharacter_def)
  ultimately show ?thesis
    using change_has_move [OF c(1), of 0 _ "\<lambda>s. liveOf 7 (rl_db (w_out s))"] c(2) st that
    by (auto simp: between_def handlerOf_def workerStep_def)
qed

section \<open>Properties\<close>



text \<open>C19: whose characters change while handlers run interleaved: a single move of a worker changes the
  live characters of an account only if it runs a creation or a deletion which a read has pushed, which
  names that account and whose token was found to be the one of the account's session at an earlier
  move of a worker that runs it; a move of the event loop or of its clean-up changes no character.\<close>

theorem only_checked_requests_change_characters:
  assumes "server E Q db txn" and "ready txn n [] w" and "catalogue_ok (db (w_out w))" and "q_items (evq w) = []"
    and "cserved E ms k w ps seen cs" and "handlerMove E i cs = Some cs'"
  shows "(liveOf a (db (w_out (worldOf cs'))) = liveOf a (db (w_out (worldOf cs))) \<or>
      (\<exists>e d s. workersOf cs ! i = Running e \<and> e \<in> set ps \<and> ev_type e \<in> {CREATE_CHARACTER, DELETE_CHARACTER} \<and>
        ev_data e = ED_client d \<and> cd_clientId d = a \<and>
        (Running e, s) \<in> set seen \<and> validateSession a (cd_hash d) (w_sessions s))) \<and>
    liveOf a (db (w_out (worldOf (loopMove E ms cs)))) = liveOf a (db (w_out (worldOf cs)))"
proof
  show "liveOf a (db (w_out (worldOf (loopMove E ms cs)))) = liveOf a (db (w_out (worldOf cs)))"
    by (rule server.cserved_owner(2) [OF assms(1,5,2,3)])
  from server.cserved_owner(1) [OF assms(1,5,2,3,6), of a]
  show "liveOf a (db (w_out (worldOf cs'))) = liveOf a (db (w_out (worldOf cs))) \<or>
      (\<exists>e d s. workersOf cs ! i = Running e \<and> e \<in> set ps \<and> ev_type e \<in> {CREATE_CHARACTER, DELETE_CHARACTER} \<and>
        ev_data e = ED_client d \<and> cd_clientId d = a \<and>
        (Running e, s) \<in> set seen \<and> validateSession a (cd_hash d) (w_sessions s))"
    using running_pushed [OF assms(5,4) handlerMove_index [OF assms(6)]]
    by (auto simp: writerOf_def split: worker.splits if_splits EventData.splits)
qed

theorem only_checked_requests_change_characters_witness:
  "\<exists>seen cs cs' d s. cserved (relServer False) 60000 1 sessionWorld [deletion] seen cs \<and>
     handlerMove (relServer False) 0 cs = Some cs' \<and>
     liveOf 7 (rl_db (w_out (worldOf cs'))) \<noteq> liveOf 7 (rl_db (w_out (worldOf cs))) \<and>
     ev_data deletion = ED_client d \<and> (Running deletion, s) \<in> set seen \<and> validateSession 7 (cd_hash d) (w_sessions s)"
proof -
  obtain seen cs cs' where c: "cserved (relServer False) 60000 1 sessionWorld [deletion] seen cs"
    "handlerMove (relServer False) 0 cs = Some cs'" "workersOf cs ! 0 = Running deletion"
    "liveOf 7 (rl_db (w_out (worldOf cs'))) \<noteq> liveOf 7 (rl_db (w_out (worldOf cs)))" by (rule deletion_move)
  from only_checked_requests_change_characters [OF rel_server.server_axioms sessionWorld_ready sessionWorld_catalogue
      sessionWorld_idle c(1,2), of 7] c(3,4)
  obtain d s where "ev_data deletion = ED_client d" "(Running deletion, s) \<in> set seen"
    "validateSession 7 (cd_hash d) (w_sessions s)" by auto
  then show ?thesis using c by blast
qed

end
