(* ===== verification/Admission.thy ===== *)
theory Admission
  imports Ownership
begin

text \<open>
  Who gets a session while handlers run interleaved: a token enters the registry of \<open>Sessions\<close> only at the
  end of a login that has checked the password and the ban, or of a registration that has found the
  login free and made the account; everybody else may only take sessions out.
\<close>

section \<open>Credentials\<close>

definition tokenOf :: "int \<Rightarrow> ('w, 'c) world \<Rightarrow> string option" where
  "tokenOf a s = map_option cd_hash (map_of (w_sessions s) a)"

text \<open>What a transaction that begins in \<open>s\<close> can find.\<close>

definition rightLogin :: "('w, 'c) senv \<Rightarrow> ('w \<Rightarrow> dbase) \<Rightarrow> ClientDataStruct \<Rightarrow> int \<Rightarrow> ('w, 'c) world \<Rightarrow> bool" where
  "rightLogin E db d a s \<longleftrightarrow>
     (\<exists>u e. snapshotOf (db (w_out s)) e \<and> mayLogin u (cd_login d) e \<and> rightPassword (se_evp E) (cd_password d) u \<and> u_id u = a)"

definition notBanned :: "('w \<Rightarrow> dbase) \<Rightarrow> int \<Rightarrow> ('w, 'c) world \<Rightarrow> bool" where
  "notBanned db a s \<longleftrightarrow> (\<exists>e. snapshotOf (db (w_out s)) e \<and> \<not> banned a e)"

definition freeLogin :: "sql_env \<Rightarrow> ('w \<Rightarrow> dbase) \<Rightarrow> RegistrationDataStruct \<Rightarrow> ('w, 'c) world \<Rightarrow> bool" where
  "freeLogin Q db reg s \<longleftrightarrow> validateRegistration (reg_login reg) (reg_password reg) (reg_email reg) = REG_OK \<and>
     (\<forall>u \<in> set (d_users (db (w_out s))). sql_lower Q (u_login u) \<noteq> sql_lower Q (reg_login reg))"

definition newAccount :: "('w \<Rightarrow> dbase) \<Rightarrow> int \<Rightarrow> ('w, 'c) world \<Rightarrow> bool" where
  "newAccount db a s \<longleftrightarrow> (\<exists>e. snapshotOf (db (w_out s)) e \<and> a = sq_users (d_seq e))"

lemma newAccount_id: "newAccount db a s \<Longrightarrow> tables_ok (db (w_out s)) \<Longrightarrow> a \<notin> u_id ` set (d_users (db (w_out s)))"
proof -
  assume "newAccount db a s" and t: "tables_ok (db (w_out s))"
  then obtain e where e: "snapshotOf (db (w_out s)) e" "a = sq_users (d_seq e)" by (auto simp: newAccount_def)
  then have "d_users e = d_users (db (w_out s))" by (auto simp: snapshotOf_def)
  then show ?thesis using snapshot_tables [OF t e(1)] e(2) by (auto simp: tables_ok_def keyed_def)
qed

text \<open>How far a handler has come.\<close>

datatype standing = Nobody | Known int | Free | Cleared int

section \<open>Moves that let nobody in\<close>

text \<open>The accounts \<open>B\<close> have the tokens \<open>L\<close>, or none.\<close>

definition entrants :: "int set \<Rightarrow> (int \<Rightarrow> string option) \<Rightarrow> nat list \<Rightarrow> ('w, 'c) world \<Rightarrow> bool" where
  "entrants B L h s \<longleftrightarrow> dkeys (w_sessions s) \<and> (\<forall>b \<in> B. tokenOf b s = None \<or> tokenOf b s = L b)"

lemma entrants_conserves: "conserves w_sessions m \<Longrightarrow> keeps (entrants B L h) m"
  by (simp add: conserves_def keeps_def entrants_def tokenOf_def)

lemma entrants_sessions:
  assumes "\<And>m. dkeys m \<Longrightarrow> dkeys (f m)"
    and "\<And>m b. dkeys m \<Longrightarrow> b \<in> B \<Longrightarrow>
      map_option cd_hash (map_of (f m) b) \<in> {None, map_option cd_hash (map_of m b)}"
  shows "keeps (entrants B L h) (onSessions f)"
proof (rule keepsI)
  fix s :: "('w, 'c) world" assume s: "entrants B L h s"
  then have "tokenOf b (s\<lparr>w_sessions := f (w_sessions s)\<rparr>) \<in> {None, tokenOf b s}" if "b \<in> B" for b
    using assms(2) [OF _ that, of "w_sessions s"] by (simp add: tokenOf_def entrants_def)
  then show "entrants B L h (snd (onSessions f s))"
    using s assms(1) unfolding entrants_def onSessions_def updS_def by fastforce
qed

lemma entrants_touch: "keeps (entrants B L h) (onSessions (\<lambda>m. snd (touchSession t k now m)))"
proof (rule entrants_sessions)
  show "dkeys (snd (touchSession t k now m))" if "dkeys m" for m
    using that by (simp add: touchSession_def Let_def split: option.split)
  show "map_option cd_hash (map_of (snd (touchSession t k now m)) b) \<in> {None, map_option cd_hash (map_of m b)}" for m b
    by (cases "map_of m k") (simp_all add: map_of_touch)
qed

lemma entrants_remove: "keeps (entrants B L h) (onSessions (\<lambda>m. snd (removeClientData k m)))"
proof (rule entrants_sessions)
  show "dkeys (snd (removeClientData k m))" if "dkeys m" for m
    using that by (simp add: removeClientData_def split: option.split)
qed simp

lemma entrants_sweep: "keeps (entrants B L h) (onSessions (\<lambda>m. snd (sweepExpiredSessions t ttl m)))"
proof (rule entrants_sessions)
  show "dkeys (snd (sweepExpiredSessions t ttl m))" if "dkeys m" for m
    using that by (simp add: sweepExpiredSessions_def sweepLoop_eq)
qed (simp add: map_of_sweep split: option.splits)

lemma entrants_store:
  assumes "cd_clientId d \<notin> B"
  shows "keeps (entrants B L h) (onSessions (storeClientData t d))"
proof (rule entrants_sessions)
  show "dkeys (storeClientData t d m)" if "dkeys m" for m using that by (simp add: storeClientData_def Let_def)
  show "map_option cd_hash (map_of (storeClientData t d m) b) \<in> {None, map_option cd_hash (map_of m b)}" if "b \<in> B" for m b
    using assms that by (auto simp: map_of_store)
qed

lemma conserves_sessions [simp]:
  "conserves w_sessions (onNet m)" "conserves w_sessions (onOut m')" "conserves w_sessions (tickW g)"
  "conserves w_sessions (exec_prepared E c q)" "conserves w_sessions (commitT E c)" "conserves w_sessions (abortT E c)"
  "conserves w_sessions (acquireW E)" "conserves w_sessions (guardGet k)"
  by (auto simp: conserves_def onNet_def onOut_def tickW_def exec_prepared_def commitT_def abortT_def acquireW_def
      guardGet_def andThen_def split: prod.split sum.split option.split)

lemma sessions_work: "conserves w_sessions body \<Longrightarrow> conserves w_sessions (withWork E c body)"
  unfolding withWork_def by (auto intro!: conserves_andThen conserves_scopeExit)

lemma sessions_segment: "conserves w_sessions m \<Longrightarrow> conserves w_sessions (segment E c m)"
  unfolding segment_def by (intro conserves_andThen conserves_onError) (simp_all add: closeW_def)

lemmas sessions_intros = conserves_andThen conserves_tryCatch conserves_if sessions_work conserves_mapE

lemma sessions_services [simp]:
  "conserves w_sessions (loginPhase E c login pw ip ver)" "conserves w_sessions (rotateTokens E c u hash ver)"
  "conserves w_sessions (insertAccount E c login pw email ip ver)" "conserves w_sessions (readOptions E c)"
  "conserves w_sessions (checkBan E c u)" "conserves w_sessions (checkLogin E c login)"
  "conserves w_sessions (hashPasswordW E pw)"
  unfolding loginPhase_def rotateTokens_def insertAccount_def readOptions_def checkBan_def checkLogin_def
    probeStatus_def hashPasswordW_def
  by (auto simp: Let_def intro!: sessions_intros split: option.split)

lemma sessions_characters [simp]:
  "conserves w_sessions (getCharactersList E c a)" "conserves w_sessions (getCharacterEquipmentPreview E c i)"
  "conserves w_sessions (deleteCharacter E c a i)"
  "conserves w_sessions (createCharacter E c a name cls race gender)"
proof -
  have init: "conserves w_sessions (initCharacter E c i cls)" for i
    unfolding initCharacter_def execIf_def by (auto intro!: sessions_intros)
  show "conserves w_sessions (createCharacter E c a name cls race gender)"
    unfolding createCharacter_def insertCharacterRow_def by (auto simp: Let_def intro!: sessions_intros init)
qed (auto simp: getCharactersList_def getCharacterEquipmentPreview_def deleteCharacter_def
       intro!: sessions_intros split: option.split prod.split)

section \<open>Threads that let nobody in\<close>

abbreviation calmT :: "int set \<Rightarrow> (('w, 'c) world, 'a) thread \<Rightarrow> bool" where
  "calmT B \<equiv> steadyT (entrants B) []"

lemma calm_atom: "conserves w_sessions m \<Longrightarrow> calmT B (atomT m)"
  by (intro steady_atom entrants_conserves)

lemma calm_sessions:
  "calmT B (atomT (onSessions (\<lambda>m. snd (touchSession t k now m))))"
  "calmT B (atomT (onSessions (\<lambda>m. snd (removeClientData k m))))"
  "calmT B (atomT (onSessions (\<lambda>m. snd (sweepExpiredSessions t ttl m))))"
  by (intro steady_atom entrants_touch entrants_remove entrants_sweep)+

lemma entrants_frame:
  "entrants B L h s \<Longrightarrow> entrants B L h (closeW E c s)" "entrants B L h s \<Longrightarrow> entrants B L h (releaseW k s)"
  by (simp_all add: entrants_def tokenOf_def closeW_def releaseW_def)

lemma calm_finally:
  "calmT B t \<Longrightarrow> calmT B (finallyT t (closeW E c))" "calmT B t \<Longrightarrow> calmT B (finallyT t (releaseW k))"
  by (erule steady_finally, erule entrants_frame)+

lemma calm_work: "conserves w_sessions m \<Longrightarrow> (\<And>x. calmT B (f x)) \<Longrightarrow> calmT B (workT E c m f)"
  unfolding workT_def by (intro steady_then calm_atom sessions_segment calm_finally)

lemma calm_guard: "(\<And>k. calmT B (body k)) \<Longrightarrow> calmT B (guardT E body)"
  unfolding guardT_def by (intro steady_then calm_atom calm_finally) simp_all

lemma calm_respond: "calmT B (respondT E so st b)"
  unfolding respondT_def by (intro steady_then calm_atom) simp_all

lemma calm_wrappers:
  "calmT B t \<Longrightarrow> calmT B (catchVariantT t)" "(\<And>d. calmT B (f d)) \<Longrightarrow> calmT B (withClientT ev f)"
  "calmT B t \<Longrightarrow> calmT B (sessionGuardT E et u d t)"
  by (auto simp: catchVariantT_def withClientT_def sessionGuardT_def
      intro!: steady_catch steady_then calm_atom calm_respond split: EventData.split)

lemmas calm_threads = steady_intros calm_atom calm_sessions calm_finally calm_work calm_guard calm_respond calm_wrappers
  conserves_mapE conserves_andThen

lemma calm_store:
  assumes "cd_clientId d \<notin> B"
  shows "calmT B (storeSessionT E d)"
  unfolding storeSessionT_def by (intro steady_then calm_atom steady_atom entrants_store assms) simp_all

lemma calm_handlers:
  "calmT B (pingT E ev)" "calmT B (listT E ev)" "calmT B (createT E ev)" "calmT B (deleteT E ev)"
  "calmT B (optionsT E ev)" "calmT B (disconnectT E ev)"
proof -
  show "calmT B (pingT E ev)" by (auto simp: pingT_def intro!: calm_threads split: option.split)
  show "calmT B (listT E ev)"
    by (auto simp: listT_def listCharactersT_def characterJsonT_def intro!: calm_threads split: option.split)
  show "calmT B (createT E ev)" "calmT B (deleteT E ev)"
    by (auto simp: createT_def deleteT_def Let_def intro!: calm_threads)
  show "calmT B (optionsT E ev)" by (auto simp: optionsT_def creationOptionsT_def intro!: calm_threads)
  show "calmT B (disconnectT E ev)" by (auto simp: disconnectT_def broadcastT_def intro!: calm_threads)
qed

lemma calm_cleanup: "calmT B (cleanupT E ms)"
  unfolding cleanupT_def by (auto intro!: calm_threads)

section \<open>What the first transactions of a login and a registration find\<close>

context server
begin

lemma segment_finds:
  assumes "txn (w_out s) = Map.empty" and "segment E c m s = (Inr x, t)"
    and "\<And>w d. txn w = [c \<mapsto> d] \<Longrightarrow> db w = dbW s \<Longrightarrow> snapshotOf (dbW s) d \<Longrightarrow>
      wp m (\<lambda>r t. \<forall>x. r = Inr x \<longrightarrow> R x) (s\<lparr>w_out := w\<rparr>)"
  shows "R x"
proof -
  have "wp (segment E c m) (\<lambda>r t. \<forall>x. r = Inr x \<longrightarrow> R x) s"
    unfolding segment_def wp_andThen wp_onOut
  proof (rule begin_wp [OF assms(1)])
    fix w d assume w: "db w = dbW s" "txn w = [c \<mapsto> d]" "snapshotOf (dbW s) d"
    show "case Inr () of Inl e \<Rightarrow> \<forall>x. Inl e = Inr x \<longrightarrow> R x
        | Inr y \<Rightarrow> wp (onError m (closeW E c)) (\<lambda>r t. \<forall>x. r = Inr x \<longrightarrow> R x) (s\<lparr>w_out := w\<rparr>)"
      using assms(3) [OF w(2,1,3)]
      by (cases "m (s\<lparr>w_out := w\<rparr>)"; cases "fst (m (s\<lparr>w_out := w\<rparr>))") (simp_all add: wp_def onError_def)
  qed simp
  then show ?thesis by (simp add: wp_def assms(2))
qed

lemma login_finds:
  assumes "txn (w_out s) = Map.empty"
    and "segment E c (loginPhase E c login pw ip ver) s = (Inr (Inr (a, role)), t)"
  shows "\<exists>u e. snapshotOf (dbW s) e \<and> mayLogin u login e \<and> rightPassword (se_evp E) pw u \<and> u_id u = a"
proof -
  let ?R = "\<lambda>x. case x of Inl o' \<Rightarrow> True | Inr (a, role :: int) \<Rightarrow>
    \<exists>u e. snapshotOf (dbW s) e \<and> mayLogin u login e \<and> rightPassword (se_evp E) pw u \<and> u_id u = a"
  have "?R (Inr (a, role) :: AuthOutcome + int \<times> int)"
  proof (rule segment_finds [OF assms])
    fix w d assume w: "txn w = [c \<mapsto> d]" "db w = dbW s" "snapshotOf (dbW s) d"
    show "wp (loginPhase E c login pw ip ver) (\<lambda>r t. \<forall>x. r = Inr x \<longrightarrow> ?R x) (s\<lparr>w_out := w\<rparr>)"
    proof (cases "search_user login d = []")
      case True
      then show ?thesis unfolding loginPhase_def using w
        by (auto simp: wp_simps intro!: exec_prepared_wp abortT_wp probe_wp)
    next
      case False
      then obtain u where u: "mayLogin u login d" "search_user login d = [userRow u]"
        using search_user_found by blast
      have found: "\<exists>v e. snapshotOf (dbW s) e \<and> mayLogin v login e \<and> rightPassword (se_evp E) pw v \<and> u_id v = u_id u"
        if "hashPassword (se_evp E) k pw = Inr (u_password u)" for k
        using u(1) w(3) that by (auto simp: rightPassword_def)
      show ?thesis unfolding loginPhase_def hashPasswordW_def using w u(2)
        by (auto simp: wp_simps userRow_cols Let_def intro!: exec_prepared_wp commitT_wp found split: sum.split if_splits)
    qed
  qed
  then show ?thesis by simp
qed

lemma ban_finds: "txn (w_out s) = Map.empty \<Longrightarrow> checkBan E c a s = (Inr None, t) \<Longrightarrow> notBanned db a s"
  using wpD [OF checkBan_wp] by (fastforce simp: notBanned_def)

lemma check_finds:
  assumes "txn (w_out s) = Map.empty" and "checkLogin E c login s = (Inr False, t)"
  shows "\<forall>u \<in> set (d_users (dbW s)). sql_lower Q (u_login u) \<noteq> sql_lower Q login"
proof -
  have "wp (checkLogin E c login) (\<lambda>r t. r = Inr False \<longrightarrow>
      (\<forall>u \<in> set (d_users (dbW s)). sql_lower Q (u_login u) \<noteq> sql_lower Q login)) s"
    unfolding checkLogin_def using assms(1)
    by (auto simp: wp_simps check_login_available_def filter_empty_conv snapshotOf_def
        intro!: withWork_wp exec_prepared_wp abortT_wp)
  then show ?thesis by (simp add: wp_def assms(2))
qed

lemma insert_finds:
  assumes "txn (w_out s) = Map.empty"
    and "segment E c (insertAccount E c login pw email ip ver) s = (Inr (Some (a, token)), t)"
  shows "newAccount db a s"
proof -
  let ?R = "\<lambda>x. case x of None \<Rightarrow> True | Some (a, token :: string) \<Rightarrow> newAccount db a s"
  have "?R (Some (a, token))"
  proof (rule segment_finds [OF assms])
    fix w d assume "txn w = [c \<mapsto> d]" "db w = dbW s" "snapshotOf (dbW s) d"
    then show "wp (insertAccount E c login pw email ip ver) (\<lambda>r t. \<forall>x. r = Inr x \<longrightarrow> ?R x) (s\<lparr>w_out := w\<rparr>)"
      unfolding insertAccount_def rotateTokens_def
      by (auto simp: wp_simps register_user_def Let_def col_defs newAccount_def
          intro!: exec_prepared_wp commitT_wp abortT_wp split: sum.split if_splits)
  qed
  then show ?thesis by simp
qed

end

section \<open>The stages of a login and of a registration\<close>

fun barred :: "standing \<Rightarrow> int set" where
  "barred (Cleared a) = - {a}"
| "barred q = UNIV"

context server
begin

text \<open>What a move must find for the standing to change.\<close>

definition credential :: "Event worker \<Rightarrow> standing \<Rightarrow> standing \<Rightarrow> ('w, 'c) world \<Rightarrow> bool" where
  "credential v p q s \<longleftrightarrow>
     (case (p, q) of
        (Nobody, Known a) \<Rightarrow>
          \<exists>ev d. v = Running ev \<and> ev_type ev = AUTH_CLIENT \<and> ev_data ev = ED_client d \<and>
            (txn (w_out s) = Map.empty \<longrightarrow> rightLogin E db d a s)
      | (Known a, Cleared b) \<Rightarrow> b = a \<and> (txn (w_out s) = Map.empty \<longrightarrow> notBanned db a s)
      | (Nobody, Free) \<Rightarrow>
          \<exists>ev reg. v = Running ev \<and> ev_type ev = REGISTER_ACCOUNT \<and> ev_data ev = ED_registration reg \<and>
            (txn (w_out s) = Map.empty \<longrightarrow> freeLogin Q db reg s)
      | (Free, Cleared a) \<Rightarrow> txn (w_out s) = Map.empty \<longrightarrow> newAccount db a s
      | _ \<Rightarrow> False)"

abbreviation entryT ::
  "Event worker \<Rightarrow> (standing \<Rightarrow> exn + 'a \<Rightarrow> bool) \<Rightarrow> standing \<Rightarrow> (('w, 'c) world, 'a) thread \<Rightarrow> bool" where
  "entryT v R q \<equiv> stagedT (\<lambda>q. entrants (barred q)) (credential v) (\<lambda>q r h. h = [] \<and> R q r) q []"

abbreviation entersT :: "Event worker \<Rightarrow> standing \<Rightarrow> (('w, 'c) world, 'a) thread \<Rightarrow> bool" where
  "entersT v q \<equiv> stagedT (\<lambda>q. entrants (barred q)) (credential v) (\<lambda>q r h. h = []) q []"

lemma calm_entry:
  assumes "calmT (barred q) t" and "\<And>r. R q r"
  shows "entryT v R q t"
  by (rule staged_safe, rule safeT_mono [OF assms(1)]) (simp add: assms(2))

lemma calm_enters: "calmT (barred q) t \<Longrightarrow> entersT v q t"
  by (rule staged_safe)

lemma entry_then:
  assumes "entryT v R q t" and "\<And>q x. R q (Inr x) \<Longrightarrow> entersT v q (f x)"
  shows "entersT v q (thenT t f)"
  by (rule staged_then [OF assms(1)]) (use assms(2) in auto)

lemma entry_after: "calmT (barred q) t \<Longrightarrow> (\<And>x. entersT v q (f x)) \<Longrightarrow> entersT v q (thenT t f)"
  by (rule entry_then [where R = "\<lambda>p r. p = q"]) (auto intro: calm_entry)

lemma entry_before: "entersT v q t \<Longrightarrow> (\<And>q x. calmT (barred q) (f x)) \<Longrightarrow> entersT v q (thenT t f)"
  by (erule staged_then) (auto intro: calm_enters)

lemma entry_catch: "entersT v q t \<Longrightarrow> (\<And>q e. calmT (barred q) (k e)) \<Longrightarrow> entersT v q (catchT t k)"
  by (erule staged_catch) (auto intro: calm_enters)

lemma entry_finally:
  "entersT v q t \<Longrightarrow> entersT v q (finallyT t (closeW E c))" "entersT v q t \<Longrightarrow> entersT v q (finallyT t (releaseW k))"
  by (erule staged_finally, simp add: entrants_frame)+

lemma entry_atom:
  assumes "conserves w_sessions m" and "\<And>s r s'. m s = (r, s') \<Longrightarrow> \<exists>p. (p = q \<or> credential v q p s) \<and> R p r"
  shows "entryT v R q (atomT m)"
proof (rule staged_atom)
  fix L o' s r s' assume "entrants (barred q) L ([] @ o') s" and m: "m s = (r, s')"
  then have "entrants (barred q) L ([] @ o') s'"
    using keepsD [OF entrants_conserves [OF assms(1)]] by (metis snd_conv)
  then show "\<exists>h' q'. entrants (barred q) L (h' @ o') s' \<and> (q' = q \<or> credential v q q' s) \<and> h' = [] \<and> R q' r"
    using assms(2) [OF m] by blast
qed

lemma entry_admit: "entersT v (Known a) (admitUserT E c a login role ver)"
  unfolding admitUserT_def
proof (rule entry_then)
  show "entryT v (\<lambda>q r. r = Inr None \<longrightarrow> q = Cleared a) (Known a) (atomT (checkBan E c a))"
  proof (rule entry_atom)
    fix s r s' assume m: "checkBan E c a s = (r, s')"
    show "\<exists>p. (p = Known a \<or> credential v (Known a) p s) \<and> (r = Inr None \<longrightarrow> p = Cleared a)"
      by (cases "r = Inr None") (use m ban_finds in \<open>auto simp: credential_def\<close>)
  qed simp
  fix q :: standing and ban :: "AuthOutcome option" assume q: "Inr ban = Inr None \<longrightarrow> q = Cleared a"
  have "calmT (- {a}) (openSessionT E c a login role ver)"
    unfolding openSessionT_def by (auto intro!: calm_threads calm_store)
  then show "entersT v q (case ban of Some b \<Rightarrow> retT b | None \<Rightarrow> openSessionT E c a login role ver)"
    using q by (auto intro!: calm_enters split: option.split)
qed

lemma entry_authenticate:
  assumes "ev_type ev = AUTH_CLIENT" and "ev_data ev = ED_client d"
  shows "entersT (Running ev) Nobody (authenticateT E c (cd_login d) (cd_password d) ip ver)"
  unfolding authenticateT_def workT_def
proof (rule entry_catch [OF entry_then])
  let ?m = "segment E c (loginPhase E c (cd_login d) (cd_password d) ip ver)"
  let ?R = "\<lambda>q (r :: exn + AuthOutcome + int \<times> int). \<forall>a role. r = Inr (Inr (a, role)) \<longrightarrow> q = Known a"
  show "entryT (Running ev) ?R Nobody (atomT ?m)"
  proof (rule entry_atom)
    fix s r s' assume m: "?m s = (r, s')"
    show "\<exists>p. (p = Nobody \<or> credential (Running ev) Nobody p s) \<and> ?R p r"
    proof (cases "\<exists>a role. r = Inr (Inr (a, role))")
      case True
      then obtain a role where r: "r = Inr (Inr (a, role))" by blast
      have "credential (Running ev) Nobody (Known a) s"
        using assms login_finds m r by (auto simp: credential_def rightLogin_def)
      then show ?thesis using r by auto
    qed auto
  qed (simp add: sessions_segment)
  fix q x assume "?R q (Inr x)"
  then show "entersT (Running ev) q (finallyT (case x of Inl o' \<Rightarrow> retT o'
      | Inr (userID, role) \<Rightarrow> admitUserT E c userID (cd_login d) role ver) (closeW E c))"
    by (intro entry_finally) (auto intro: calm_enters entry_admit split: sum.split)
qed simp

lemma entry_create:
  "entersT v Free (createAccountT E c login ph email ip ver u h)"
  unfolding createAccountT_def workT_def
proof (rule entry_then)
  let ?R = "\<lambda>q (r :: exn + (int \<times> string) option). \<forall>a token. r = Inr (Some (a, token)) \<longrightarrow> q = Cleared a"
  let ?m = "segment E c (insertAccount E c login ph email ip ver)"
  show "entryT v ?R Free (atomT ?m)"
  proof (rule entry_atom)
    fix s r s' assume m: "?m s = (r, s')"
    show "\<exists>p. (p = Free \<or> credential v Free p s) \<and> ?R p r"
    proof (cases "\<exists>a token. r = Inr (Some (a, token))")
      case True
      then obtain a token where r: "r = Inr (Some (a, token))" by blast
      have "credential v Free (Cleared a) s" using insert_finds m r by (auto simp: credential_def)
      then show ?thesis using r by auto
    qed auto
  qed (simp add: sessions_segment)
  fix q x assume "?R q (Inr x)"
  then show "entersT v q (finallyT (case x of None \<Rightarrow> retT (REG_ERR_DB, u, h)
      | Some (userId, sessionHash) \<Rightarrow> thenT (storeSessionT E (newClient\<lparr>cd_clientId := userId, cd_login := login,
          cd_hash := sessionHash, cd_clientVersion := ver\<rparr>)) (\<lambda>_. retT (REG_OK, userId, sessionHash))) (closeW E c))"
    by (intro entry_finally) (auto intro!: calm_enters calm_threads calm_store split: option.split)
qed

lemma entry_register:
  assumes "ev_type ev = REGISTER_ACCOUNT" and "ev_data ev = ED_registration reg"
  shows "entersT (Running ev) Nobody (registerAccountT E c (reg_login reg) (reg_password reg) (reg_email reg) ip ver u h)"
proof (cases "validateRegistration (reg_login reg) (reg_password reg) (reg_email reg) = REG_OK")
  case True
  let ?m = "checkLogin E c (reg_login reg)" and ?R = "\<lambda>q r. r = Inr False \<longrightarrow> q = Free"
  have check: "entryT (Running ev) ?R Nobody (atomT ?m)"
  proof (rule entry_atom)
    fix s r s' assume m: "?m s = (r, s')"
    show "\<exists>p. (p = Nobody \<or> credential (Running ev) Nobody p s) \<and> ?R p r"
    proof (cases "r = Inr False")
      case r: True
      have "credential (Running ev) Nobody Free s"
        using assms True check_finds m r by (auto simp: credential_def freeLogin_def)
      then show ?thesis by auto
    qed auto
  qed simp
  show ?thesis
    unfolding registerAccountT_def Let_def if_not_P [OF not_not [THEN iffD2, OF True]]
  proof (rule entry_catch [OF entry_then [OF check]])
    fix q taken assume "Inr taken = Inr False \<longrightarrow> q = Free"
    then show "entersT (Running ev) q (if taken then retT (ERR_LOGIN_TAKEN, u, h)
        else thenT (atomT (hashPasswordW E (reg_password reg))) (\<lambda>passwordHash.
          createAccountT E c (reg_login reg) passwordHash (reg_email reg) (if ip = [] then ''127.0.0.1'' else ip) ver u h))"
      by (cases taken) (simp_all add: calm_enters entry_after calm_atom entry_create)
  qed simp
next
  case False
  then show ?thesis by (simp add: registerAccountT_def calm_enters)
qed

lemma entry_login:
  assumes "ev_type ev = AUTH_CLIENT"
  shows "entersT (Running ev) Nobody (loginT E ev)"
proof (cases "ev_data ev")
  case (ED_client d)
  have ip: "calmT B (clientIpT E so)" for B so
    unfolding clientIpT_def by (auto intro!: calm_threads split: option.split)
  have client: "entersT (Running ev) Nobody (authenticateClientT E k d)" for k
    unfolding authenticateClientT_def
    by (intro entry_after [OF ip] entry_after [OF calm_atom] entry_before [OF entry_authenticate] assms ED_client)
       (auto intro!: calm_threads)
  have slot: "calmT UNIV (catchT (thenT (atomT (acquireW E)) (\<lambda>k. retT (Some k)))
      (\<lambda>ex. thenT (respondT E so st b) (\<lambda>_. retT None)))" for so st b
    by (intro calm_threads) simp_all
  show ?thesis
    unfolding loginT_def catchVariantT_def withClientT_def ED_client EventData.case
    by (rule entry_catch, rule entry_after)
       (auto simp: slot intro!: calm_enters entry_finally client split: option.split)
qed (simp_all add: loginT_def withClientT_def catchVariantT_def calm_enters calm_threads)

lemma entry_registration:
  assumes "ev_type ev = REGISTER_ACCOUNT"
  shows "entersT (Running ev) Nobody (registerT E ev)"
proof (cases "ev_data ev")
  case (ED_registration reg)
  have "entersT (Running ev) Nobody (registerClientT E reg)"
    unfolding registerClientT_def guardT_def
    by (intro entry_after [OF calm_atom] entry_finally entry_before [OF entry_register] assms ED_registration)
       (auto intro!: calm_threads)
  then show ?thesis
    unfolding registerT_def ED_registration EventData.case by (rule entry_catch) (auto intro!: calm_threads)
qed (simp_all add: registerT_def calm_enters)

lemma entry_task: "entersT (Running ev) Nobody (taskT E ev)"
proof -
  have "entersT (Running ev) Nobody (dispatchT E ev)"
    by (cases "ev_type ev") (simp_all add: dispatchT_def calm_enters calm_handlers entry_login entry_registration)
  then show ?thesis unfolding taskT_def by (rule entry_catch) simp
qed

end

sublocale server \<subseteq> entries: stages E "entrants UNIV" "\<lambda>v q. entrants (barred q)" credential Nobody
proof
  show "\<exists>y. entrants UNIV y h s" if "entrants (barred q) L h s" for q L h s
    using that by (intro exI [of _ "\<lambda>a. tokenOf a s"]) (simp add: entrants_def)
  show "stagedT (\<lambda>q. entrants (barred q)) (credential (Running ev)) (\<lambda>q r h. h = []) Nobody [] (taskT E ev)" for ev
    by (rule entry_task)
  show "stagedT (\<lambda>q. entrants (barred q)) (credential Waiting) (\<lambda>q r h. h = []) Nobody [] (cleanupT E ms)" for ms
    by (rule calm_enters) (rule calm_cleanup)
qed (auto simp: entrants_def tokenOf_def)

section \<open>Who has entered\<close>

text \<open>
  The worker that runs \<open>e\<close> has found, at one of its moves, a user \<open>a\<close> who may log in and has the password
  of the request, and at one of its moves no ban on \<open>a\<close>; or the login of the request free up to case, and
  \<open>a\<close> the number of no user.
\<close>

definition loggedIn :: "('w, 'c) senv \<Rightarrow> ('w \<Rightarrow> dbase) \<Rightarrow> ('w, 'c) history \<Rightarrow> Event \<Rightarrow> int \<Rightarrow> bool" where
  "loggedIn E db seen e a \<longleftrightarrow> ev_type e = AUTH_CLIENT \<and>
     (\<exists>d s t. ev_data e = ED_client d \<and> (Running e, s) \<in> set seen \<and> rightLogin E db d a s \<and>
        (Running e, t) \<in> set seen \<and> notBanned db a t)"

definition signedUp :: "sql_env \<Rightarrow> ('w \<Rightarrow> dbase) \<Rightarrow> ('w, 'c) history \<Rightarrow> Event \<Rightarrow> int \<Rightarrow> bool" where
  "signedUp Q db seen e a \<longleftrightarrow> ev_type e = REGISTER_ACCOUNT \<and>
     (\<exists>reg s t. ev_data e = ED_registration reg \<and> (Running e, s) \<in> set seen \<and> freeLogin Q db reg s \<and>
        (Running e, t) \<in> set seen \<and> a \<notin> u_id ` set (d_users (db (w_out t))))"

context server
begin

definition earned :: "('w, 'c) history \<Rightarrow> Event worker \<Rightarrow> standing \<Rightarrow> bool" where
  "earned seen v q \<longleftrightarrow>
     (case q of
        Nobody \<Rightarrow> True
      | Known a \<Rightarrow> \<exists>e d s. v = Running e \<and> ev_type e = AUTH_CLIENT \<and> ev_data e = ED_client d \<and>
          (v, s) \<in> set seen \<and> rightLogin E db d a s
      | Free \<Rightarrow> \<exists>e reg s. v = Running e \<and> ev_type e = REGISTER_ACCOUNT \<and> ev_data e = ED_registration reg \<and>
          (v, s) \<in> set seen \<and> freeLogin Q db reg s
      | Cleared a \<Rightarrow> \<exists>e. v = Running e \<and> (loggedIn E db seen e a \<or> signedUp Q db seen e a))"

lemma earned_more: "earned seen v q \<Longrightarrow> earned (seen @ [p]) v q"
  unfolding earned_def loggedIn_def signedUp_def by (cases q) (simp_all, blast+)

lemma earned_check:
  assumes "earned seen v q" and "credential v q q' s" and "txn (w_out s) = Map.empty" and "tables_ok (dbW s)"
  shows "earned (seen @ [(v, s)]) v q'"
proof (cases q)
  case (Known a)
  then show ?thesis using assms(1-3)
    by (cases q') (auto simp: credential_def earned_def loggedIn_def)
next
  case Free
  show ?thesis
  proof (cases q')
    case (Cleared a)
    then have "a \<notin> u_id ` set (d_users (dbW s))"
      using assms(2-4) Free by (intro newAccount_id) (simp_all add: credential_def)
    moreover obtain e reg t where e: "v = Running e" "ev_type e = REGISTER_ACCOUNT" "ev_data e = ED_registration reg"
      "(v, t) \<in> set seen" "freeLogin Q db reg t" using assms(1) Free by (auto simp: earned_def)
    ultimately have "signedUp Q db (seen @ [(v, s)]) e a" unfolding signedUp_def by auto
    then show ?thesis using Cleared e(1) by (simp add: earned_def)
  qed (use assms(2) Free in \<open>simp_all add: credential_def\<close>)
qed (use assms(1-3) in \<open>cases q'; auto simp: credential_def earned_def\<close>)+

lemma reached_earned:
  "reached credential Nobody v seen q \<Longrightarrow>
     (\<And>s. (v, s) \<in> set seen \<Longrightarrow> txn (w_out s) = Map.empty \<and> tables_ok (dbW s)) \<Longrightarrow> earned seen v q"
proof (induction rule: reached.induct)
  case Start
  then show ?case by (simp add: earned_def)
next
  case (Past seen q p)
  then show ?case by (simp add: earned_more)
next
  case (Check seen q q' s)
  then show ?case by (intro earned_check) simp_all
qed

lemma permitted_entry:
  assumes "entries.permitted seen v s s'"
    and "\<And>t. (v, t) \<in> set seen \<Longrightarrow> txn (w_out t) = Map.empty \<and> tables_ok (dbW t)"
  shows "tokenOf a s' \<in> {None, tokenOf a s} \<or>
    (\<exists>e. v = Running e \<and> (loggedIn E db seen e a \<or> signedUp Q db seen e a))"
proof -
  obtain q h L where q: "reached credential Nobody v seen q" "entrants UNIV L h s"
    "\<And>L. entrants UNIV L h s \<Longrightarrow> \<exists>h'. entrants (barred q) L h' s'"
    using assms(1) unfolding entries.permitted_def by blast
  have "entrants UNIV (\<lambda>a. tokenOf a s) h s" using q(2) by (simp add: entrants_def)
  from q(3) [OF this] have t: "b \<in> barred q \<Longrightarrow> tokenOf b s' \<in> {None, tokenOf b s}" for b
    by (auto simp: entrants_def)
  show ?thesis
  proof (cases "a \<in> barred q")
    case False
    then have "q = Cleared a" by (cases q) auto
    then show ?thesis using reached_earned [OF q(1) assms(2)] by (simp add: earned_def)
  qed (use t in blast)
qed

lemma cserved_entrants:
  assumes c: "cserved E ms k w ps seen cs" and r: "ready txn n [] w" "tables_ok (dbW w)" "dkeys (w_sessions w)"
  shows "handlerMove E i cs = Some cs' \<Longrightarrow> tokenOf a (worldOf cs') \<in> {None, tokenOf a (worldOf cs)} \<or>
      (\<exists>e. workersOf cs ! i = Running e \<and> (loggedIn E db seen e a \<or> signedUp Q db seen e a))"
    and "tokenOf a (worldOf (loopMove E ms cs)) \<in> {None, tokenOf a (worldOf cs)}"
proof -
  have start: "entrants UNIV (\<lambda>a. tokenOf a w) [] w" using r(3) by (simp add: entrants_def)
  have past: "txn (w_out s) = Map.empty \<and> tables_ok (dbW s)" if "(v, s) \<in> set seen" for v s
    using seen_served [OF c that] cserved_ready cserved_tables r(1,2) by (metis ready_def)
  show "tokenOf a (worldOf cs') \<in> {None, tokenOf a (worldOf cs)} \<or>
      (\<exists>e. workersOf cs ! i = Running e \<and> (loggedIn E db seen e a \<or> signedUp Q db seen e a))"
    if "handlerMove E i cs = Some cs'"
    using entries.worker_stage [OF c start that] by (rule disjE) (simp, erule permitted_entry, erule past)
  show "tokenOf a (worldOf (loopMove E ms cs)) \<in> {None, tokenOf a (worldOf cs)}"
    using entries.loop_stage [OF c start]
  proof
    assume "entries.permitted seen Waiting (worldOf cs) (worldOf (loopMove E ms cs))"
    from permitted_entry [OF this past] show ?thesis by simp
  qed (simp add: tokenOf_def)
qed

end

section \<open>A login\<close>

definition annLogin :: Event where
  "annLogin = clientEvent AUTH_CLIENT (newClient\<lparr>cd_login := ''ann'', cd_password := ''ab'',
     cd_clientVersion := ''1.0.0'', cd_socket := Some 3\<rparr>) 3 newTimestamp"

lemma ann_logs_in: "tokenOf 7 (snd (dispatchEvent (relServer False) annLogin annWorld)) \<noteq> None"
proof -
  let ?E = "relServer False" and ?w = "annWorld\<lparr>w_pool := (w_pool annWorld)\<lparr>pl_available := []\<rparr>\<rparr>"
  have acq: "acquireW ?E annWorld = (Inr 0, ?w)"
    by (simp add: acquireW_def acquire_def relServer_def relLib_def relConn_def rel_defs annWorld_def relWorld_def
        andThen_def onPool_def onWorld_def healthy_def tryCatch_def connectionAt_def)
  let ?m = "authenticate ?E 0 ''ann'' ''ab'' ''127.0.0.1'' ''1.0.0'' ?w"
  obtain r s1 where m: "?m = (r, s1)" by fastforce
  have "char_of (54 :: nat) = CHR ''6''" "char_of (49 :: nat) = CHR ''1''" "char_of (50 :: nat) = CHR ''2''"
    by code_simp+
  then have "fst ?m = Inr (outcome AUTH_OK 7)"
    by (simp add: annWorld_def auth_eval reset_failed_logins_def)
  then have r: "r = Inr (outcome AUTH_OK 7)" by (simp add: m)
  have "ready relTxn 1 [0] ?w"
    using annWorld_ready by (simp add: ready_def annWorld_def relWorld_def pool_ok_def)
  from wpD [OF rel_server.authenticate_wp [OF this] m] r
  have "authPost ?E rl_db ''ann'' ''ab'' ''1.0.0'' ?w (outcome AUTH_OK 7) s1" by auto
  then have t: "tokenOf 7 s1 \<noteq> None" by (auto simp: authPost_def outcome_def tokenOf_def Let_def)
  have out: "tokenOf 7 (snd (respond ?E so st b s)) = tokenOf 7 s" for so st b s
    using respond_frame [of ?E so st b s] by (auto simp: tokenOf_def)
  obtain r2 s2 where c: "authenticateClient ?E 0 (newClient\<lparr>cd_login := ''ann'', cd_password := ''ab'',
      cd_clientVersion := ''1.0.0'', cd_socket := Some 3\<rparr>) ?w = (r2, s2)" by fastforce
  have "tokenOf 7 (snd (r2, s2)) \<noteq> None"
    unfolding c [symmetric] using t m r
    by (simp add: authenticateClient_def clientIpOf_def andThen_def guardGet_def connectionAt_def readS_def out
        newClient_def annWorld_def relWorld_def newServices_def emptyIO_def outcome_def ret_def)
  then show ?thesis
    by (simp add: annLogin_def clientEvent_def setEventTimestamps_def mkEvent_def dispatchEvent_def
        handleAuthentificateClientEvent_def withClient_def catchVariant_def andThen_def tryCatch_def acq scopeExit_def
        ret_def tokenOf_def releaseW_def c throw_def split: sum.split)
qed

section \<open>Properties\<close>

text \<open>C3: who gets a session while handlers run interleaved: a single move of a worker gives an account a
  token in the registry, or another one, only if it runs a login which a read has pushed and which at
  its earlier moves has found the account active, unlocked and not banned and the password right, or a
  registration which a read has pushed and which at its earlier moves has found its login free up to
  case and made a new account; a move of the event loop or of its clean-up lets nobody in.\<close>

theorem only_checked_logins_open_sessions:
  assumes "server E Q db txn" and "ready txn n [] w" and "tables_ok (db (w_out w))" and "dkeys (w_sessions w)"
    and "q_items (evq w) = []" and "cserved E ms k w ps seen cs" and "handlerMove E i cs = Some cs'"
  shows "(tokenOf a (worldOf cs') \<in> {None, tokenOf a (worldOf cs)} \<or>
      (\<exists>e. workersOf cs ! i = Running e \<and> e \<in> set ps \<and> (loggedIn E db seen e a \<or> signedUp Q db seen e a))) \<and>
    tokenOf a (worldOf (loopMove E ms cs)) \<in> {None, tokenOf a (worldOf cs)}"
  using server.cserved_entrants(1) [OF assms(1,6,2,3,4,7), of a] server.cserved_entrants(2) [OF assms(1,6,2,3,4), of a]
    running_pushed [OF assms(6,5) handlerMove_index [OF assms(7)]] by blast

theorem only_checked_logins_open_sessions_witness:
  "\<exists>seen cs cs'. cserved (relServer False) 60000 1 annWorld [annLogin] seen cs \<and>
     handlerMove (relServer False) 0 cs = Some cs' \<and> tokenOf 7 (worldOf cs) = None \<and> tokenOf 7 (worldOf cs') \<noteq> None \<and>
     loggedIn (relServer False) rl_db seen annLogin 7"
proof -
  have q: "evq annWorld = \<lparr>q_items = [], q_stopped = False\<rparr>"
    by (simp add: annWorld_def relWorld_def newServices_def newQueue_def)
  obtain st where st: "served (relServer False) 60000 1 annWorld [annLogin] st" "ls_world st = annWorld"
    "tp_workers (ls_tasks st) = [Running annLogin]" by (rule one_started [OF q])
  then obtain seen0 cs0 where c0: "cserved (relServer False) 60000 1 annWorld [annLogin] seen0 cs0"
    "between (relServer False) st cs0" using served_cserved by blast
  have none: "tokenOf 7 annWorld = None" by (simp add: tokenOf_def annWorld_def relWorld_def)
  have "tokenOf 7 (snd (runT (taskT (relServer False) annLogin) annWorld)) \<noteq> None"
    by (simp add: run_task runTask_world ann_logs_in)
  then obtain seen cs cs' where c: "cserved (relServer False) 60000 1 annWorld [annLogin] seen cs"
    "handlerMove (relServer False) 0 cs = Some cs'" "workersOf cs = workersOf cs0"
    "tokenOf 7 (worldOf cs) = None" "tokenOf 7 (worldOf cs') \<noteq> None"
    using change_has_move [OF c0(1), of 0 _ "\<lambda>s. tokenOf 7 s \<noteq> None"] c0(2) st none
    by (auto simp: between_def handlerOf_def workerStep_def)
  have "q_items (evq annWorld) = []" by (simp add: q)
  moreover have "tables_ok (rl_db (w_out annWorld))" "dkeys (w_sessions annWorld)"
    by (simp_all add: tables_ok_def keyed_def annWorld_def relWorld_def noTables_def)
  ultimately have "tokenOf 7 (worldOf cs') \<in> {None, tokenOf 7 (worldOf cs)} \<or>
      (\<exists>e. workersOf cs ! 0 = Running e \<and> e \<in> set [annLogin] \<and>
        (loggedIn (relServer False) rl_db seen e 7 \<or> signedUp demoSql rl_db seen e 7))"
    using only_checked_logins_open_sessions [OF rel_server.server_axioms annWorld_ready _ _ _ c(1,2), of 7] by blast
  moreover have "ev_type annLogin = AUTH_CLIENT" by (simp add: annLogin_def clientEvent_def setEventTimestamps_def mkEvent_def)
  ultimately have "loggedIn (relServer False) rl_db seen annLogin 7" using c(4,5) by (auto simp: signedUp_def)
  then show ?thesis using c by blast
qed

end
